(* ===== verification/Kernel_Prelude.thy ===== *)
theory Kernel_Prelude
  imports Main "HOL-Library.Word"
begin

text \<open>
  The shared base of the development: the integer types of \<open>src/types.h\<close>, the outcome of
  running kernel code, the state-passing combinators in which the C functions are written,
  the weakest-precondition calculus every component proof uses, and generic list lemmas.
\<close>

section \<open>Integer types\<close>

type_synonym u8 = "8 word"
type_synonym u16 = "16 word"
type_synonym u32 = "32 word"

text \<open>
  The value a C \<open>uint\<close> holds after an arithmetic operation whose exact result is \<open>x\<close>.
\<close>

definition uint32 :: "int \<Rightarrow> nat" where
  "uint32 x = nat (x mod 4294967296)"

lemma uint32_bound: "uint32 x < 4294967296"
  by (simp add: uint32_def nat_less_iff)

lemma uint32_small [simp]: "x < 4294967296 \<Longrightarrow> uint32 (int x) = x"
  by (simp add: uint32_def)

lemma of_nat_u32_eq:
  "a < 2 ^ 32 \<Longrightarrow> b < 2 ^ 32 \<Longrightarrow> (of_nat a :: u32) = of_nat b \<longleftrightarrow> a = b"
  by (simp add: word_of_nat_eq_iff take_bit_nat_eq_self)

section \<open>Running kernel code\<close>

text \<open>
  A C function of the kernel runs on a state and ends in one of five ways: it returns a
  value; it calls \<open>panic\<close>; it does something C leaves undefined (an index outside an array,
  a null pointer read); it gives up the processor in \<open>swtch\<close> with the state the scheduler
  finds; or it never gets past a busy-wait (a lock held elsewhere, a loop that runs out of
  its fuel).
\<close>

datatype ('s, 'a) outcome =
    Done 'a 's
  | Panic string
  | Fault string
  | Switch 's
  | Spin

type_synonym ('s, 'a) km = "'s \<Rightarrow> ('s, 'a) outcome"

definition ret :: "'a \<Rightarrow> ('s, 'a) km" where
  "ret a s = Done a s"

definition kbind :: "('s, 'a) km \<Rightarrow> ('a \<Rightarrow> ('s, 'b) km) \<Rightarrow> ('s, 'b) km" where
  "kbind m f s =
     (case m s of
        Done a t \<Rightarrow> f a t
      | Panic e \<Rightarrow> Panic e
      | Fault e \<Rightarrow> Fault e
      | Switch t \<Rightarrow> Switch t
      | Spin \<Rightarrow> Spin)"

definition kthen :: "('s, 'a) km \<Rightarrow> ('s, 'b) km \<Rightarrow> ('s, 'b) km" where
  "kthen m k = kbind m (\<lambda>_. k)"

definition gets :: "('s \<Rightarrow> 'a) \<Rightarrow> ('s, 'a) km" where
  "gets f s = Done (f s) s"

definition modify :: "('s \<Rightarrow> 's) \<Rightarrow> ('s, unit) km" where
  "modify f s = Done () (f s)"

definition kpanic :: "string \<Rightarrow> ('s, 'a) km" where
  "kpanic e s = Panic e"

definition kfault :: "string \<Rightarrow> ('s, 'a) km" where
  "kfault e s = Fault e"

definition kspin :: "('s, 'a) km" where
  "kspin s = Spin"

definition panic_if :: "bool \<Rightarrow> string \<Rightarrow> ('s, unit) km" where
  "panic_if c e = (if c then kpanic e else ret ())"

definition fault_if :: "bool \<Rightarrow> string \<Rightarrow> ('s, unit) km" where
  "fault_if c e = (if c then kfault e else ret ())"

definition kwhen :: "bool \<Rightarrow> ('s, unit) km \<Rightarrow> ('s, unit) km" where
  "kwhen c m = (if c then m else ret ())"

text \<open>A counted loop with no early exit.\<close>

primrec kfor :: "'b list \<Rightarrow> ('b \<Rightarrow> ('s, unit) km) \<Rightarrow> ('s, unit) km" where
  "kfor [] f = ret ()"
| "kfor (x # xs) f = kthen (f x) (kfor xs f)"

text \<open>A loop over \<open>xs\<close> that stops at the first round that returns a value.\<close>

primrec kfind :: "'b list \<Rightarrow> ('b \<Rightarrow> ('s, 'a option) km) \<Rightarrow> ('s, 'a option) km" where
  "kfind [] f = ret None"
| "kfind (x # xs) f = kbind (f x) (\<lambda>r. case r of Some a \<Rightarrow> ret (Some a) | None \<Rightarrow> kfind xs f)"

named_theorems run_simps "evaluation of kernel code on a given state"

lemma run_ret [run_simps]: "ret a s = Done a s"
  by (simp add: ret_def)

lemma run_gets [run_simps]: "gets f s = Done (f s) s"
  by (simp add: gets_def)

lemma run_modify [run_simps]: "modify f s = Done () (f s)"
  by (simp add: modify_def)

lemma run_kpanic [run_simps]: "kpanic e s = Panic e"
  by (simp add: kpanic_def)

lemma run_kfault [run_simps]: "kfault e s = Fault e"
  by (simp add: kfault_def)

lemma run_kspin [run_simps]: "kspin s = Spin"
  by (simp add: kspin_def)

lemma run_panic_if [run_simps]:
  "panic_if c e s = (if c then Panic e else Done () s)"
  by (simp add: panic_if_def kpanic_def ret_def)

lemma run_fault_if [run_simps]:
  "fault_if c e s = (if c then Fault e else Done () s)"
  by (simp add: fault_if_def kfault_def ret_def)

lemma run_kbind [run_simps]:
  "kbind m f s =
     (case m s of
        Done a t \<Rightarrow> f a t
      | Panic e \<Rightarrow> Panic e
      | Fault e \<Rightarrow> Fault e
      | Switch t \<Rightarrow> Switch t
      | Spin \<Rightarrow> Spin)"
  by (simp add: kbind_def)

lemma run_kthen [run_simps]:
  "kthen m k s =
     (case m s of
        Done a t \<Rightarrow> k t
      | Panic e \<Rightarrow> Panic e
      | Fault e \<Rightarrow> Fault e
      | Switch t \<Rightarrow> Switch t
      | Spin \<Rightarrow> Spin)"
  by (simp add: kthen_def kbind_def)

lemma run_kwhen [run_simps]: "kwhen c m s = (if c then m s else Done () s)"
  by (simp add: kwhen_def ret_def)

lemma kthen_assoc: "kthen (kthen m k) l = kthen m (kthen k l)"
  by (rule ext) (simp add: run_simps split: outcome.splits)

lemma kfor_append: "kfor (xs @ ys) f = kthen (kfor xs f) (kfor ys f)"
  by (induction xs) (simp_all add: kthen_assoc, simp add: fun_eq_iff run_simps)

section \<open>Weakest preconditions\<close>

text \<open>
  \<open>wp m Q s\<close>: from state \<open>s\<close> the code \<open>m\<close> returns normally, and its result and final state
  satisfy \<open>Q\<close>. It is total correctness: a panic, an undefined access, a context switch and a
  busy-wait all falsify it.
\<close>

definition wp :: "('s, 'a) km \<Rightarrow> ('a \<Rightarrow> 's \<Rightarrow> bool) \<Rightarrow> 's \<Rightarrow> bool" where
  "wp m Q s = (case m s of Done a t \<Rightarrow> Q a t | _ \<Rightarrow> False)"

named_theorems wp_simps "weakest preconditions of the combinators and of the primitives"

lemma wp_iff: "wp m Q s \<longleftrightarrow> (\<exists>a t. m s = Done a t \<and> Q a t)"
  by (auto simp: wp_def split: outcome.splits)

lemma wpI: "m s = Done a t \<Longrightarrow> Q a t \<Longrightarrow> wp m Q s"
  by (simp add: wp_def)

lemma wpE:
  assumes "wp m Q s"
  obtains a t where "m s = Done a t" and "Q a t"
  using assms by (auto simp: wp_iff)

lemma wp_ret [wp_simps]: "wp (ret a) Q s = Q a s"
  by (simp add: wp_def ret_def)

lemma wp_gets [wp_simps]: "wp (gets f) Q s = Q (f s) s"
  by (simp add: wp_def gets_def)

lemma wp_modify [wp_simps]: "wp (modify f) Q s = Q () (f s)"
  by (simp add: wp_def modify_def)

lemma wp_kpanic [wp_simps]: "wp (kpanic e) Q s = False"
  by (simp add: wp_def kpanic_def)

lemma wp_kfault [wp_simps]: "wp (kfault e) Q s = False"
  by (simp add: wp_def kfault_def)

lemma wp_kspin [wp_simps]: "wp kspin Q s = False"
  by (simp add: wp_def kspin_def)

lemma wp_panic_if [wp_simps]: "wp (panic_if c e) Q s = (\<not> c \<and> Q () s)"
  by (simp add: wp_def run_simps)

lemma wp_fault_if [wp_simps]: "wp (fault_if c e) Q s = (\<not> c \<and> Q () s)"
  by (simp add: wp_def run_simps)

lemma wp_kbind [wp_simps]: "wp (kbind m f) Q s = wp m (\<lambda>a. wp (f a) Q) s"
  by (simp add: wp_def kbind_def split: outcome.splits)

lemma wp_kthen [wp_simps]: "wp (kthen m k) Q s = wp m (\<lambda>_. wp k Q) s"
  by (simp add: wp_def kthen_def kbind_def split: outcome.splits)

lemma wp_if [wp_simps]: "wp (if c then m else k) Q s = (if c then wp m Q s else wp k Q s)"
  by simp

lemma wp_kwhen [wp_simps]: "wp (kwhen c m) Q s = (if c then wp m Q s else Q () s)"
  by (simp add: wp_def run_simps)

lemma wp_let [wp_simps]: "wp (let x = e in m x) Q s = wp (m e) Q s"
  by simp

text \<open>Consequence: how a proof uses the specification of a function it calls.\<close>

lemma wp_mono: "wp m P s \<Longrightarrow> (\<And>a t. P a t \<Longrightarrow> Q a t) \<Longrightarrow> wp m Q s"
  by (auto simp: wp_iff)

lemma wp_conj: "wp m P s \<Longrightarrow> wp m Q s \<Longrightarrow> wp m (\<lambda>a t. P a t \<and> Q a t) s"
  by (auto simp: wp_iff)

lemma wp_Done: "m s = Done a t \<Longrightarrow> wp m Q s = Q a t"
  by (simp add: wp_def)

text \<open>The loop rule: \<open>I i\<close> holds before the \<open>i\<close>-th round.\<close>

lemma wp_kfor_from:
  assumes "I k s"
    and "\<And>i t. i < length xs \<Longrightarrow> I (k + i) t \<Longrightarrow> wp (f (xs ! i)) (\<lambda>_. I (Suc (k + i))) t"
  shows "wp (kfor xs f) (\<lambda>_. I (k + length xs)) s"
  using assms
proof (induction xs arbitrary: k s)
  case Nil
  then show ?case by (simp add: wp_simps)
next
  case (Cons x xs)
  have "wp (f x) (\<lambda>_. I (Suc k)) s"
    using Cons.prems(2) [of 0 s] Cons.prems(1) by simp
  moreover have "wp (kfor xs f) (\<lambda>_. I (Suc k + length xs)) t" if "I (Suc k) t" for t
  proof (rule Cons.IH)
    show "I (Suc k) t" by (rule that)
    show "wp (f (xs ! i)) (\<lambda>_. I (Suc (Suc k + i))) u" if "i < length xs" "I (Suc k + i) u" for i u
      using Cons.prems(2) [of "Suc i" u] that by simp
  qed
  ultimately show ?case
    by (auto simp: wp_simps elim: wp_mono)
qed

lemma wp_kfor:
  assumes "I 0 s"
    and "\<And>i t. i < length xs \<Longrightarrow> I i t \<Longrightarrow> wp (f (xs ! i)) (\<lambda>_. I (Suc i)) t"
    and "\<And>t. I (length xs) t \<Longrightarrow> Q () t"
  shows "wp (kfor xs f) Q s"
proof -
  have "wp (kfor xs f) (\<lambda>_. I (0 + length xs)) s"
    by (rule wp_kfor_from [where k = 0]) (use assms in auto)
  then show ?thesis by (rule wp_mono) (use assms(3) in auto)
qed

section \<open>Lists\<close>

text \<open>Overwriting the bytes of \<open>xs\<close> from index \<open>i\<close> on with \<open>ys\<close>.\<close>

definition overwrite :: "nat \<Rightarrow> 'a list \<Rightarrow> 'a list \<Rightarrow> 'a list" where
  "overwrite i ys xs = take i xs @ ys @ drop (i + length ys) xs"

lemma length_overwrite [simp]:
  "i + length ys \<le> length xs \<Longrightarrow> length (overwrite i ys xs) = length xs"
  by (simp add: overwrite_def)

lemma nth_overwrite:
  assumes "i + length ys \<le> length xs" and "j < length xs"
  shows "overwrite i ys xs ! j = (if i \<le> j \<and> j < i + length ys then ys ! (j - i) else xs ! j)"
  using assms by (auto simp: overwrite_def nth_append min_def)

lemma overwrite_same_slice:
  "i + n \<le> length xs \<Longrightarrow> overwrite i (take n (drop i xs)) xs = xs"
  by (simp add: overwrite_def)
     (metis add.commute append_take_drop_id drop_drop)

lemma slice_overwrite [simp]:
  "i + length ys \<le> length xs \<Longrightarrow> take (length ys) (drop i (overwrite i ys xs)) = ys"
  by (simp add: overwrite_def)

text \<open>The first index from \<open>i\<close> on that satisfies a predicate.\<close>

fun first_index :: "('a \<Rightarrow> bool) \<Rightarrow> 'a list \<Rightarrow> nat option" where
  "first_index P [] = None"
| "first_index P (x # xs) = (if P x then Some 0 else map_option Suc (first_index P xs))"

lemma first_index_Some:
  "first_index P xs = Some i \<longleftrightarrow> i < length xs \<and> P (xs ! i) \<and> (\<forall>j < i. \<not> P (xs ! j))"
proof (induction xs arbitrary: i)
  case Nil
  then show ?case by simp
next
  case (Cons x xs)
  then show ?case by (cases i) (auto simp: less_Suc_eq_0_disj)
qed

lemma first_index_None: "first_index P xs = None \<longleftrightarrow> (\<forall>i < length xs. \<not> P (xs ! i))"
  by (induction xs) (auto simp: less_Suc_eq_0_disj)

lemma first_index_bound: "first_index P xs = Some i \<Longrightarrow> i < length xs"
  by (simp add: first_index_Some)

lemma map_nth_same: "length xs = n \<Longrightarrow> map (\<lambda>i. xs ! i) [0..<n] = xs"
  using map_nth [of xs] by simp

text \<open>Invariants of sequences, conditionals and loops.\<close>

lemma kfor_keeps:
  assumes "\<And>x t. I t \<Longrightarrow> wp (f x) (\<lambda>_. I) t" "I s"
  shows "wp (kfor xs f) (\<lambda>_. I) s"
  using assms(2)
proof (induction xs arbitrary: s)
  case (Cons x xs)
  then show ?case by (auto simp: wp_simps intro: wp_mono [OF assms(1) [OF Cons.prems, of x]])
qed (simp add: wp_simps)

lemma kthen_keeps: "wp m (\<lambda>_. I) t \<Longrightarrow> (\<And>t. I t \<Longrightarrow> wp n (\<lambda>_. I) t) \<Longrightarrow> wp (kthen m n) (\<lambda>_. I) t"
  unfolding wp_kthen by (rule wp_mono)

lemma kwhen_keeps: "I t \<Longrightarrow> (b \<Longrightarrow> wp m (\<lambda>_. I) t) \<Longrightarrow> wp (kwhen b m) (\<lambda>_. I) t"
  by (simp add: wp_kwhen)

end
