(* ===== verification/Spinlock.thy ===== *)
theory Spinlock
  imports Kernel_Prelude
begin

text \<open>
  The per-CPU state of \<open>src/proc.h\<close> and the spin locks of \<open>src/spinlock.c\<close>: interrupt
  disabling (\<open>pushcli\<close>, \<open>popcli\<close>), \<open>acquire\<close>, \<open>release\<close>, \<open>holding\<close>, and the call-stack walk
  \<open>getcallerpcs\<close>. The theory ends with the interleaved runs of several CPUs over the locks.
  The two debugging fields of a lock (its name and the saved call stack) carry no behaviour
  and are left out of the lock; the walk that fills the call stack is modelled on its own.
\<close>

section \<open>State\<close>

text \<open>
  The lock objects of the kernel, one constructor for each \<open>struct spinlock\<close> the sources
  declare; a pipe has its own, so it is named by the pipe's address.
\<close>

datatype lockid =
    PtableLock | KmemLock | BcacheLock | IdeLock | LogLock | IcacheLock | FtableLock
  | TicksLock | ConsLock | InputLock | PipeLock nat

record spinlock =
  locked :: nat
  lcpu :: "nat option"

text \<open>
  \<open>struct cpu\<close>, with the interrupt flag of the EFLAGS register, the page-table register and
  the kernel stack pointer of the task state segment, which the kernel also writes.
\<close>

record cpu =
  ncli :: int
  intena :: bool
  eflags_IF :: bool
  cproc :: "nat option"
  cr3 :: u32
  ts_esp0 :: u32

text \<open>\<open>cpu_id\<close> is the CPU that executes the code being run (the \<open>%gs\<close> base).\<close>

record machine =
  cpu_id :: nat
  cpus :: "nat \<Rightarrow> cpu"
  locks :: "lockid \<Rightarrow> spinlock"

definition mycpu :: "'z machine_scheme \<Rightarrow> cpu" where
  "mycpu s = cpus s (cpu_id s)"

definition set_mycpu :: "cpu \<Rightarrow> 'z machine_scheme \<Rightarrow> 'z machine_scheme" where
  "set_mycpu c s = s\<lparr>cpus := (cpus s)(cpu_id s := c)\<rparr>"

definition set_lock :: "lockid \<Rightarrow> spinlock \<Rightarrow> 'z machine_scheme \<Rightarrow> 'z machine_scheme" where
  "set_lock l k s = s\<lparr>locks := (locks s)(l := k)\<rparr>"

section \<open>Operations\<close>

definition initlock :: "lockid \<Rightarrow> ('z machine_scheme, unit) km" where
  "initlock l = modify (set_lock l \<lparr>locked = 0, lcpu = None\<rparr>)"

definition holding :: "lockid \<Rightarrow> 'z machine_scheme \<Rightarrow> bool" where
  "holding l s \<longleftrightarrow> locked (locks s l) \<noteq> 0 \<and> lcpu (locks s l) = Some (cpu_id s)"

definition pushcli :: "('z machine_scheme, unit) km" where
  "pushcli = modify (\<lambda>s.
     let c = mycpu s; eflags = eflags_IF c in
     set_mycpu (c\<lparr>eflags_IF := False, ncli := ncli c + 1,
                 intena := (if ncli c = 0 then eflags else intena c)\<rparr>) s)"

definition popcli :: "('z machine_scheme, unit) km" where
  "popcli =
     kbind (gets mycpu) (\<lambda>c.
     kthen (panic_if (eflags_IF c) ''popcli - interruptible'') (
     let c1 = c\<lparr>ncli := ncli c - 1\<rparr> in
     kthen (modify (set_mycpu c1)) (
     kthen (panic_if (ncli c1 < 0) ''popcli'') (
     kwhen (ncli c1 = 0 \<and> intena c1) (modify (set_mycpu (c1\<lparr>eflags_IF := True\<rparr>)))))))"

text \<open>
  The \<open>xchg\<close> loop of \<open>acquire\<close>: it ends in its first round when the lock is free, and when
  it is not free nothing this CPU does changes that.
\<close>

definition acquire :: "lockid \<Rightarrow> ('z machine_scheme, unit) km" where
  "acquire l =
     kthen pushcli (
     kbind (gets (holding l)) (\<lambda>h.
     kthen (panic_if h ''acquire'') (
     kbind (gets (\<lambda>s. locked (locks s l))) (\<lambda>old.
     if old \<noteq> 0 then kspin
     else modify (\<lambda>s. set_lock l \<lparr>locked = 1, lcpu = Some (cpu_id s)\<rparr> s)))))"

definition release :: "lockid \<Rightarrow> ('z machine_scheme, unit) km" where
  "release l =
     kbind (gets (holding l)) (\<lambda>h.
     kthen (panic_if (\<not> h) ''release'') (
     kthen (modify (set_lock l \<lparr>locked = 0, lcpu = None\<rparr>)) popcli))"

text \<open>
  \<open>getcallerpcs\<close> follows the saved frame pointers through the stack memory \<open>mem\<close> (one word
  per four-byte aligned address), at most ten frames, and fills the rest with zeros.
\<close>

definition KERNBASE :: u32 where
  "KERNBASE = 0x80000000"

fun pcs_walk :: "nat \<Rightarrow> (u32 \<Rightarrow> u32) \<Rightarrow> u32 \<Rightarrow> u32 list" where
  "pcs_walk 0 mem ebp = []"
| "pcs_walk (Suc k) mem ebp =
     (if ebp = 0 \<or> ebp < KERNBASE \<or> ebp = 0xffffffff then []
      else mem (ebp + 4) # pcs_walk k mem (mem ebp))"

definition getcallerpcs :: "(u32 \<Rightarrow> u32) \<Rightarrow> u32 \<Rightarrow> u32 list" where
  "getcallerpcs mem v =
     (let pcs = pcs_walk 10 mem (v - 8) in pcs @ replicate (10 - length pcs) 0)"

lemma length_pcs_walk: "length (pcs_walk k mem ebp) \<le> k"
  by (induction k mem ebp rule: pcs_walk.induct) auto

lemma length_getcallerpcs [simp]: "length (getcallerpcs mem v) = 10"
  using length_pcs_walk [of 10 mem "v - 8"] by (simp add: getcallerpcs_def Let_def)

section \<open>Critical sections of one CPU\<close>

definition free_lock :: spinlock where
  "free_lock = \<lparr>locked = 0, lcpu = None\<rparr>"

text \<open>
  \<open>quiet s\<close>: no lock is held by any CPU and the executing CPU runs with interrupts enabled.
  \<open>crit ls s\<close>: the state \<open>s\<close> in which the executing CPU has in addition acquired \<open>ls\<close>.
\<close>

definition quiet :: "'z machine_scheme \<Rightarrow> bool" where
  "quiet s \<longleftrightarrow>
     (\<forall>l. locks s l = free_lock) \<and>
     ncli (mycpu s) = 0 \<and> intena (mycpu s) \<and> eflags_IF (mycpu s)"

definition hold_locks :: "lockid list \<Rightarrow> nat \<Rightarrow> (lockid \<Rightarrow> spinlock) \<Rightarrow> lockid \<Rightarrow> spinlock" where
  "hold_locks ls i k = (\<lambda>l. if l \<in> set ls then \<lparr>locked = 1, lcpu = Some i\<rparr> else k l)"

definition crit :: "lockid list \<Rightarrow> 'z machine_scheme \<Rightarrow> 'z machine_scheme" where
  "crit ls s =
     s\<lparr>cpus := (cpus s)(cpu_id s :=
          (mycpu s)\<lparr>ncli := int (length ls), eflags_IF := (ls = [])\<rparr>),
       locks := hold_locks ls (cpu_id s) (locks s)\<rparr>"

named_theorems crit_simps "field access and update commute with the locks being held"

lemma crit_Nil: "quiet s \<Longrightarrow> crit [] s = s"
  by (auto simp: crit_def hold_locks_def quiet_def mycpu_def fun_eq_iff intro!: machine.equality cpu.equality)

lemma crit_cpu_id [crit_simps]: "cpu_id (crit ls s) = cpu_id s"
  by (simp add: crit_def)

lemma acquire_crit:
  assumes "quiet s" and "l \<notin> set ls"
  shows "acquire l (crit ls s) = Done () (crit (l # ls) s)"
proof -
  have "locks s l = free_lock" using assms(1) by (simp add: quiet_def)
  then show ?thesis
    using assms
    by (simp add: acquire_def pushcli_def run_simps crit_def hold_locks_def quiet_def mycpu_def set_mycpu_def
        set_lock_def holding_def free_lock_def fun_eq_iff Let_def)
qed

lemma release_crit:
  assumes "quiet s" and "l \<in> set ls" and "distinct ls"
  shows "release l (crit ls s) = Done () (crit (remove1 l ls) s)"
proof -
  have "locks s l = free_lock" using assms(1) by (simp add: quiet_def)
  moreover have len: "length ls = Suc (length (remove1 l ls))"
    using assms(2) by (simp add: length_remove1) (metis One_nat_def Suc_pred length_pos_if_in_set)
  moreover have "(remove1 l ls = []) = (length (remove1 l ls) = 0)"
    by simp
  moreover have "x \<in> set (remove1 l ls) \<longleftrightarrow> x \<in> set ls \<and> x \<noteq> l" for x
    using assms(3) by (auto simp: set_remove1_eq)
  ultimately show ?thesis
    using assms
    by (auto simp: release_def popcli_def run_simps crit_def hold_locks_def quiet_def mycpu_def set_mycpu_def
        set_lock_def holding_def free_lock_def fun_eq_iff Let_def)
qed

lemma release_crit_hd:
  "quiet s \<Longrightarrow> distinct (l # ls) \<Longrightarrow> release l (crit (l # ls) s) = Done () (crit ls s)"
  using release_crit [of s l "l # ls"] by simp

lemma wp_acquire [wp_simps]:
  "quiet s \<Longrightarrow> l \<notin> set ls \<Longrightarrow> wp (acquire l) Q (crit ls s) = Q () (crit (l # ls) s)"
  by (simp add: wp_def acquire_crit)

lemma wp_release [wp_simps]:
  "quiet s \<Longrightarrow> l \<in> set ls \<Longrightarrow> distinct ls \<Longrightarrow>
     wp (release l) Q (crit ls s) = Q () (crit (remove1 l ls) s)"
  by (simp add: wp_def release_crit)

lemma acquire_quiet: "quiet s \<Longrightarrow> acquire l s = Done () (crit [l] s)"
  using acquire_crit [of s l "[]"] by (simp add: crit_Nil)

lemma release_quiet: "quiet s \<Longrightarrow> release l (crit [l] s) = Done () s"
  using release_crit [of s l "[l]"] by (simp add: crit_Nil)

lemma wp_acquire_quiet [wp_simps]: "quiet s \<Longrightarrow> wp (acquire l) Q s = Q () (crit [l] s)"
  by (simp add: wp_def acquire_quiet)

lemma wp_release_last [wp_simps]: "quiet s \<Longrightarrow> wp (release l) Q (crit [l] s) = Q () s"
  by (simp add: wp_def release_quiet)

section \<open>Several CPUs\<close>

text \<open>
  An interleaving of lock operations by several CPUs: each step is one whole \<open>acquire\<close> or
  \<open>release\<close> of some CPU that returns (a CPU whose \<open>acquire\<close> spins makes no step until the
  lock is free). The trace records who took and gave back which lock.
\<close>

datatype lock_event = Acq nat lockid | Rel nat lockid

inductive lock_run :: "'z machine_scheme \<Rightarrow> lock_event list \<Rightarrow> 'z machine_scheme \<Rightarrow> bool" where
  start: "lock_run s [] s"
| acq: "lock_run s es t \<Longrightarrow> acquire l (t\<lparr>cpu_id := i\<rparr>) = Done () u \<Longrightarrow>
     lock_run s (es @ [Acq i l]) u"
| rel: "lock_run s es t \<Longrightarrow> release l (t\<lparr>cpu_id := i\<rparr>) = Done () u \<Longrightarrow>
     lock_run s (es @ [Rel i l]) u"

text \<open>
  The lock discipline of a trace, seen from lock \<open>l\<close> with current holder \<open>h\<close>: it is taken
  only while nobody has it and given back only by the CPU that took it.
\<close>

fun exclusive :: "lockid \<Rightarrow> nat option \<Rightarrow> lock_event list \<Rightarrow> bool" where
  "exclusive l h [] = True"
| "exclusive l h (Acq i k # es) =
     (if k = l then h = None \<and> exclusive l (Some i) es else exclusive l h es)"
| "exclusive l h (Rel i k # es) =
     (if k = l then h = Some i \<and> exclusive l None es else exclusive l h es)"

fun holder :: "lockid \<Rightarrow> nat option \<Rightarrow> lock_event list \<Rightarrow> nat option" where
  "holder l h [] = h"
| "holder l h (Acq i k # es) = holder l (if k = l then Some i else h) es"
| "holder l h (Rel i k # es) = holder l (if k = l then None else h) es"

lemma exclusive_append:
  "exclusive l h (es @ fs) \<longleftrightarrow> exclusive l h es \<and> exclusive l (holder l h es) fs"
  by (induction l h es rule: exclusive.induct) auto

lemma holder_append: "holder l h (es @ fs) = holder l (holder l h es) fs"
  by (induction l h es rule: holder.induct) auto

definition locks_start :: "'z machine_scheme \<Rightarrow> bool" where
  "locks_start s \<longleftrightarrow> (\<forall>l. locks s l = free_lock) \<and> (\<forall>i. ncli (cpus s i) = 0)"

definition held_by :: "nat \<Rightarrow> 'z machine_scheme \<Rightarrow> lockid set" where
  "held_by i s = {l. lcpu (locks s l) = Some i}"

text \<open>
  What every run keeps: a lock word is 1 exactly when it names an owner; the nesting depth of
  a CPU is the number of locks it holds; a CPU that holds a lock has interrupts off and has
  saved the flag it will restore.
\<close>

definition lock_inv :: "'z machine_scheme \<Rightarrow> 'z machine_scheme \<Rightarrow> bool" where
  "lock_inv s0 s \<longleftrightarrow>
     (\<forall>l. locks s l = free_lock \<or> (\<exists>i. locks s l = \<lparr>locked = 1, lcpu = Some i\<rparr>)) \<and>
     (\<forall>i. finite (held_by i s) \<and> ncli (cpus s i) = int (card (held_by i s))) \<and>
     (\<forall>i. if ncli (cpus s i) = 0 then eflags_IF (cpus s i) = eflags_IF (cpus s0 i)
          else \<not> eflags_IF (cpus s i) \<and> intena (cpus s i) = eflags_IF (cpus s0 i))"

lemma lock_inv_start: "locks_start s \<Longrightarrow> lock_inv s s"
  by (simp add: lock_inv_def locks_start_def held_by_def free_lock_def)

lemma acquire_Done:
  assumes "acquire l s = Done () t"
  shows "locked (locks s l) = 0"
    and "t = set_lock l \<lparr>locked = 1, lcpu = Some (cpu_id s)\<rparr>
      (set_mycpu ((mycpu s)\<lparr>eflags_IF := False, ncli := ncli (mycpu s) + 1,
          intena := (if ncli (mycpu s) = 0 then eflags_IF (mycpu s) else intena (mycpu s))\<rparr>) s)"
  using assms
  by (auto simp: acquire_def pushcli_def run_simps Let_def set_mycpu_def set_lock_def
      split: if_splits)

lemma release_Done:
  assumes "release l s = Done () t"
  shows "holding l s"
    and "\<not> eflags_IF (mycpu s)"
    and "0 < ncli (mycpu s)"
    and "t = set_lock l free_lock (set_mycpu ((mycpu s)\<lparr>ncli := ncli (mycpu s) - 1,
          eflags_IF := (ncli (mycpu s) = 1 \<and> intena (mycpu s))\<rparr>) s)"
  using assms
  by (auto simp: release_def popcli_def run_simps Let_def set_mycpu_def set_lock_def mycpu_def
      free_lock_def fun_eq_iff intro!: machine.equality cpu.equality split: if_splits)

lemma held_by_set_lock:
  "held_by i (set_lock l k s) = (if lcpu k = Some i then insert l (held_by i s) else held_by i s - {l})"
  by (auto simp: held_by_def set_lock_def)

lemma held_by_set_mycpu [simp]: "held_by i (set_mycpu c s) = held_by i s"
  by (simp add: held_by_def set_mycpu_def)

lemma lock_inv_free: "lock_inv s0 s \<Longrightarrow> locked (locks s l) = 0 \<Longrightarrow> locks s l = free_lock"
proof -
  assume "lock_inv s0 s" and 0: "locked (locks s l) = 0"
  then have "locks s l = free_lock \<or> (\<exists>i. locks s l = \<lparr>locked = 1, lcpu = Some i\<rparr>)"
    unfolding lock_inv_def by blast
  with 0 show "locks s l = free_lock" by auto
qed

lemma acquire_lock_inv:
  assumes inv: "lock_inv s0 s" and run: "acquire l (s\<lparr>cpu_id := i\<rparr>) = Done () t"
  shows "lock_inv s0 t"
proof -
  have free: "locks s l = free_lock"
    using acquire_Done(1) [OF run] lock_inv_free [OF inv] by simp
  then have "l \<notin> held_by j s" for j by (simp add: held_by_def free_lock_def)
  moreover have "held_by j (s\<lparr>cpu_id := i\<rparr>) = held_by j s" for j by (simp add: held_by_def)
  ultimately show ?thesis
    using inv unfolding acquire_Done(2) [OF run] lock_inv_def held_by_set_lock held_by_set_mycpu
    by (auto simp: set_lock_def set_mycpu_def mycpu_def split: if_splits)
qed

lemma release_lock_inv:
  assumes inv: "lock_inv s0 s" and run: "release l (s\<lparr>cpu_id := i\<rparr>) = Done () t"
  shows "lock_inv s0 t"
proof -
  have own: "lcpu (locks s l) = Some i"
    using release_Done(1) [OF run] by (simp add: holding_def)
  then have mem: "l \<in> held_by i s" and "\<And>j. j \<noteq> i \<Longrightarrow> l \<notin> held_by j s"
    by (auto simp: held_by_def)
  moreover have "0 < card (held_by i s)"
    using inv mem by (auto simp: lock_inv_def card_gt_0_iff)
  moreover have "held_by j (s\<lparr>cpu_id := i\<rparr>) = held_by j s" for j by (simp add: held_by_def)
  ultimately show ?thesis
    using inv unfolding release_Done(4) [OF run] lock_inv_def held_by_set_lock held_by_set_mycpu
    by (auto simp: set_lock_def set_mycpu_def mycpu_def free_lock_def card_Diff_singleton
        split: if_splits)
qed

lemma lock_run_inv: "lock_run s es t \<Longrightarrow> locks_start s \<Longrightarrow> lock_inv s t"
  by (induction rule: lock_run.induct)
    (auto intro: lock_inv_start acquire_lock_inv release_lock_inv)

lemma lock_run_holder:
  assumes "lock_run s es t" and "locks_start s"
  shows "exclusive l None es \<and> holder l None es = lcpu (locks t l)"
  using assms
proof (induction rule: lock_run.induct)
  case (start s)
  then show ?case by (simp add: locks_start_def free_lock_def)
next
  case (acq s es t k i u)
  then have "lock_inv s t" by (auto intro: lock_run_inv)
  with acquire_Done(1) [OF acq.hyps(2)] have "lcpu (locks t k) = None"
    using lock_inv_free [of s t k] by (simp add: free_lock_def)
  then show ?case
    using acq.IH acq.prems acquire_Done(2) [OF acq.hyps(2)]
    by (auto simp: exclusive_append holder_append set_lock_def set_mycpu_def)
next
  case (rel s es t k i u)
  from release_Done(1) [OF rel.hyps(2)] have "lcpu (locks t k) = Some i"
    by (simp add: holding_def)
  then show ?case
    using rel.IH rel.prems release_Done(4) [OF rel.hyps(2)]
    by (auto simp: exclusive_append holder_append set_lock_def set_mycpu_def free_lock_def)
qed

section \<open>Properties\<close>

text \<open>A machine with all locks free and interrupts enabled on every CPU.\<close>

definition idle_cpu :: cpu where
  "idle_cpu = \<lparr>ncli = 0, intena = True, eflags_IF = True, cproc = None, cr3 = 0, ts_esp0 = 0\<rparr>"

definition idle_machine :: machine where
  "idle_machine = \<lparr>cpu_id = 0, cpus = (\<lambda>_. idle_cpu), locks = (\<lambda>_. free_lock)\<rparr>"

lemma idle_machine_run:
  "\<exists>t. lock_run idle_machine [Acq 0 KmemLock, Acq 1 LogLock, Rel 0 KmemLock, Acq 1 KmemLock] t
     \<and> ncli (cpus t 1) = 2 \<and> ncli (cpus t 0) = 0"
proof -
  note ops = acquire_def release_def pushcli_def popcli_def run_simps set_mycpu_def mycpu_def
    set_lock_def holding_def idle_machine_def idle_cpu_def free_lock_def Let_def
  let ?es = "[Acq 0 KmemLock, Acq 1 LogLock, Rel 0 KmemLock]"
  have s0: "lock_run idle_machine [] idle_machine" by (rule lock_run.start)
  obtain s1 where r1: "acquire KmemLock (idle_machine\<lparr>cpu_id := 0\<rparr>) = Done () s1"
    by (simp add: ops)
  obtain s2 where r2: "acquire LogLock (s1\<lparr>cpu_id := 1\<rparr>) = Done () s2"
    using r1 by (simp add: ops) (auto simp: ops)
  obtain s3 where r3: "release KmemLock (s2\<lparr>cpu_id := 0\<rparr>) = Done () s3"
    using r1 r2 by (simp add: ops) (auto simp: ops)
  obtain s4 where r4: "acquire KmemLock (s3\<lparr>cpu_id := 1\<rparr>) = Done () s4"
    using r1 r2 r3 by (simp add: ops) (auto simp: ops)
  have "ncli (cpus s4 1) = 2" "ncli (cpus s4 0) = 0"
    using r1 r2 r3 r4 by (simp_all add: ops) (auto simp: ops)
  moreover have "lock_run idle_machine (?es @ [Acq 1 KmemLock]) s4"
    using lock_run.acq [OF lock_run.rel [OF lock_run.acq [OF lock_run.acq [OF s0 r1] r2] r3] r4]
    by simp
  ultimately show ?thesis by auto
qed



text \<open>
  C11 (invariant). Interrupt discipline. In the same interleavings a CPU that holds a lock runs
  with interrupts disabled, its \<open>pushcli\<close> depth is the number of locks it holds, and a CPU that
  has released all its locks has the interrupt flag it started with.
\<close>

theorem spinlock_interrupts:
  assumes "locks_start s" and "lock_run s es t"
  shows "ncli (cpus t i) = int (card (held_by i t)) \<and>
     (if held_by i t = {} then eflags_IF (cpus t i) = eflags_IF (cpus s i)
      else \<not> eflags_IF (cpus t i))"
proof -
  have "lock_inv s t" using assms by (auto intro: lock_run_inv)
  then have fin: "finite (held_by i t)" and n: "ncli (cpus t i) = int (card (held_by i t))"
    and f: "if ncli (cpus t i) = 0 then eflags_IF (cpus t i) = eflags_IF (cpus s i)
      else \<not> eflags_IF (cpus t i) \<and> intena (cpus t i) = eflags_IF (cpus s i)"
    unfolding lock_inv_def by blast+
  show ?thesis
    using f fin by (auto simp: n split: if_splits)
qed

theorem spinlock_interrupts_witness:
  "\<exists>t. lock_run idle_machine [Acq 0 KmemLock, Acq 1 LogLock, Rel 0 KmemLock, Acq 1 KmemLock] t
     \<and> card (held_by 1 t) = 2 \<and> \<not> eflags_IF (cpus t 1) \<and> card (held_by 0 t) = 0"
proof -
  obtain t where
    t: "lock_run idle_machine [Acq 0 KmemLock, Acq 1 LogLock, Rel 0 KmemLock, Acq 1 KmemLock] t"
    and n: "ncli (cpus t 1) = 2" "ncli (cpus t 0) = 0"
    using idle_machine_run by auto
  have st: "locks_start idle_machine"
    by (simp add: locks_start_def idle_machine_def idle_cpu_def)
  from spinlock_interrupts [OF st t, of 1] spinlock_interrupts [OF st t, of 0] n t
  show ?thesis by (auto split: if_splits)
qed

end
