(* ===== verification/Sched.thy ===== *)
theory Sched
  imports Spinlock
begin

text \<open>
  The process table of \<open>src/proc.h\<close> and the scheduling half of \<open>src/proc.c\<close>: \<open>sched\<close>, \<open>yield\<close>,
  \<open>sleep\<close>, \<open>wakeup\<close>, \<open>kill\<close>, the per-CPU \<open>scheduler\<close>, and the two address-space switches of
  \<open>src/vm.c\<close> it calls. Code that gives up the processor is cut at \<open>swtch\<close>: the part before it
  ends in \<open>Switch\<close>, the part after it is a definition of its own.
\<close>

section \<open>State\<close>

definition NPROC :: nat where "NPROC = 64"
definition NOFILE :: nat where "NOFILE = 16"
definition KSTACKSIZE :: u32 where "KSTACKSIZE = 4096"

datatype procstate = UNUSED | EMBRYO | SLEEPING | RUNNABLE | RUNNING | ZOMBIE

text \<open>
  Sleep channels are addresses of kernel objects; distinct objects have distinct addresses.
\<close>

datatype chan =
    ChanProc nat | ChanBuf nat | ChanInode nat | ChanLog | ChanTicks
  | ChanPipeRead nat | ChanPipeWrite nat | ChanInput

record trapframe =
  tf_edi :: u32
  tf_esi :: u32
  tf_ebp :: u32
  tf_ebx :: u32
  tf_edx :: u32
  tf_ecx :: u32
  tf_eax :: u32
  tf_es :: u16
  tf_ds :: u16
  tf_trapno :: u32
  tf_err :: u32
  tf_eip :: u32
  tf_cs :: u16
  tf_eflags :: u32
  tf_esp :: u32
  tf_ss :: u16

record ctx =
  ctx_edi :: u32
  ctx_esi :: u32
  ctx_ebx :: u32
  ctx_ebp :: u32
  ctx_eip :: u32

record proc =
  p_sz :: u32
  p_pgdir :: u32
  p_kstack :: u32
  p_state :: procstate
  p_pid :: int
  p_parent :: "nat option"
  p_tf :: trapframe
  p_context :: ctx
  p_chan :: "chan option"
  p_killed :: bool
  p_ofile :: "nat option list"
  p_cwd :: "nat option"
  p_name :: string
  p_ctime1 :: int
  p_etime :: int
  p_rtime :: int
  p_iotime :: int

record procs = machine +
  ptable :: "proc list"
  nextpid :: int
  initproc :: "nat option"
  ticks :: u32
  kpgdir :: u32

lemma crit_ptable [crit_simps]: "ptable (crit ls s) = ptable s"
  and crit_nextpid [crit_simps]: "nextpid (crit ls s) = nextpid s"
  and crit_initproc [crit_simps]: "initproc (crit ls s) = initproc s"
  and crit_ticks [crit_simps]: "ticks (crit ls s) = ticks s"
  and crit_kpgdir [crit_simps]: "kpgdir (crit ls s) = kpgdir s"
  by (simp_all add: crit_def)

lemma crit_ptable_update [crit_simps]: "ptable_update f (crit ls s) = crit ls (ptable_update f s)"
  and crit_nextpid_update [crit_simps]:
    "nextpid_update g (crit ls s) = crit ls (nextpid_update g s)"
  and crit_ticks_update [crit_simps]: "ticks_update h (crit ls s) = crit ls (ticks_update h s)"
  by (simp_all add: crit_def mycpu_def)

lemma quiet_procs_updates [simp]:
  "quiet (ptable_update f s) = quiet s"
  "quiet (nextpid_update g s) = quiet s"
  "quiet (initproc_update h s) = quiet s"
  "quiet (ticks_update k s) = quiet s"
  by (simp_all add: quiet_def mycpu_def)

lemma mycpu_procs_updates [simp]:
  "mycpu (ptable_update f s) = mycpu s"
  "mycpu (nextpid_update g s) = mycpu s"
  "mycpu (initproc_update h s) = mycpu s"
  "mycpu (ticks_update k s) = mycpu s"
  by (simp_all add: mycpu_def)

definition curproc :: "'z machine_scheme \<Rightarrow> nat option" where
  "curproc s = cproc (mycpu s)"

lemma curproc_crit [crit_simps]: "curproc (crit ls s) = curproc s"
  by (simp add: curproc_def crit_def mycpu_def)

lemma curproc_procs_updates [simp]:
  "curproc (ptable_update f s) = curproc s"
  "curproc (nextpid_update g s) = curproc s"
  "curproc (ticks_update k s) = curproc s"
  by (simp_all add: curproc_def)

text \<open>Reading through the \<open>proc\<close> pointer of this CPU.\<close>

definition myproc :: "('z machine_scheme, nat) km" where
  "myproc = kbind (gets curproc)
     (\<lambda>p. case p of None \<Rightarrow> kfault ''proc is null'' | Some i \<Rightarrow> ret i)"

definition upd_proc :: "nat \<Rightarrow> (proc \<Rightarrow> proc) \<Rightarrow> ('z procs_scheme, unit) km" where
  "upd_proc i f = modify (\<lambda>s. s\<lparr>ptable := (ptable s)[i := f (ptable s ! i)]\<rparr>)"

lemma wp_myproc [wp_simps]: "wp myproc Q s = (\<exists>i. curproc s = Some i \<and> Q i s)"
  by (auto simp: myproc_def wp_simps split: option.splits)

lemma run_myproc [run_simps]:
  "myproc s = (case curproc s of None \<Rightarrow> Fault ''proc is null'' | Some i \<Rightarrow> Done i s)"
  by (simp add: myproc_def run_simps split: option.splits)

section \<open>Address-space switches\<close>

definition v2p :: "u32 \<Rightarrow> u32" where
  "v2p a = a - KERNBASE"

definition p2v :: "u32 \<Rightarrow> u32" where
  "p2v a = a + KERNBASE"

definition switchkvm :: "('z procs_scheme, unit) km" where
  "switchkvm = modify (\<lambda>s. set_mycpu ((mycpu s)\<lparr>cr3 := v2p (kpgdir s)\<rparr>) s)"

definition switchuvm :: "nat \<Rightarrow> ('z procs_scheme, unit) km" where
  "switchuvm p =
     kthen pushcli (
     kbind myproc (\<lambda>me.
     kthen (modify (\<lambda>s. set_mycpu ((mycpu s)\<lparr>ts_esp0 := p_kstack (ptable s ! me) + KSTACKSIZE\<rparr>) s)) (
     kbind (gets (\<lambda>s. p_pgdir (ptable s ! p))) (\<lambda>d.
     kthen (panic_if (d = 0) ''switchuvm: no pgdir'') (
     kthen (modify (\<lambda>s. set_mycpu ((mycpu s)\<lparr>cr3 := v2p d\<rparr>) s)) popcli)))))"

section \<open>Giving up the processor\<close>

definition kswitch :: "('s, 'a) km" where
  "kswitch s = Switch s"

lemma run_kswitch [run_simps]: "kswitch s = Switch s"
  by (simp add: kswitch_def)

lemma wp_kswitch [wp_simps]: "wp kswitch Q s = False"
  by (simp add: wp_def kswitch_def)

definition sched :: "('z procs_scheme, 'a) km" where
  "sched =
     kbind (gets (holding PtableLock)) (\<lambda>h.
     kthen (panic_if (\<not> h) ''sched ptable.lock'') (
     kbind (gets mycpu) (\<lambda>c.
     kthen (panic_if (ncli c \<noteq> 1) ''sched locks'') (
     kbind myproc (\<lambda>me.
     kbind (gets (\<lambda>s. p_state (ptable s ! me))) (\<lambda>st.
     kthen (panic_if (st = RUNNING) ''sched running'') (
     kthen (panic_if (eflags_IF c) ''sched interruptible'') kswitch)))))))"

text \<open>The part of \<open>sched\<close> after \<open>swtch\<close>, with the value of its local variable \<open>intena\<close>.\<close>

definition sched_resume :: "bool \<Rightarrow> ('z procs_scheme, unit) km" where
  "sched_resume saved = modify (\<lambda>s. set_mycpu ((mycpu s)\<lparr>intena := saved\<rparr>) s)"

definition yield :: "('z procs_scheme, 'a) km" where
  "yield =
     kthen (acquire PtableLock) (
     kbind myproc (\<lambda>me.
     kthen (upd_proc me (\<lambda>p. p\<lparr>p_state := RUNNABLE\<rparr>)) sched))"

definition yield_resume :: "bool \<Rightarrow> ('z procs_scheme, unit) km" where
  "yield_resume saved = kthen (sched_resume saved) (release PtableLock)"

definition sleep :: "chan option \<Rightarrow> lockid option \<Rightarrow> ('z procs_scheme, 'a) km" where
  "sleep ch lk =
     kbind (gets curproc) (\<lambda>po.
     kthen (panic_if (po = None) ''sleep'') (
     kthen (panic_if (lk = None) ''sleep without lk'') (
     kthen (kwhen (lk \<noteq> Some PtableLock)
        (kthen (acquire PtableLock) (release (the lk)))) (
     kthen (upd_proc (the po) (\<lambda>p. p\<lparr>p_chan := ch, p_state := SLEEPING\<rparr>)) sched))))"

definition sleep_resume :: "bool \<Rightarrow> lockid \<Rightarrow> ('z procs_scheme, unit) km" where
  "sleep_resume saved lk =
     kthen (sched_resume saved) (
     kbind myproc (\<lambda>me.
     kthen (upd_proc me (\<lambda>p. p\<lparr>p_chan := None\<rparr>)) (
     kwhen (lk \<noteq> PtableLock) (kthen (release PtableLock) (acquire lk)))))"

definition wake_proc :: "chan option \<Rightarrow> proc \<Rightarrow> proc" where
  "wake_proc ch p =
     (if p_state p = SLEEPING \<and> p_chan p = ch then p\<lparr>p_state := RUNNABLE\<rparr> else p)"

definition wakeup1 :: "chan option \<Rightarrow> ('z procs_scheme, unit) km" where
  "wakeup1 ch = modify (\<lambda>s. s\<lparr>ptable := map (wake_proc ch) (ptable s)\<rparr>)"

definition wakeup :: "chan \<Rightarrow> ('z procs_scheme, unit) km" where
  "wakeup ch =
     kthen (acquire PtableLock) (
     kthen (wakeup1 (Some ch)) (
     release PtableLock))"

definition kill_proc :: "proc \<Rightarrow> proc" where
  "kill_proc p =
     p\<lparr>p_killed := True, p_state := (if p_state p = SLEEPING then RUNNABLE else p_state p)\<rparr>"

definition kill :: "int \<Rightarrow> ('z procs_scheme, int) km" where
  "kill pid =
     kthen (acquire PtableLock) (
     kbind (gets (\<lambda>s. first_index (\<lambda>p. p_pid p = pid) (ptable s))) (\<lambda>r.
     case r of
       None \<Rightarrow> kthen (release PtableLock) (ret (- 1))
     | Some i \<Rightarrow> kthen (upd_proc i kill_proc) (kthen (release PtableLock) (ret 0))))"

section \<open>The scheduler\<close>

text \<open>
  One pass of \<open>scheduler\<close> over the table: \<open>scheduler_enter\<close> enables interrupts and takes the
  table lock; \<open>scheduler_pick k\<close> scans from slot \<open>k\<close> to the next runnable process and
  switches to it (\<open>Some j\<close>, the lock stays held), or ends the pass and drops the lock
  (\<open>None\<close>); \<open>scheduler_back\<close> is what runs when that process switches back.
\<close>

definition scheduler_enter :: "('z procs_scheme, unit) km" where
  "scheduler_enter =
     kthen (modify (\<lambda>s. set_mycpu ((mycpu s)\<lparr>eflags_IF := True\<rparr>) s)) (acquire PtableLock)"

definition set_cproc :: "nat option \<Rightarrow> ('z procs_scheme, unit) km" where
  "set_cproc p = modify (\<lambda>s. set_mycpu ((mycpu s)\<lparr>cproc := p\<rparr>) s)"

definition scheduler_pick :: "nat \<Rightarrow> ('z procs_scheme, nat option) km" where
  "scheduler_pick k =
     kbind (gets (\<lambda>s. first_index (\<lambda>p. p_state p = RUNNABLE) (drop k (ptable s)))) (\<lambda>r.
     case r of
       None \<Rightarrow> kthen (release PtableLock) (ret None)
     | Some i \<Rightarrow>
         kthen (set_cproc (Some (k + i))) (
         kthen (switchuvm (k + i)) (
         kthen (upd_proc (k + i) (\<lambda>p. p\<lparr>p_state := RUNNING\<rparr>)) (
         ret (Some (k + i))))))"

definition scheduler_back :: "('z procs_scheme, unit) km" where
  "scheduler_back = kthen switchkvm (set_cproc None)"

section \<open>Behaviour of wakeup, sleep and kill\<close>

lemma wp_upd_proc [wp_simps]:
  "wp (upd_proc i f) Q s = Q () (s\<lparr>ptable := (ptable s)[i := f (ptable s ! i)]\<rparr>)"
  by (simp add: upd_proc_def wp_simps)

lemma run_upd_proc [run_simps]:
  "upd_proc i f s = Done () (s\<lparr>ptable := (ptable s)[i := f (ptable s ! i)]\<rparr>)"
  by (simp add: upd_proc_def run_simps)

definition woken :: "chan \<Rightarrow> 'z procs_scheme \<Rightarrow> 'z procs_scheme" where
  "woken ch s = s\<lparr>ptable := map (wake_proc (Some ch)) (ptable s)\<rparr>"

lemma quiet_woken [simp]: "quiet (woken ch s) = quiet s"
  by (simp add: woken_def)

lemma crit_woken [crit_simps]: "woken ch (crit ls s) = crit ls (woken ch s)"
  by (simp add: woken_def crit_simps)

lemma wakeup_run:
  assumes "quiet s" and "PtableLock \<notin> set ls" and "distinct ls"
  shows "wakeup ch (crit ls s) = Done () (crit ls (woken ch s))"
proof -
  have "map (wake_proc (Some ch)) (ptable (crit ls s)) = map (wake_proc (Some ch)) (ptable s)"
    by (simp add: crit_simps)
  then show ?thesis
    using assms
    by (simp add: wakeup_def wakeup1_def run_simps acquire_crit crit_simps woken_def
        release_crit [of "s\<lparr>ptable := map (wake_proc (Some ch)) (ptable s)\<rparr>"])
qed

lemma wp_wakeup [wp_simps]:
  "quiet s \<Longrightarrow> PtableLock \<notin> set ls \<Longrightarrow> distinct ls \<Longrightarrow>
     wp (wakeup ch) Q (crit ls s) = Q () (crit ls (woken ch s))"
  by (simp add: wp_def wakeup_run)

lemma wakeup_quiet: "quiet s \<Longrightarrow> wakeup ch s = Done () (woken ch s)"
  using wakeup_run [of s "[]" ch] by (simp add: crit_Nil)

lemma wp_wakeup_quiet [wp_simps]: "quiet s \<Longrightarrow> wp (wakeup ch) Q s = Q () (woken ch s)"
  by (simp add: wp_def wakeup_quiet)

definition asleep :: "nat \<Rightarrow> chan \<Rightarrow> 'z procs_scheme \<Rightarrow> 'z procs_scheme" where
  "asleep i ch s =
     s\<lparr>ptable := (ptable s)[i := (ptable s ! i)\<lparr>p_chan := Some ch, p_state := SLEEPING\<rparr>]\<rparr>"

lemma quiet_asleep [simp]: "quiet (asleep i ch s) = quiet s"
  by (simp add: asleep_def)

lemma sched_run:
  assumes "quiet s" and "curproc s = Some i" and "p_state (ptable s ! i) \<noteq> RUNNING"
  shows "sched (crit [PtableLock] s) = Switch (crit [PtableLock] s)"
  using assms
  by (simp add: sched_def run_simps crit_simps)
     (simp add: crit_def hold_locks_def holding_def mycpu_def run_simps)

lemma sleep_run:
  assumes "quiet s" and "curproc s = Some i" and "i < length (ptable s)"
  shows "sleep (Some ch) (Some lk) (crit [lk] s) = Switch (crit [PtableLock] (asleep i ch s))"
proof -
  have sw: "sched (crit [PtableLock] (asleep i ch s)) = Switch (crit [PtableLock] (asleep i ch s))"
    by (rule sched_run [of _ i]) (use assms in \<open>simp_all add: asleep_def\<close>)
  show ?thesis
  proof (cases "lk = PtableLock")
    case True
    then show ?thesis
      using assms sw by (simp add: sleep_def run_simps crit_simps asleep_def)
  next
    case False
    then show ?thesis
      using assms sw
      by (simp add: sleep_def run_simps crit_simps asleep_def acquire_crit release_crit)
  qed
qed

lemma kill_run:
  assumes "quiet s"
  shows "kill pid s =
     (case first_index (\<lambda>p. p_pid p = pid) (ptable s) of
        None \<Rightarrow> Done (- 1) s
      | Some i \<Rightarrow> Done 0 (s\<lparr>ptable := (ptable s)[i := kill_proc (ptable s ! i)]\<rparr>))"
  using assms
  by (simp add: kill_def run_simps acquire_quiet release_quiet crit_simps split: option.splits)

lemma wakeup_spins:
  assumes "j \<noteq> cpu_id s"
  shows "wakeup ch ((crit [PtableLock] s)\<lparr>cpu_id := j\<rparr>) = Spin"
  using assms
  by (simp add: wakeup_def acquire_def pushcli_def run_simps crit_def hold_locks_def holding_def
      mycpu_def set_mycpu_def Let_def)

text \<open>
  \<open>sleep\<close> asks for the table lock before it lets go of its own: while another CPU has the table
  lock it waits, also when it does not hold its own lock, whose release would panic.
\<close>

lemma sleep_spins:
  assumes "curproc s = Some i" and "j \<noteq> cpu_id s" and "lk \<noteq> PtableLock"
  shows "sleep ch (Some lk) (set_lock PtableLock \<lparr>locked = 1, lcpu = Some j\<rparr> s) = Spin"
  using assms
  by (simp add: sleep_def acquire_def pushcli_def run_simps holding_def curproc_def
      mycpu_def set_mycpu_def set_lock_def Let_def)

section \<open>Behaviour of the scheduler\<close>

lemma switchuvm_run:
  assumes "quiet s" and "curproc s = Some j" and "p_pgdir (ptable s ! j) \<noteq> 0"
  shows "\<exists>t. switchuvm j (crit [PtableLock] s) = Done () (crit [PtableLock] t) \<and>
     t = set_mycpu ((mycpu s)\<lparr>ts_esp0 := p_kstack (ptable s ! j) + KSTACKSIZE,
        cr3 := v2p (p_pgdir (ptable s ! j))\<rparr>) s"
  using assms
  by (simp add: switchuvm_def run_simps pushcli_def popcli_def curproc_def mycpu_def crit_def
      set_mycpu_def Let_def)
    (auto simp: fun_eq_iff intro!: machine.equality cpu.equality)

lemma scheduler_pick_None:
  assumes "quiet s" and "\<forall>i. k \<le> i \<and> i < length (ptable s) \<longrightarrow> p_state (ptable s ! i) \<noteq> RUNNABLE"
  shows "scheduler_pick k (crit [PtableLock] s) = Done None s"
proof -
  have "first_index (\<lambda>p. p_state p = RUNNABLE) (drop k (ptable s)) = None"
    using assms(2) by (auto simp: first_index_None)
  then show ?thesis
    using assms(1) by (simp add: scheduler_pick_def run_simps crit_simps release_quiet)
qed

lemma scheduler_pick_Some:
  assumes q: "quiet s" and j: "k \<le> j" "j < length (ptable s)" "p_state (ptable s ! j) = RUNNABLE"
    and least: "\<forall>i. k \<le> i \<and> i < j \<longrightarrow> p_state (ptable s ! i) \<noteq> RUNNABLE"
    and pd: "p_pgdir (ptable s ! j) \<noteq> 0"
  shows "\<exists>t. scheduler_pick k (crit [PtableLock] s) = Done (Some j) (crit [PtableLock] t) \<and>
     quiet t \<and> curproc t = Some j \<and> cr3 (mycpu t) = v2p (p_pgdir (ptable s ! j)) \<and>
     ptable t = (ptable s)[j := (ptable s ! j)\<lparr>p_state := RUNNING\<rparr>]"
proof -
  have f: "first_index (\<lambda>p. p_state p = RUNNABLE) (drop k (ptable s)) = Some (j - k)"
    using j least by (auto simp: first_index_Some)
  let ?s1 = "set_mycpu ((mycpu s)\<lparr>cproc := Some j\<rparr>) s"
  let ?s2 = "set_mycpu ((mycpu ?s1)\<lparr>ts_esp0 := p_kstack (ptable ?s1 ! j) + KSTACKSIZE,
        cr3 := v2p (p_pgdir (ptable ?s1 ! j))\<rparr>) ?s1"
  have c: "set_cproc (Some j) (crit [PtableLock] s) = Done () (crit [PtableLock] ?s1)"
    by (simp add: set_cproc_def run_simps crit_def mycpu_def set_mycpu_def)
      (auto simp: fun_eq_iff intro!: machine.equality cpu.equality)
  have q1: "quiet ?s1" and p1: "ptable ?s1 = ptable s"
    using q by (simp_all add: quiet_def mycpu_def set_mycpu_def)
  obtain t where "switchuvm j (crit [PtableLock] ?s1) = Done () (crit [PtableLock] t)" and "t = ?s2"
    using switchuvm_run [OF q1, of j] pd p1 by (auto simp: curproc_def mycpu_def set_mycpu_def)
  moreover have "quiet ?s2" using q1 by (simp add: quiet_def mycpu_def set_mycpu_def)
  ultimately show ?thesis
    using c f j(1) p1
    by (intro exI [of _ "?s2\<lparr>ptable := (ptable ?s2)[j := (ptable ?s2 ! j)\<lparr>p_state := RUNNING\<rparr>]\<rparr>"])
      (simp add: scheduler_pick_def run_simps crit_simps curproc_def, simp add: mycpu_def set_mycpu_def)
qed

text \<open>
  One pass of a CPU's scheduler loop from slot \<open>k\<close> on, as seen by process \<open>i\<close>: the list of
  processes it switches to. Between two picks anything may happen to the machine (the picked
  process and the other CPUs run), except that process \<open>i\<close> is runnable at every pick until it
  has been picked itself.
\<close>

inductive sched_pass :: "nat \<Rightarrow> 'z procs_scheme list \<Rightarrow> nat \<Rightarrow> nat list \<Rightarrow> bool" for i where
  pass_end: "quiet s \<Longrightarrow> i < length (ptable s) \<Longrightarrow> p_state (ptable s ! i) = RUNNABLE \<Longrightarrow>
     scheduler_pick k (crit [PtableLock] s) = Done None t \<Longrightarrow> sched_pass i [s] k []"
| pass_other: "quiet s \<Longrightarrow> i < length (ptable s) \<Longrightarrow> p_state (ptable s ! i) = RUNNABLE \<Longrightarrow>
     scheduler_pick k (crit [PtableLock] s) = Done (Some j) t \<Longrightarrow> j \<noteq> i \<Longrightarrow>
     sched_pass i ss (Suc j) js \<Longrightarrow> sched_pass i (s # ss) k (j # js)"
| pass_picked: "quiet s \<Longrightarrow> i < length (ptable s) \<Longrightarrow> p_state (ptable s ! i) = RUNNABLE \<Longrightarrow>
     scheduler_pick k (crit [PtableLock] s) = Done (Some i) t \<Longrightarrow> sched_pass i [s] k [i]"

lemma scheduler_pick_le:
  assumes run: "scheduler_pick k (crit [PtableLock] s) = Done r t" and q: "quiet s"
    and i: "k \<le> i" "i < length (ptable s)" "p_state (ptable s ! i) = RUNNABLE"
  shows "\<exists>j. r = Some j \<and> k \<le> j \<and> j \<le> i \<and> p_state (ptable s ! j) = RUNNABLE"
proof -
  have "first_index (\<lambda>p. p_state p = RUNNABLE) (drop k (ptable s)) \<noteq> None"
    using i by (auto simp: first_index_None intro!: exI [of _ "i - k"])
  then obtain d where d: "first_index (\<lambda>p. p_state p = RUNNABLE) (drop k (ptable s)) = Some d"
    by auto
  then have "\<not> i - k < d" "p_state (ptable s ! (k + d)) = RUNNABLE"
    using i by (auto simp: first_index_Some)
  then show ?thesis
    using run d i(1)
    by (auto simp: scheduler_pick_def run_simps crit_simps split: outcome.splits)
qed

section \<open>Properties\<close>

text \<open>The zero-filled \<open>struct proc\<close> of the kernel's BSS, and a machine with one process.\<close>

definition zero_tf :: trapframe where
  "zero_tf = \<lparr>tf_edi = 0, tf_esi = 0, tf_ebp = 0, tf_ebx = 0, tf_edx = 0, tf_ecx = 0, tf_eax = 0,
     tf_es = 0, tf_ds = 0, tf_trapno = 0, tf_err = 0, tf_eip = 0, tf_cs = 0, tf_eflags = 0,
     tf_esp = 0, tf_ss = 0\<rparr>"

definition zero_ctx :: ctx where
  "zero_ctx = \<lparr>ctx_edi = 0, ctx_esi = 0, ctx_ebx = 0, ctx_ebp = 0, ctx_eip = 0\<rparr>"

definition zero_proc :: proc where
  "zero_proc = \<lparr>p_sz = 0, p_pgdir = 0, p_kstack = 0, p_state = UNUSED, p_pid = 0,
     p_parent = None, p_tf = zero_tf, p_context = zero_ctx, p_chan = None, p_killed = False,
     p_ofile = replicate NOFILE None, p_cwd = None, p_name = [],
     p_ctime1 = 0, p_etime = 0, p_rtime = 0, p_iotime = 0\<rparr>"

definition small_procs :: "procstate \<Rightarrow> chan option \<Rightarrow> procs" where
  "small_procs st ch =
     \<lparr>cpu_id = 0, cpus = (\<lambda>_. idle_cpu\<lparr>cproc := Some 1\<rparr>), locks = (\<lambda>_. free_lock),
      ptable = [zero_proc, zero_proc\<lparr>p_state := st, p_pid := 1, p_chan := ch,
         p_pgdir := 0x80400000\<rparr>],
      nextpid = 2, initproc = Some 1, ticks = 0, kpgdir = 0x80001000\<rparr>"

lemma small_procs_quiet: "quiet (small_procs st ch)"
  by (simp add: quiet_def small_procs_def mycpu_def idle_cpu_def)

text \<open>
  C5 (safety). No lost wakeup. \<open>sleep\<close> called with its lock held ends with the process asleep
  on the channel, its lock free and the table lock held. It takes the table lock first: while
  another CPU has that lock it spins and has not yet touched its own lock (even one it does not
  hold, where a release would panic). While it holds the table lock, \<open>wakeup\<close> on any other CPU
  spins; and once the table lock is dropped, a \<open>wakeup\<close> of the channel makes the process
  runnable again.
\<close>

theorem sleep_no_lost_wakeup:
  assumes "quiet s" and "curproc s = Some i" and "i < length (ptable s)"
    and "lk \<noteq> PtableLock" and "cpu \<noteq> cpu_id s"
  shows "\<exists>t. sleep (Some ch) (Some lk) (crit [lk] s) = Switch (crit [PtableLock] t) \<and>
     locks (crit [PtableLock] t) lk = free_lock \<and>
     p_state (ptable t ! i) = SLEEPING \<and> p_chan (ptable t ! i) = Some ch \<and>
     sleep (Some ch) (Some lk) (set_lock PtableLock \<lparr>locked = 1, lcpu = Some cpu\<rparr> s) = Spin \<and>
     wakeup ch ((crit [PtableLock] s)\<lparr>cpu_id := cpu\<rparr>) = Spin \<and>
     wakeup ch ((crit [PtableLock] t)\<lparr>cpu_id := cpu\<rparr>) = Spin \<and>
     (\<exists>u. wakeup ch t = Done () u \<and> p_state (ptable u ! i) = RUNNABLE)"
proof (intro exI conjI)
  let ?t = "asleep i ch s"
  show "sleep (Some ch) (Some lk) (crit [lk] s) = Switch (crit [PtableLock] ?t)"
    by (rule sleep_run) (use assms in auto)
  show "locks (crit [PtableLock] ?t) lk = free_lock"
    using assms(1,4) by (simp add: crit_def hold_locks_def asleep_def quiet_def)
  show "p_state (ptable ?t ! i) = SLEEPING" and "p_chan (ptable ?t ! i) = Some ch"
    using assms(3) by (simp_all add: asleep_def)
  show "sleep (Some ch) (Some lk) (set_lock PtableLock \<lparr>locked = 1, lcpu = Some cpu\<rparr> s) = Spin"
    by (rule sleep_spins) (use assms in auto)
  show "wakeup ch ((crit [PtableLock] s)\<lparr>cpu_id := cpu\<rparr>) = Spin"
    by (rule wakeup_spins) (rule assms(5))
  show "wakeup ch ((crit [PtableLock] ?t)\<lparr>cpu_id := cpu\<rparr>) = Spin"
    by (rule wakeup_spins) (use assms(5) in \<open>simp add: asleep_def\<close>)
  show "wakeup ch ?t = Done () (woken ch ?t)"
    by (rule wakeup_quiet) (use assms(1) in simp)
  show "p_state (ptable (woken ch ?t) ! i) = RUNNABLE"
    using assms(3) by (simp add: woken_def asleep_def wake_proc_def)
qed

theorem sleep_no_lost_wakeup_witness:
  "\<exists>t u. sleep (Some ChanLog) (Some LogLock) (crit [LogLock] (small_procs RUNNING None))
       = Switch (crit [PtableLock] t) \<and>
     wakeup ChanLog ((crit [PtableLock] t)\<lparr>cpu_id := 3\<rparr>) = Spin \<and>
     wakeup ChanLog t = Done () u \<and> p_state (ptable u ! 1) = RUNNABLE"
  using sleep_no_lost_wakeup [OF small_procs_quiet, of RUNNING None 1 LogLock 3 ChanLog]
  by (auto simp: small_procs_def curproc_def mycpu_def)





end
