(* ===== verification/Kalloc.thy ===== *)
theory Kalloc
  imports Sched
begin

text \<open>
  The physical page allocator of \<open>src/kalloc.c\<close>. Physical memory is read and written through
  its kernel virtual address, page by page: \<open>pmem v i\<close> is the \<open>i\<close>-th 32-bit word of the page
  at address \<open>v\<close>. The free list is threaded through the first word of the free pages, as
  \<open>struct run\<close> does. The theory also states the allocator as an interface and proves the
  client lemmas once for it.
\<close>

unbundle bit_operations_syntax

section \<open>State\<close>

definition PGSIZE :: u32 where "PGSIZE = 4096"
definition PHYSTOP :: u32 where "PHYSTOP = 0xE000000"

record kmems = procs +
  pmem :: "u32 \<Rightarrow> nat \<Rightarrow> u32"
  freelist :: u32
  use_lock :: bool
  kend :: u32

lemma crit_kmems [crit_simps]:
  "pmem (crit ls s) = pmem s"
  "freelist (crit ls s) = freelist s"
  "use_lock (crit ls s) = use_lock s"
  "kend (crit ls s) = kend s"
  "pmem_update f (crit ls s) = crit ls (pmem_update f s)"
  "freelist_update g (crit ls s) = crit ls (freelist_update g s)"
  "use_lock_update h (crit ls s) = crit ls (use_lock_update h s)"
  by (simp_all add: crit_def mycpu_def)

lemma quiet_kmems [simp]:
  "quiet (pmem_update f s) = quiet s"
  "quiet (freelist_update g s) = quiet s"
  "quiet (use_lock_update h s) = quiet s"
  by (simp_all add: quiet_def mycpu_def)

section \<open>Operations\<close>

definition PGROUNDUP :: "u32 \<Rightarrow> u32" where
  "PGROUNDUP sz = (sz + PGSIZE - 1) AND NOT (PGSIZE - 1)"

definition PGROUNDDOWN :: "u32 \<Rightarrow> u32" where
  "PGROUNDDOWN a = a AND NOT (PGSIZE - 1)"

definition kfree :: "u32 \<Rightarrow> ('z kmems_scheme, unit) km" where
  "kfree v =
     kbind (gets (\<lambda>s. v mod PGSIZE \<noteq> 0 \<or> v < kend s \<or> v2p v \<ge> PHYSTOP)) (\<lambda>bad.
     kthen (panic_if bad ''kfree'') (
     kthen (modify (\<lambda>s. s\<lparr>pmem := (pmem s)(v := (\<lambda>_. 0x01010101))\<rparr>)) (
     kbind (gets use_lock) (\<lambda>lk.
     kthen (kwhen lk (acquire KmemLock)) (
     kthen (modify (\<lambda>s. s\<lparr>pmem := (pmem s)(v := (pmem s v)(0 := freelist s)), freelist := v\<rparr>)) (
     kwhen lk (release KmemLock)))))))"

definition kalloc :: "('z kmems_scheme, u32) km" where
  "kalloc =
     kbind (gets use_lock) (\<lambda>lk.
     kthen (kwhen lk (acquire KmemLock)) (
     kbind (gets freelist) (\<lambda>r.
     kthen (kwhen (r \<noteq> 0) (modify (\<lambda>s. s\<lparr>freelist := pmem s r 0\<rparr>))) (
     kthen (kwhen lk (release KmemLock)) (
     ret r)))))"

text \<open>
  The loop of \<open>freerange\<close> over page addresses; the addresses of the kernel's memory are far
  from the top of the address space, so the pointer arithmetic is on natural numbers.
\<close>

function freerange_from :: "nat \<Rightarrow> nat \<Rightarrow> ('z kmems_scheme, unit) km" where
  "freerange_from p vend =
     (if p + 4096 \<le> vend then kthen (kfree (of_nat p)) (freerange_from (p + 4096) vend)
      else ret ())"
  by pat_completeness auto
termination
  by (relation "measure (\<lambda>(p, vend). vend - p)") auto

declare freerange_from.simps [simp del]

definition freerange :: "u32 \<Rightarrow> u32 \<Rightarrow> ('z kmems_scheme, unit) km" where
  "freerange vstart vend = freerange_from (unat (PGROUNDUP vstart)) (unat vend)"

definition kinit1 :: "u32 \<Rightarrow> u32 \<Rightarrow> ('z kmems_scheme, unit) km" where
  "kinit1 vstart vend =
     kthen (initlock KmemLock) (
     kthen (modify (\<lambda>s. s\<lparr>use_lock := False\<rparr>)) (
     freerange vstart vend))"

definition kinit2 :: "u32 \<Rightarrow> u32 \<Rightarrow> ('z kmems_scheme, unit) km" where
  "kinit2 vstart vend =
     kthen (freerange vstart vend) (
     modify (\<lambda>s. s\<lparr>use_lock := True\<rparr>))"

section \<open>The free list\<close>

text \<open>\<open>runs m r xs\<close>: following the link words from \<open>r\<close> visits the pages \<open>xs\<close> and ends at 0.\<close>

fun runs :: "(u32 \<Rightarrow> nat \<Rightarrow> u32) \<Rightarrow> u32 \<Rightarrow> u32 list \<Rightarrow> bool" where
  "runs m r [] = (r = 0)"
| "runs m r (x # xs) = (r = x \<and> x \<noteq> 0 \<and> runs m (m x 0) xs)"

definition page_ok :: "'z kmems_scheme \<Rightarrow> u32 \<Rightarrow> bool" where
  "page_ok s v \<longleftrightarrow> v mod PGSIZE = 0 \<and> kend s \<le> v \<and> v2p v < PHYSTOP \<and> v \<noteq> 0"

definition freepages :: "'z kmems_scheme \<Rightarrow> u32 list \<Rightarrow> bool" where
  "freepages s xs \<longleftrightarrow> runs (pmem s) (freelist s) xs \<and> distinct xs \<and> list_all (page_ok s) xs"

lemma runs_fun: "runs m r xs \<Longrightarrow> runs m r ys \<Longrightarrow> xs = ys"
proof (induction m r xs arbitrary: ys rule: runs.induct)
  case (1 m r)
  then show ?case by (cases ys) auto
next
  case (2 m r x xs)
  then show ?case by (cases ys) auto
qed

lemma runs_frame: "runs m r xs \<Longrightarrow> (\<And>x. x \<in> set xs \<Longrightarrow> m' x 0 = m x 0) \<Longrightarrow> runs m' r xs"
  by (induction m r xs rule: runs.induct) auto

lemma page_ok_updates [simp]:
  "page_ok (pmem_update f s) v = page_ok s v"
  "page_ok (freelist_update g s) v = page_ok s v"
  "page_ok (use_lock_update h s) v = page_ok s v"
  by (simp_all add: page_ok_def)

definition freed :: "u32 \<Rightarrow> 'z kmems_scheme \<Rightarrow> 'z kmems_scheme" where
  "freed v s =
     s\<lparr>pmem := (pmem s)(v := (\<lambda>_. 0x01010101)(0 := freelist s)), freelist := v\<rparr>"

lemma quiet_freed [simp]: "quiet (freed v s) = quiet s"
  by (simp add: freed_def)

lemma kfree_run: "quiet s \<Longrightarrow> page_ok s v \<Longrightarrow> kfree v s = Done () (freed v s)"
  by (cases "use_lock s")
    (auto simp: kfree_def run_simps page_ok_def acquire_quiet release_quiet crit_simps freed_def
      not_less not_le)

lemma kfree_panics: "v mod PGSIZE \<noteq> 0 \<or> v < kend s \<or> PHYSTOP \<le> v2p v \<Longrightarrow> kfree v s = Panic ''kfree''"
  by (simp add: kfree_def run_simps)

lemma kalloc_run:
  assumes "quiet s"
  shows "kalloc s =
     Done (freelist s)
       (if freelist s = 0 then s else s\<lparr>freelist := pmem s (freelist s) 0\<rparr>)"
  using assms
  by (cases "use_lock s") (auto simp: kalloc_def run_simps acquire_quiet release_quiet crit_simps)

lemma freepages_freed:
  assumes "freepages s xs" and "page_ok s v" and "v \<notin> set xs"
  shows "freepages (freed v s) (v # xs)"
proof -
  have "runs ((pmem s)(v := (\<lambda>_. 0x01010101)(0 := freelist s))) (freelist s) xs"
    by (rule runs_frame [where m = "pmem s"]) (use assms in \<open>auto simp: freepages_def\<close>)
  then show ?thesis
    using assms by (auto simp: freepages_def freed_def page_ok_def list_all_iff)
qed

section \<open>The allocator as an interface\<close>

text \<open>
  What the clients of the allocator (\<open>vm.c\<close>, \<open>proc.c\<close>, \<open>pipe.c\<close>) rely on: a pool of free pages
  from which \<open>alloc\<close> takes one, or returns 0 when it is empty, and to which \<open>dealloc\<close> gives a
  valid page back.
\<close>

locale page_pool =
  fixes alloc :: "('s, u32) km"
    and dealloc :: "u32 \<Rightarrow> ('s, unit) km"
    and inv :: "'s \<Rightarrow> bool"
    and pool :: "'s \<Rightarrow> u32 set"
    and valid :: "'s \<Rightarrow> u32 \<Rightarrow> bool"
  assumes pool_valid: "inv s \<Longrightarrow> v \<in> pool s \<Longrightarrow> valid s v \<and> v \<noteq> 0"
    and alloc_law: "inv s \<Longrightarrow> wp alloc (\<lambda>v t. inv t \<and> valid t = valid s \<and>
        (if pool s = {} then v = 0 \<and> pool t = {} else v \<in> pool s \<and> pool t = pool s - {v})) s"
    and dealloc_law: "inv s \<Longrightarrow> valid s v \<Longrightarrow> v \<notin> pool s \<Longrightarrow>
        wp (dealloc v) (\<lambda>_ t. inv t \<and> valid t = valid s \<and> pool t = insert v (pool s)) s"

text \<open>
  A history of calls: pages handed out and given back. \<open>L\<close> is the set of live pages, those
  handed out and not yet given back; only a live page is given back.
\<close>

inductive pool_run ::
    "('s, u32) km \<Rightarrow> (u32 \<Rightarrow> ('s, unit) km) \<Rightarrow> 's \<Rightarrow> 's \<Rightarrow> u32 set \<Rightarrow> bool"
  for alloc dealloc s where
  begin_run: "pool_run alloc dealloc s s {}"
| hand_out: "pool_run alloc dealloc s t L \<Longrightarrow> alloc t = Done v u \<Longrightarrow> v \<noteq> 0 \<Longrightarrow>
     pool_run alloc dealloc s u (insert v L)"
| exhausted: "pool_run alloc dealloc s t L \<Longrightarrow> alloc t = Done 0 u \<Longrightarrow>
     pool_run alloc dealloc s u L"
| give_back: "pool_run alloc dealloc s t L \<Longrightarrow> v \<in> L \<Longrightarrow> dealloc v t = Done () u \<Longrightarrow>
     pool_run alloc dealloc s u (L - {v})"

context page_pool
begin

lemma alloc_Done:
  assumes "inv s" and "alloc s = Done v t"
  shows "inv t" and "valid t = valid s"
    and "v \<noteq> 0 \<Longrightarrow> v \<in> pool s \<and> pool t = pool s - {v}"
    and "v = 0 \<Longrightarrow> pool t = pool s"
  using alloc_law [OF assms(1)] assms(2) pool_valid [OF assms(1)]
  by (auto simp: wp_Done split: if_splits)

lemma dealloc_Done:
  assumes "inv s" and "valid s v" and "v \<notin> pool s" and "dealloc v s = Done () t"
  shows "inv t" and "valid t = valid s" and "pool t = insert v (pool s)"
  using dealloc_law [OF assms(1-3)] assms(4) by (simp_all add: wp_Done)

lemma pool_run_conserves:
  assumes "pool_run alloc dealloc s t L" and "inv s"
  shows "inv t \<and> valid t = valid s \<and> L \<inter> pool t = {} \<and> L \<union> pool t = pool s"
  using assms
proof (induction rule: pool_run.induct)
  case begin_run
  then show ?case by simp
next
  case (hand_out t L v u)
  then show ?case
    using alloc_Done [of t v u] by auto
next
  case (exhausted t L u)
  then show ?case
    using alloc_Done [of t 0 u] by auto
next
  case (give_back t L v u)
  then have "inv t" "valid t = valid s" "v \<notin> pool t" "v \<in> pool s" by auto
  moreover have "valid t v" using calculation pool_valid [of s v] give_back.prems by auto
  ultimately show ?case
    using dealloc_Done [of t v u] give_back by auto
qed

lemma pool_run_dealloc_returns:
  assumes "pool_run alloc dealloc s t L" and "inv s" and "v \<in> L"
  shows "\<exists>u. dealloc v t = Done () u"
proof -
  note c = pool_run_conserves [OF assms(1,2)]
  have "v \<in> pool s" using c assms(3) by blast
  then have "valid s v" using pool_valid [OF assms(2)] by blast
  with c assms(3) have "wp (dealloc v) (\<lambda>_ u. True) t"
    by (intro wp_mono [OF dealloc_law]) auto
  then show ?thesis by (auto simp: wp_iff)
qed

lemma dealloc_all:
  assumes "inv s" and "distinct vs" and "\<forall>v \<in> set vs. valid s v" and "set vs \<inter> pool s = {}"
  shows "wp (kfor vs dealloc) (\<lambda>_ t. inv t \<and> valid t = valid s \<and> pool t = set vs \<union> pool s) s"
  using assms
proof (induction vs arbitrary: s)
  case Nil
  then show ?case by (simp add: wp_simps)
next
  case (Cons v vs)
  have "wp (dealloc v) (\<lambda>_ t. inv t \<and> valid t = valid s \<and> pool t = insert v (pool s)) s"
    by (rule dealloc_law) (use Cons.prems in auto)
  then show ?case
    unfolding kfor.simps wp_kthen
  proof (rule wp_mono)
    fix a t
    assume t: "inv t \<and> valid t = valid s \<and> pool t = insert v (pool s)"
    have "wp (kfor vs dealloc) (\<lambda>_ u. inv u \<and> valid u = valid t \<and> pool u = set vs \<union> pool t) t"
      by (rule Cons.IH) (use t Cons.prems in auto)
    then show "wp (kfor vs dealloc)
        (\<lambda>_ u. inv u \<and> valid u = valid s \<and> pool u = set (v # vs) \<union> pool s) t"
      by (rule wp_mono) (use t in auto)
  qed
qed

end

section \<open>The model implements the interface\<close>

definition kmem_inv :: "'z kmems_scheme \<Rightarrow> bool" where
  "kmem_inv s \<longleftrightarrow> quiet s \<and> (\<exists>xs. freepages s xs)"

definition free_pool :: "'z kmems_scheme \<Rightarrow> u32 set" where
  "free_pool s = {v. \<exists>xs. freepages s xs \<and> v \<in> set xs}"

lemma free_pool_eq: "freepages s xs \<Longrightarrow> free_pool s = set xs"
  by (auto simp: free_pool_def freepages_def dest: runs_fun)

lemma kalloc_freepages:
  assumes "freepages s xs"
  shows "xs = [] \<Longrightarrow> freelist s = 0"
    and "xs = v # ys \<Longrightarrow> freelist s = v \<and> freepages (s\<lparr>freelist := pmem s v 0\<rparr>) ys"
  using assms by (auto simp: freepages_def list_all_iff)

interpretation kmem: page_pool kalloc kfree kmem_inv free_pool page_ok
proof (unfold_locales, goal_cases)
  case (1 s v)
  then show ?case by (auto simp: free_pool_def freepages_def list_all_iff page_ok_def)
next
  case (2 s)
  then obtain xs where q: "quiet s" and xs: "freepages s xs" by (auto simp: kmem_inv_def)
  show ?case
  proof (cases xs)
    case Nil
    then show ?thesis
      using q xs kalloc_freepages(1) [OF xs]
      by (auto simp: wp_def kalloc_run kmem_inv_def free_pool_eq [OF xs])
  next
    case (Cons v ys)
    then have fl: "freelist s = v" and ys: "freepages (s\<lparr>freelist := pmem s v 0\<rparr>) ys"
      using kalloc_freepages(2) [OF xs] by auto
    have "v \<noteq> 0" "v \<notin> set ys" using xs Cons by (auto simp: freepages_def)
    then show ?thesis
      using q ys fl Cons
      by (auto simp: wp_def kalloc_run kmem_inv_def free_pool_eq [OF xs] free_pool_eq [OF ys]
          page_ok_def fun_eq_iff)
  qed
next
  case (3 s v)
  then obtain xs where q: "quiet s" and xs: "freepages s xs" by (auto simp: kmem_inv_def)
  have new: "freepages (freed v s) (v # xs)"
    by (rule freepages_freed) (use 3 xs free_pool_eq in auto)
  have "page_ok (freed v s) = page_ok s" by (simp add: fun_eq_iff freed_def)
  then show ?case
    using q 3 new by (auto simp: wp_def kfree_run kmem_inv_def free_pool_eq [OF xs] free_pool_eq [OF new])
qed

section \<open>Initialisation\<close>

definition pages :: "nat \<Rightarrow> nat \<Rightarrow> u32 list" where
  "pages p vend = map (\<lambda>k. of_nat (p + 4096 * k)) [0..<(vend - p) div 4096]"

lemma pages_step: "p + 4096 \<le> vend \<Longrightarrow> pages p vend = of_nat p # pages (p + 4096) vend"
proof -
  assume le: "p + 4096 \<le> vend"
  then have "(vend - p) div 4096 = Suc ((vend - (p + 4096)) div 4096)"
    using div_add_self1 [of 4096 "vend - (p + 4096)"] by simp
  then show ?thesis
    by (simp add: pages_def upt_conv_Cons map_Suc_upt [symmetric] del: upt_Suc)
qed

lemma freerange_from_eq: "freerange_from p vend = kfor (pages p vend) kfree"
proof (induction p vend rule: freerange_from.induct)
  case (1 p vend)
  show ?case
  proof (cases "p + 4096 \<le> vend")
    case True
    then show ?thesis
      using 1 by (simp add: freerange_from.simps [of p vend] pages_step)
  next
    case False
    then have "(vend - p) div 4096 = 0" by simp
    with False show ?thesis
      by (simp add: freerange_from.simps [of p vend] pages_def)
  qed
qed

lemma distinct_pages: "vend < 2 ^ 32 \<Longrightarrow> distinct (pages p vend)"
proof -
  assume v: "vend < 2 ^ 32"
  have "inj_on (\<lambda>k. of_nat (p + 4096 * k) :: u32) {0..<(vend - p) div 4096}"
  proof (rule inj_onI)
    fix j k
    assume jk: "j \<in> {0..<(vend - p) div 4096}" "k \<in> {0..<(vend - p) div 4096}"
      and eq: "(of_nat (p + 4096 * j) :: u32) = of_nat (p + 4096 * k)"
    have "p + 4096 * j < 2 ^ 32" "p + 4096 * k < 2 ^ 32"
      using jk v by auto
    then have "p + 4096 * j = p + 4096 * k"
      using eq of_nat_u32_eq by blast
    then show "j = k" by simp
  qed
  then show ?thesis by (simp add: pages_def distinct_map)
qed

lemma and_not_mask: "x AND NOT (mask n) = x - take_bit n (x :: 'a::len word)"
proof -
  have "x AND NOT (mask n) = push_bit n (drop_bit n x)"
    by (rule bit_eqI) (auto simp: bit_simps)
  then show ?thesis using bits_ident [of n x] by (metis add_diff_cancel_right')
qed

lemma unat_PGROUNDDOWN: "unat (PGROUNDDOWN a) = unat a div 4096 * 4096"
proof -
  have m: "PGSIZE - 1 = mask 12" by (simp add: PGSIZE_def mask_numeral)
  have t: "unat (take_bit 12 a) = unat a mod 4096"
    by (simp add: unsigned_take_bit_eq take_bit_nat_def)
  have "take_bit 12 a \<le> a"
    by (simp add: word_le_nat_alt t)
  then have "unat (a - take_bit 12 a) = unat a - unat a mod 4096"
    by (simp add: unat_sub t)
  then show ?thesis
    unfolding PGROUNDDOWN_def m and_not_mask by (simp add: minus_mod_eq_div_mult)
qed

lemma unat_PGROUNDUP:
  assumes "unat sz + 4095 < 2 ^ 32"
  shows "unat (PGROUNDUP sz) = (unat sz + 4095) div 4096 * 4096"
proof -
  have "PGROUNDUP sz = PGROUNDDOWN (sz + 4095)"
    by (simp add: PGROUNDUP_def PGROUNDDOWN_def PGSIZE_def add.commute)
  moreover have "unat (sz + 4095) = unat sz + 4095"
    using assms by (simp add: unat_word_ariths)
  ultimately show ?thesis by (simp add: unat_PGROUNDDOWN)
qed
lemma aligned_iff: "v mod PGSIZE = 0 \<longleftrightarrow> unat v mod 4096 = 0"
proof -
  have "unat (v mod PGSIZE) = unat v mod 4096" by (simp add: unat_mod PGSIZE_def)
  then show ?thesis by (metis unat_eq_zero)
qed

lemma pages_ok:
  assumes "KERNBASE \<le> kend s" and "unat (kend s) \<le> p" and "p mod 4096 = 0"
    and "vend \<le> 0x8E000000" and "v \<in> set (pages p vend)"
  shows "page_ok s v"
proof -
  obtain k where k: "k < (vend - p) div 4096" and v: "v = of_nat (p + 4096 * k)"
    using assms(5) by (auto simp: pages_def)
  have "p + 4096 * k + 4096 \<le> vend" using k by linarith
  then have u: "unat v = p + 4096 * k" and le: "unat v < 0x8E000000"
    using assms(4) by (simp_all add: v unat_of_nat del: of_nat_add of_nat_mult)
  have kb: "0x80000000 \<le> unat (kend s)"
    using assms(1) by (simp add: KERNBASE_def word_le_nat_alt)
  have "unat v mod 4096 = 0" using u assms(3) by simp
  then have "v mod PGSIZE = 0" by (simp add: aligned_iff)
  moreover have "kend s \<le> v" using u assms(2) by (simp add: word_le_nat_alt)
  moreover have "v2p v < PHYSTOP"
  proof -
    have "KERNBASE \<le> v" using assms(1) calculation(2) by simp
    then have "unat (v2p v) = unat v - 0x80000000"
      by (simp add: v2p_def unat_sub KERNBASE_def)
    then show ?thesis using le by (simp add: PHYSTOP_def word_less_nat_alt)
  qed
  moreover have "v \<noteq> 0" using u kb assms(2) by auto
  ultimately show ?thesis by (simp add: page_ok_def)
qed

lemma set_pages:
  assumes "p mod 4096 = 0" and "vend < 2 ^ 32"
  shows "set (pages p vend) = {v. v mod PGSIZE = 0 \<and> p \<le> unat v \<and> unat v + 4096 \<le> vend}"
proof (intro set_eqI iffI)
  fix v :: u32
  assume "v \<in> set (pages p vend)"
  then obtain k where k: "k < (vend - p) div 4096" and v: "v = of_nat (p + 4096 * k)"
    by (auto simp: pages_def)
  have le: "p + 4096 * k + 4096 \<le> vend" using k by linarith
  then have u: "unat v = p + 4096 * k"
    using assms(2) by (simp add: v unat_of_nat del: of_nat_add of_nat_mult)
  then have "unat v mod 4096 = 0" using assms(1) by simp
  then show "v \<in> {v. v mod PGSIZE = 0 \<and> p \<le> unat v \<and> unat v + 4096 \<le> vend}"
    using le u by (simp add: aligned_iff)
next
  fix v :: u32
  assume "v \<in> {v. v mod PGSIZE = 0 \<and> p \<le> unat v \<and> unat v + 4096 \<le> vend}"
  then have m: "unat v mod 4096 = 0" and le: "p \<le> unat v" "unat v + 4096 \<le> vend"
    by (auto simp: aligned_iff)
  let ?k = "(unat v - p) div 4096"
  have "4096 dvd unat v - p"
    using m assms(1) by (simp add: dvd_diff_nat mod_0_imp_dvd)
  then have "unat v = p + 4096 * ?k" using le(1) by simp
  then have "v = of_nat (p + 4096 * ?k)"
    using arg_cong [of "unat v" "p + 4096 * ?k" "of_nat :: nat \<Rightarrow> u32"] by simp
  moreover have "?k < (vend - p) div 4096" using le by linarith
  ultimately show "v \<in> set (pages p vend)"
    unfolding pages_def set_map by (intro image_eqI [of _ _ ?k]) simp_all
qed

section \<open>Properties\<close>

definition small_kmem :: kmems where
  "small_kmem =
     procs.extend (small_procs RUNNING None)
       \<lparr>pmem = (\<lambda>_ _. 0), freelist = 0, use_lock = False, kend = 0x80110000\<rparr>"

lemma kalloc_small_ops:
  "quiet small_kmem" "freepages small_kmem []" "KERNBASE \<le> kend small_kmem"
  by (simp_all add: small_kmem_def quiet_def small_procs_def mycpu_def idle_cpu_def procs.defs
      freepages_def KERNBASE_def)

lemma kmem_inv_kinit:
  assumes "quiet s" and "freelist s = 0"
  shows "quiet (set_lock KmemLock free_lock s\<lparr>use_lock := False\<rparr>)"
    and "freepages (set_lock KmemLock free_lock s\<lparr>use_lock := False\<rparr>) []"
  using assms by (simp_all add: quiet_def set_lock_def mycpu_def freepages_def)



text \<open>
  C6 (safety). In any history of \<open>kalloc\<close> and \<open>kfree\<close> calls in which only live pages are freed,
  no page is at the same time live and free, so none is handed out twice; no page is lost; and
  freeing a live page never panics.
\<close>

theorem kalloc_conserves_pages:
  assumes "kmem_inv s" and "pool_run kalloc kfree s t L"
  shows "L \<inter> free_pool t = {} \<and> L \<union> free_pool t = free_pool s \<and>
     (\<forall>v. v \<in> L \<longrightarrow> (\<exists>u. kfree v t = Done () u))"
  using kmem.pool_run_conserves [OF assms(2,1)] kmem.pool_run_dealloc_returns [OF assms(2,1)]
  by blast

theorem kalloc_conserves_pages_witness:
  "\<exists>(s :: kmems) t L. kmem_inv s \<and> pool_run kalloc kfree s t L \<and> L = {0x80111000} \<and>
     L \<union> free_pool t = free_pool s \<and> 0x80111000 \<notin> free_pool t"
proof -
  let ?s = "freed 0x80111000 small_kmem"
  have ok: "page_ok small_kmem 0x80111000"
    by (simp add: page_ok_def small_kmem_def procs.defs v2p_def KERNBASE_def PHYSTOP_def aligned_iff)
  have fp: "freepages ?s [0x80111000]"
    by (rule freepages_freed [OF kalloc_small_ops(2) ok]) simp
  then have inv: "kmem_inv ?s"
    using kalloc_small_ops(1) by (auto simp: kmem_inv_def)
  obtain t where "kalloc ?s = Done 0x80111000 t"
    using kalloc_run [of ?s] kalloc_small_ops(1) by (auto simp: freed_def)
  then have run: "pool_run kalloc kfree ?s t (insert 0x80111000 {})"
    by (intro pool_run.hand_out [OF pool_run.begin_run]) auto
  from kalloc_conserves_pages [OF inv run] inv run show ?thesis
    by (intro exI [of _ ?s] exI [of _ t] exI [of _ "{0x80111000}"]) auto
qed

end
