(* ===== verification/Disk.thy ===== *)
theory Disk
  imports Kalloc
begin

text \<open>
  Disk blocks and the two disk drivers: the in-memory disk of \<open>src/memide.c\<close> and the
  interrupt-driven IDE driver of \<open>src/ide.c\<close>, both of which provide \<open>iderw\<close> to the buffer
  cache. The disk itself is what it held at boot and the sequence of block writes it has
  received since; its contents follow from these two. The sequence is what a crash cuts short.
\<close>

unbundle bit_operations_syntax

section \<open>State\<close>

definition BSIZE :: nat where "BSIZE = 512"
definition FSSIZE :: nat where "FSSIZE = 1000"
definition NBUF :: nat where "NBUF = 30"

type_synonym block = "u8 list"

text \<open>A block address: the device number and the block number on it.\<close>

type_synonym baddr = "nat \<times> nat"

text \<open>
  \<open>struct buf\<close>; the three bits of its \<open>flags\<close> word are three fields, and the list links of the
  buffer cache are kept by the cache.
\<close>

record buf =
  b_busy :: bool
  b_valid :: bool
  b_dirty :: bool
  b_dev :: nat
  b_blockno :: nat
  b_qnext :: "nat option"
  b_data :: block

text \<open>The command the IDE controller is executing: a read of a sector, or a write with its data.\<close>

datatype ide_cmd = IdeRead baddr | IdeWrite baddr block

record disks = kmems +
  bufs :: "buf list"
  image :: "baddr \<Rightarrow> block"
  dwrites :: "(baddr \<times> block) list"
  disksize :: nat
  idequeue :: "nat option"
  havedisk1 :: bool
  ide_status :: u8
  ide_cmd :: "ide_cmd option"

definition apply_writes :: "(baddr \<times> block) list \<Rightarrow> (baddr \<Rightarrow> block) \<Rightarrow> baddr \<Rightarrow> block" where
  "apply_writes ws d = fold (\<lambda>(a, v) d. d(a := v)) ws d"

definition diskc :: "'z disks_scheme \<Rightarrow> baddr \<Rightarrow> block" where
  "diskc s = apply_writes (dwrites s) (image s)"

definition upd_buf :: "nat \<Rightarrow> (buf \<Rightarrow> buf) \<Rightarrow> 'z disks_scheme \<Rightarrow> 'z disks_scheme" where
  "upd_buf b f s = s\<lparr>bufs := (bufs s)[b := f (bufs s ! b)]\<rparr>"

definition disk_write :: "baddr \<Rightarrow> block \<Rightarrow> 'z disks_scheme \<Rightarrow> 'z disks_scheme" where
  "disk_write a v s = s\<lparr>dwrites := dwrites s @ [(a, v)]\<rparr>"

definition baddr_of :: "buf \<Rightarrow> baddr" where
  "baddr_of b = (b_dev b, b_blockno b)"

lemma crit_disks [crit_simps]:
  "bufs (crit ls s) = bufs s"
  "image (crit ls s) = image s"
  "dwrites (crit ls s) = dwrites s"
  "disksize (crit ls s) = disksize s"
  "idequeue (crit ls s) = idequeue s"
  "havedisk1 (crit ls s) = havedisk1 s"
  "ide_status (crit ls s) = ide_status s"
  "ide_cmd (crit ls s) = ide_cmd s"
  "bufs_update f (crit ls s) = crit ls (bufs_update f s)"
  "dwrites_update g (crit ls s) = crit ls (dwrites_update g s)"
  "idequeue_update h (crit ls s) = crit ls (idequeue_update h s)"
  "ide_cmd_update k (crit ls s) = crit ls (ide_cmd_update k s)"
  by (simp_all add: crit_def mycpu_def)

lemma crit_disk_ops [crit_simps]:
  "upd_buf b fb (crit ls s) = crit ls (upd_buf b fb s)"
  "disk_write a v (crit ls s) = crit ls (disk_write a v s)"
  "diskc (crit ls s) = diskc s"
  by (simp_all add: upd_buf_def disk_write_def diskc_def crit_simps)

lemma quiet_disks [simp]:
  "quiet (bufs_update f s) = quiet s"
  "quiet (dwrites_update g s) = quiet s"
  "quiet (idequeue_update h s) = quiet s"
  "quiet (ide_cmd_update k s) = quiet s"
  "quiet (upd_buf b fb s) = quiet s"
  "quiet (disk_write a v s) = quiet s"
  by (simp_all add: quiet_def mycpu_def upd_buf_def disk_write_def)

lemma apply_writes_simps [simp]:
  "apply_writes [] d = d"
  "apply_writes ((a, v) # ws) d = apply_writes ws (d(a := v))"
  by (simp_all add: apply_writes_def)

lemma apply_writes_append [simp]:
  "apply_writes (ws @ vs) d = apply_writes vs (apply_writes ws d)"
  by (simp add: apply_writes_def)

lemma diskc_simps [simp]:
  "diskc (disk_write a v s) = (diskc s)(a := v)"
  "diskc (upd_buf b f s) = diskc s"
  "bufs (disk_write a v s) = bufs s"
  "dwrites (upd_buf b f s) = dwrites s"
  by (simp_all add: diskc_def disk_write_def upd_buf_def)

lemma bufs_upd_buf [simp]: "bufs (upd_buf b f s) = (bufs s)[b := f (bufs s ! b)]"
  by (simp add: upd_buf_def)

section \<open>The in-memory disk\<close>

definition iderw :: "nat \<Rightarrow> ('z disks_scheme, unit) km" where
  "iderw b =
     kbind (gets (\<lambda>s. bufs s ! b)) (\<lambda>bp.
     kthen (panic_if (\<not> b_busy bp) ''iderw: buf not busy'') (
     kthen (panic_if (b_valid bp \<and> \<not> b_dirty bp) ''iderw: nothing to do'') (
     kthen (panic_if (b_dev bp \<noteq> 1) ''iderw: request not for disk 1'') (
     kbind (gets disksize) (\<lambda>n.
     kthen (panic_if (b_blockno bp \<ge> n) ''iderw: block out of range'') (
     kthen (if b_dirty bp
            then kthen (modify (upd_buf b (\<lambda>x. x\<lparr>b_dirty := False\<rparr>)))
                       (modify (disk_write (baddr_of bp) (b_data bp)))
            else modify (\<lambda>s. upd_buf b (\<lambda>x. x\<lparr>b_data := diskc s (baddr_of bp)\<rparr>) s)) (
     modify (upd_buf b (\<lambda>x. x\<lparr>b_valid := True\<rparr>)))))))))"

text \<open>What \<open>iderw\<close> does to a buffer and the disk: the comment of both drivers, as a function.\<close>

definition synced :: "nat \<Rightarrow> 'z disks_scheme \<Rightarrow> 'z disks_scheme" where
  "synced b s =
     (let bp = bufs s ! b in
      if b_dirty bp
      then disk_write (baddr_of bp) (b_data bp)
             (upd_buf b (\<lambda>x. x\<lparr>b_dirty := False, b_valid := True\<rparr>) s)
      else upd_buf b (\<lambda>x. x\<lparr>b_data := diskc s (baddr_of bp), b_valid := True\<rparr>) s)"

definition sync_ok :: "nat \<Rightarrow> 'z disks_scheme \<Rightarrow> bool" where
  "sync_ok b s \<longleftrightarrow>
     b < length (bufs s) \<and> b_busy (bufs s ! b) \<and> (b_dirty (bufs s ! b) \<or> \<not> b_valid (bufs s ! b)) \<and>
     b_dev (bufs s ! b) = 1 \<and> b_blockno (bufs s ! b) < disksize s"

lemma iderw_run: "sync_ok b s \<Longrightarrow> iderw b s = Done () (synced b s)"
  by (auto simp: iderw_def run_simps sync_ok_def synced_def Let_def upd_buf_def disk_write_def)

section \<open>The IDE driver\<close>

definition idewait :: "bool \<Rightarrow> ('z disks_scheme, int) km" where
  "idewait checkerr =
     kbind (gets ide_status) (\<lambda>r.
     if r AND 0xC0 \<noteq> 0x40 then kspin
     else if checkerr \<and> r AND 0x21 \<noteq> 0 then ret (- 1) else ret 0)"

text \<open>
  \<open>ideinit\<close>: \<open>probe\<close> is what the status port shows in the rounds of its detection loop.
\<close>

definition ideinit :: "u8 list \<Rightarrow> ('z disks_scheme, unit) km" where
  "ideinit probe =
     kthen (initlock IdeLock) (
     kthen (kbind (idewait False) (\<lambda>_. ret ())) (
     kwhen (list_ex (\<lambda>r. r \<noteq> 0) (take 1000 probe)) (modify (\<lambda>s. s\<lparr>havedisk1 := True\<rparr>))))"

text \<open>
  \<open>idestart\<close>: the port writes hand the controller its next command; with 512-byte sectors a
  block is one sector. The device number's low bit selects the disk.
\<close>

definition idestart :: "nat option \<Rightarrow> ('z disks_scheme, unit) km" where
  "idestart bo =
     (case bo of
        None \<Rightarrow> kpanic ''idestart''
      | Some b \<Rightarrow>
          kbind (gets (\<lambda>s. bufs s ! b)) (\<lambda>bp.
          kthen (panic_if (b_blockno bp \<ge> FSSIZE) ''incorrect blockno'') (
          kbind (idewait False) (\<lambda>_.
          let a = (b_dev bp mod 2, b_blockno bp) in
          modify (\<lambda>s. s\<lparr>ide_cmd := Some (if b_dirty bp then IdeWrite a (b_data bp)
                                        else IdeRead a)\<rparr>)))))"

text \<open>The loop of \<open>iderw\<close> that finds the end of the queue; \<open>fuel\<close> bounds its rounds.\<close>

fun queue_tail :: "nat \<Rightarrow> buf list \<Rightarrow> nat \<Rightarrow> nat option" where
  "queue_tail 0 bs b = None"
| "queue_tail (Suc fuel) bs b =
     (case b_qnext (bs ! b) of None \<Rightarrow> Some b | Some c \<Rightarrow> queue_tail fuel bs c)"

definition ide_append :: "nat \<Rightarrow> ('z disks_scheme, unit) km" where
  "ide_append b =
     kthen (modify (upd_buf b (\<lambda>x. x\<lparr>b_qnext := None\<rparr>))) (
     kbind (gets idequeue) (\<lambda>q.
     case q of
       None \<Rightarrow> modify (\<lambda>s. s\<lparr>idequeue := Some b\<rparr>)
     | Some h \<Rightarrow>
         kbind (gets (\<lambda>s. queue_tail (Suc NBUF) (bufs s) h)) (\<lambda>r.
         case r of
           None \<Rightarrow> kspin
         | Some l \<Rightarrow> modify (upd_buf l (\<lambda>x. x\<lparr>b_qnext := Some b\<rparr>)))))"

text \<open>The wait at the end of \<open>iderw\<close>: it returns once the buffer is in sync, else sleeps on it.\<close>

definition ide_wait_done :: "nat \<Rightarrow> ('z disks_scheme, unit) km" where
  "ide_wait_done b =
     kbind (gets (\<lambda>s. bufs s ! b)) (\<lambda>bp.
     if b_valid bp \<and> \<not> b_dirty bp then release IdeLock
     else sleep (Some (ChanBuf b)) (Some IdeLock))"

definition ide_iderw :: "nat \<Rightarrow> ('z disks_scheme, unit) km" where
  "ide_iderw b =
     kbind (gets (\<lambda>s. bufs s ! b)) (\<lambda>bp.
     kthen (panic_if (\<not> b_busy bp) ''iderw: buf not busy'') (
     kthen (panic_if (b_valid bp \<and> \<not> b_dirty bp) ''iderw: nothing to do'') (
     kbind (gets havedisk1) (\<lambda>d1.
     kthen (panic_if (b_dev bp \<noteq> 0 \<and> \<not> d1) ''iderw: ide disk 1 not present'') (
     kthen (acquire IdeLock) (
     kthen (ide_append b) (
     kbind (gets idequeue) (\<lambda>q.
     kthen (kwhen (q = Some b) (idestart q)) (
     ide_wait_done b)))))))))"

text \<open>
  The controller finishes its command when it raises the interrupt: a write has then reached
  the disk, and the data of a read can be fetched from the data port.
\<close>

definition ide_complete :: "'z disks_scheme \<Rightarrow> 'z disks_scheme" where
  "ide_complete s =
     (case ide_cmd s of
        Some (IdeWrite a v) \<Rightarrow> disk_write a v (s\<lparr>ide_cmd := None\<rparr>)
      | _ \<Rightarrow> s)"

definition ide_port :: "'z disks_scheme \<Rightarrow> block option" where
  "ide_port s = (case ide_cmd s of Some (IdeRead a) \<Rightarrow> Some (diskc s a) | _ \<Rightarrow> None)"

definition ideintr :: "('z disks_scheme, unit) km" where
  "ideintr =
     kthen (acquire IdeLock) (
     kbind (gets idequeue) (\<lambda>q.
     case q of
       None \<Rightarrow> release IdeLock
     | Some b \<Rightarrow>
         kthen (modify (\<lambda>s. s\<lparr>idequeue := b_qnext (bufs s ! b)\<rparr>)) (
         kbind (gets (\<lambda>s. bufs s ! b)) (\<lambda>bp.
         kthen (if b_dirty bp then ret ()
                else kbind (idewait True) (\<lambda>r.
                     kbind (gets ide_port) (\<lambda>d.
                     kwhen (r \<ge> 0 \<and> d \<noteq> None)
                       (modify (upd_buf b (\<lambda>x. x\<lparr>b_data := the d\<rparr>)))))) (
         kthen (modify (upd_buf b (\<lambda>x. x\<lparr>b_valid := True, b_dirty := False\<rparr>))) (
         kthen (wakeup (ChanBuf b)) (
         kbind (gets idequeue) (\<lambda>n.
         kthen (kwhen (n \<noteq> None) (idestart n)) (
         release IdeLock)))))))))"

section \<open>The driver interface\<close>

text \<open>
  What the buffer cache relies on: after \<open>rw b\<close> the buffer and the disk are as \<open>synced\<close> says, up to
  the queue links, which belong to the driver.
\<close>

definition unlinked :: "buf list \<Rightarrow> buf list" where
  "unlinked bs = map (\<lambda>x. x\<lparr>b_qnext := None\<rparr>) bs"

lemma unlinked_eqD:
  "x\<lparr>b_qnext := None\<rparr> = y\<lparr>b_qnext := None\<rparr> \<Longrightarrow>
     b_busy x = b_busy y \<and> b_valid x = b_valid y \<and> b_dirty x = b_dirty y \<and>
     baddr_of x = baddr_of y \<and> b_data x = b_data y"
  by (cases x; cases y) (simp add: baddr_of_def)

locale block_driver =
  fixes rw :: "nat \<Rightarrow> ('z disks_scheme, unit) km"
    and ready :: "nat \<Rightarrow> 'z disks_scheme \<Rightarrow> bool"
  assumes rw_law: "ready b s \<Longrightarrow> wp (rw b) (\<lambda>_ t. unlinked (bufs t) = unlinked (bufs (synced b s)) \<and>
      dwrites t = dwrites (synced b s) \<and> image t = image s) s"
    and ready_bound: "ready b s \<Longrightarrow> b < length (bufs s)"
begin

lemma rw_in_sync:
  assumes "ready b s" and "rw b s = Done () t"
  shows "b_valid (bufs t ! b) \<and> \<not> b_dirty (bufs t ! b) \<and>
     baddr_of (bufs t ! b) = baddr_of (bufs s ! b) \<and>
     b_data (bufs t ! b) = diskc t (baddr_of (bufs s ! b)) \<and>
     diskc t = (if b_dirty (bufs s ! b)
                then (diskc s)(baddr_of (bufs s ! b) := b_data (bufs s ! b)) else diskc s)"
proof -
  have u: "unlinked (bufs t) = unlinked (bufs (synced b s))" and w: "dwrites t = dwrites (synced b s)"
    and i: "image t = image s" using rw_law [OF assms(1)] assms(2) by (simp_all add: wp_Done)
  have len: "b < length (bufs s)" by (rule ready_bound [OF assms(1)])
  have lt: "length (bufs t) = length (bufs (synced b s))"
    using u by (metis length_map unlinked_def)
  then have "b < length (bufs t)" using len by (auto simp: synced_def Let_def)
  moreover have "unlinked (bufs t) ! b = unlinked (bufs (synced b s)) ! b" using u by simp
  ultimately have "(bufs t ! b)\<lparr>b_qnext := None\<rparr> = (bufs (synced b s) ! b)\<lparr>b_qnext := None\<rparr>"
    using lt by (simp add: unlinked_def)
  note e = unlinked_eqD [OF this]
  have "diskc t = diskc (synced b s)"
    using w i by (simp add: diskc_def synced_def Let_def upd_buf_def disk_write_def)
  then show ?thesis
    using e len by (simp add: synced_def Let_def baddr_of_def)
qed

end

interpretation memide: block_driver iderw sync_ok
  by unfold_locales (auto simp: wp_def iderw_run synced_def Let_def upd_buf_def disk_write_def
      sync_ok_def)

section \<open>The request queue\<close>

lemma unlinked_upd:
  "unlinked (xs[i := (xs ! i)\<lparr>b_qnext := q\<rparr>]) = unlinked xs"
  by (cases "i < length xs") (auto simp: unlinked_def nth_list_update intro!: nth_equalityI)

fun qchain :: "buf list \<Rightarrow> nat option \<Rightarrow> nat list \<Rightarrow> bool" where
  "qchain bs q [] = (q = None)"
| "qchain bs q (x # xs) = (q = Some x \<and> x < length bs \<and> qchain bs (b_qnext (bs ! x)) xs)"

definition ide_queue :: "'z disks_scheme \<Rightarrow> nat list \<Rightarrow> bool" where
  "ide_queue s xs \<longleftrightarrow> qchain (bufs s) (idequeue s) xs \<and> distinct xs"

lemma qchain_frame:
  "qchain bs q xs \<Longrightarrow> length bs' = length bs \<Longrightarrow>
     (\<And>x. x \<in> set xs \<Longrightarrow> b_qnext (bs' ! x) = b_qnext (bs ! x)) \<Longrightarrow> qchain bs' q xs"
  by (induction bs q xs rule: qchain.induct) auto

lemma qchain_bound: "qchain bs q xs \<Longrightarrow> x \<in> set xs \<Longrightarrow> x < length bs"
  by (induction bs q xs rule: qchain.induct) auto

lemma queue_tail_last:
  "qchain bs (Some h) xs \<Longrightarrow> length xs \<le> fuel \<Longrightarrow> queue_tail fuel bs h = Some (last xs)"
proof (induction fuel arbitrary: h xs)
  case 0
  then show ?case by (cases xs) auto
next
  case (Suc fuel)
  then obtain ys where xs: "xs = h # ys" by (cases xs) auto
  show ?case
  proof (cases "b_qnext (bs ! h)")
    case None
    then have "ys = []" using Suc.prems xs by (cases ys) auto
    then show ?thesis using None xs by simp
  next
    case (Some c)
    then have "qchain bs (Some c) ys" "ys \<noteq> []" using Suc.prems xs by auto
    then show ?thesis using Suc xs Some by simp
  qed
qed

lemma qchain_snoc:
  assumes "qchain bs q xs" and "xs \<noteq> []" and "distinct xs" and "b \<notin> set xs" and "b < length bs"
    and "b_qnext (bs ! b) = None"
  shows "qchain (bs[last xs := (bs ! last xs)\<lparr>b_qnext := Some b\<rparr>]) q (xs @ [b])"
  using assms
proof (induction xs arbitrary: q)
  case Nil
  then show ?case by simp
next
  case (Cons x xs)
  show ?case
  proof (cases "xs = []")
    case True
    then show ?thesis using Cons.prems by auto
  next
    case False
    then have "last xs \<noteq> x" using Cons.prems by auto
    then show ?thesis using Cons False by auto
  qed
qed

lemma idequeue_triv: "idequeue s = q \<Longrightarrow> s\<lparr>bufs := bs, idequeue := q\<rparr> = s\<lparr>bufs := bs\<rparr>"
  by (auto intro: disks.equality)

lemma ide_append_run:
  assumes q: "ide_queue s xs" and len: "length (bufs s) = NBUF"
    and b: "b < length (bufs s)" "b \<notin> set xs"
  shows "\<exists>bs q. ide_append b s = Done () (s\<lparr>bufs := bs, idequeue := q\<rparr>) \<and>
     ide_queue (s\<lparr>bufs := bs, idequeue := q\<rparr>) (xs @ [b]) \<and> unlinked bs = unlinked (bufs s)"
proof (cases xs)
  case Nil
  let ?bs = "(bufs s)[b := (bufs s ! b)\<lparr>b_qnext := None\<rparr>]"
  have "ide_append b s = Done () (s\<lparr>bufs := ?bs, idequeue := Some b\<rparr>)"
    using q Nil by (simp add: ide_append_def run_simps ide_queue_def upd_buf_def)
  moreover have "ide_queue (s\<lparr>bufs := ?bs, idequeue := Some b\<rparr>) (xs @ [b])"
    using Nil b by (simp add: ide_queue_def)
  moreover have "unlinked ?bs = unlinked (bufs s)" by (rule unlinked_upd)
  ultimately show ?thesis by (intro exI [of _ ?bs] exI [of _ "Some b"] conjI)
next
  case (Cons h ys)
  let ?s = "upd_buf b (\<lambda>x. x\<lparr>b_qnext := None\<rparr>) s"
  have qs: "qchain (bufs ?s) (Some h) xs"
    by (rule qchain_frame [where bs = "bufs s"])
      (use q Cons b in \<open>auto simp: ide_queue_def nth_list_update\<close>)
  have "set xs \<subseteq> {..<NBUF}"
    using q len by (auto simp: ide_queue_def dest: qchain_bound)
  then have "card (set xs) \<le> card {..<NBUF}" by (intro card_mono) auto
  then have "length xs \<le> NBUF" using q by (simp add: ide_queue_def distinct_card)
  then have tl: "queue_tail (Suc NBUF) (bufs ?s) h = Some (last xs)"
    by (intro queue_tail_last [OF qs]) simp
  let ?bs = "(bufs ?s)[last xs := (bufs ?s ! last xs)\<lparr>b_qnext := Some b\<rparr>]"
  have "qchain ?bs (Some h) (xs @ [b])"
    using qchain_snoc [OF qs, of b] q Cons b by (simp add: ide_queue_def)
  moreover have hq: "idequeue s = Some h" using q Cons by (simp add: ide_queue_def)
  ultimately have "ide_queue (s\<lparr>bufs := ?bs, idequeue := Some h\<rparr>) (xs @ [b])"
    using q b by (simp add: ide_queue_def)
  moreover have "ide_append b s = Done () (s\<lparr>bufs := ?bs, idequeue := Some h\<rparr>)"
    using tl hq by (simp add: ide_append_def run_simps upd_buf_def idequeue_triv
        del: queue_tail.simps)
  moreover have "unlinked ?bs = unlinked (bufs s)" by (simp add: unlinked_upd)
  ultimately show ?thesis by (intro exI [of _ ?bs] exI [of _ "Some h"] conjI)
qed

section \<open>An IDE request from start to interrupt\<close>

text \<open>
  One request on an idle controller: the caller of \<open>iderw\<close> goes to sleep, the scheduler of its
  CPU drops the table lock, the controller finishes and raises its interrupt.
\<close>

definition ide_round :: "nat \<Rightarrow> ('z disks_scheme, unit) km" where
  "ide_round b s =
     (case ide_iderw b s of
        Switch t \<Rightarrow> kthen (release PtableLock) (kthen (modify ide_complete) ideintr) t
      | r \<Rightarrow> r)"

definition ide_ready :: "nat \<Rightarrow> 'z disks_scheme \<Rightarrow> bool" where
  "ide_ready b s \<longleftrightarrow>
     quiet s \<and> (\<exists>i. curproc s = Some i \<and> i < length (ptable s)) \<and> length (bufs s) = NBUF \<and>
     b < length (bufs s) \<and> b_busy (bufs s ! b) \<and>
     (b_dirty (bufs s ! b) \<or> \<not> b_valid (bufs s ! b)) \<and> b_dev (bufs s ! b) = 1 \<and>
     b_blockno (bufs s ! b) < FSSIZE \<and> havedisk1 s \<and> idequeue s = None \<and>
     ide_status s AND 0xC0 = 0x40 \<and> ide_status s AND 0x21 = 0"

lemma curproc_disks [simp]:
  "curproc (bufs_update f s) = curproc s"
  "curproc (idequeue_update h s) = curproc s"
  "curproc (ide_cmd_update k s) = curproc s"
  by (simp_all add: curproc_def mycpu_def)

definition issued :: "nat \<Rightarrow> 'z disks_scheme \<Rightarrow> ide_cmd" where
  "issued b s = (let bp = bufs s ! b in
     if b_dirty bp then IdeWrite (baddr_of bp) (b_data bp) else IdeRead (baddr_of bp))"

lemma ide_iderw_run:
  assumes "ide_ready b s" and i: "curproc s = Some i" "i < length (ptable s)"
  shows "\<exists>bs. unlinked bs = unlinked (bufs s) \<and> b_qnext (bs ! b) = None \<and> length bs = NBUF \<and>
     ide_iderw b s = Switch (crit [PtableLock] (asleep i (ChanBuf b)
       (s\<lparr>bufs := bs, idequeue := Some b, ide_cmd := Some (issued b s)\<rparr>)))"
proof -
  have q: "quiet s" and iq: "idequeue s = None" and len: "length (bufs s) = NBUF" and b: "b < NBUF"
    using assms(1) by (simp_all add: ide_ready_def)
  have "ide_queue (crit [IdeLock] s) []" using iq by (simp add: ide_queue_def crit_simps)
  then obtain bs r where
    app: "ide_append b (crit [IdeLock] s) = Done () (crit [IdeLock] (s\<lparr>bufs := bs, idequeue := r\<rparr>))"
    and iq2: "ide_queue (crit [IdeLock] (s\<lparr>bufs := bs, idequeue := r\<rparr>)) [b]"
    and un: "unlinked bs = unlinked (bufs s)"
    using ide_append_run [of "crit [IdeLock] s" "[]" b] len b by (auto simp: crit_simps)
  have r: "r = Some b" and qn: "b_qnext (bs ! b) = None"
    using iq2 by (simp_all add: ide_queue_def crit_simps)
  have lb: "length bs = NBUF" using un len by (metis length_map unlinked_def)
  have "unlinked bs ! b = unlinked (bufs s) ! b" using un by simp
  then have "(bs ! b)\<lparr>b_qnext := None\<rparr> = (bufs s ! b)\<lparr>b_qnext := None\<rparr>"
    using lb len b by (simp add: unlinked_def)
  note e = unlinked_eqD [OF this]
  let ?u = "s\<lparr>bufs := bs, idequeue := Some b, ide_cmd := Some (issued b s)\<rparr>"
  have bp: "b_dev (bs ! b) = 1" "b_blockno (bs ! b) < FSSIZE"
    "b_dirty (bs ! b) \<or> \<not> b_valid (bs ! b)"
    using e assms(1) by (auto simp: ide_ready_def baddr_of_def)
  have "idestart (Some b) (crit [IdeLock] (s\<lparr>bufs := bs, idequeue := Some b\<rparr>)) = Done () (crit [IdeLock] ?u)"
    using assms(1) bp e
    by (auto simp: idestart_def idewait_def run_simps crit_simps ide_ready_def issued_def Let_def baddr_of_def)
  moreover have "ide_wait_done b (crit [IdeLock] ?u) = Switch (crit [PtableLock] (asleep i (ChanBuf b) ?u))"
    using sleep_run [of ?u i "ChanBuf b" IdeLock] q i bp
    by (auto simp: ide_wait_done_def run_simps crit_simps)
  ultimately have "ide_iderw b s = Switch (crit [PtableLock] (asleep i (ChanBuf b) ?u))"
    using assms(1) app r q
    by (auto simp: ide_iderw_def run_simps ide_ready_def acquire_quiet crit_simps)
  then show ?thesis using un qn lb by blast
qed

lemma asleep_disks [simp]:
  "bufs (asleep i ch s) = bufs s" "image (asleep i ch s) = image s"
  "dwrites (asleep i ch s) = dwrites s" "idequeue (asleep i ch s) = idequeue s"
  "ide_cmd (asleep i ch s) = ide_cmd s" "ide_status (asleep i ch s) = ide_status s"
  "diskc (asleep i ch s) = diskc s"
  by (simp_all add: asleep_def diskc_def)

lemma woken_disks [simp]:
  "bufs (woken ch s) = bufs s" "image (woken ch s) = image s"
  "dwrites (woken ch s) = dwrites s" "idequeue (woken ch s) = idequeue s"
  by (simp_all add: woken_def)

lemma ideintr_last:
  assumes "quiet u" "idequeue u = Some b" "b_qnext (bufs u ! b) = None" "b < length (bufs u)"
    and st: "ide_status u AND 0xC0 = 0x40" "ide_status u AND 0x21 = 0"
    and port: "\<not> b_dirty (bufs u ! b) \<Longrightarrow> ide_port u = Some d"
  shows "ideintr u = Done () (woken (ChanBuf b) (upd_buf b (\<lambda>x.
     if b_dirty x then x\<lparr>b_valid := True, b_dirty := False\<rparr>
     else x\<lparr>b_data := d, b_valid := True, b_dirty := False\<rparr>) (u\<lparr>idequeue := None\<rparr>)))"
proof -
  have p: "ide_port (crit [IdeLock] (u\<lparr>idequeue := None\<rparr>)) = ide_port u"
    by (simp add: ide_port_def crit_simps diskc_def cong: option.case_cong ide_cmd.case_cong)
  show ?thesis
    using assms p
    by (auto simp: ideintr_def run_simps acquire_quiet crit_simps idewait_def wakeup_run
        release_quiet upd_buf_def)
qed

lemma ide_round_run:
  assumes r: "ide_ready b s" and i: "curproc s = Some i" "i < length (ptable s)"
  shows "wp (ide_round b) (\<lambda>_ t. unlinked (bufs t) = unlinked (bufs (synced b s)) \<and>
      dwrites t = dwrites (synced b s) \<and> image t = image s \<and> quiet t \<and> idequeue t = None \<and>
      p_state (ptable t ! i) = RUNNABLE) s"
proof -
  have q: "quiet s" using r by (simp add: ide_ready_def)
  obtain bs where un: "unlinked bs = unlinked (bufs s)" and qn: "b_qnext (bs ! b) = None"
    and lb: "length bs = NBUF"
    and rw: "ide_iderw b s = Switch (crit [PtableLock] (asleep i (ChanBuf b)
       (s\<lparr>bufs := bs, idequeue := Some b, ide_cmd := Some (issued b s)\<rparr>)))"
    using ide_iderw_run [OF r i] by auto
  let ?v = "s\<lparr>bufs := bs, idequeue := Some b, ide_cmd := Some (issued b s)\<rparr>"
  let ?u = "asleep i (ChanBuf b) ?v"
  let ?w = "ide_complete ?u"
  have b: "b < NBUF" and len: "length (bufs s) = NBUF" using r by (auto simp: ide_ready_def)
  have "unlinked bs ! b = unlinked (bufs s) ! b" using un by simp
  then have "(bs ! b)\<lparr>b_qnext := None\<rparr> = (bufs s ! b)\<lparr>b_qnext := None\<rparr>"
    using lb len b by (simp add: unlinked_def)
  note e = unlinked_eqD [OF this]
  let ?F = "\<lambda>x. if b_dirty x then x\<lparr>b_valid := True, b_dirty := False\<rparr>
       else x\<lparr>b_data := diskc s (baddr_of (bufs s ! b)), b_valid := True, b_dirty := False\<rparr>"
  have "?F (bs ! b)\<lparr>b_qnext := None\<rparr> = (bufs (synced b s) ! b)\<lparr>b_qnext := None\<rparr>"
    using e b len by (auto simp: synced_def Let_def baddr_of_def intro!: buf.equality)
  then have uw: "unlinked (bs[b := ?F (bs ! b)]) = unlinked (bufs (synced b s))"
    using un b len by (simp add: unlinked_def map_update synced_def Let_def)
  have w: "bufs ?w = bs" "idequeue ?w = Some b" "quiet ?w" "ide_status ?w = ide_status s"
    "image ?w = image s" "ptable ?w = ptable ?u" using q
    by (auto simp: ide_complete_def disk_write_def asleep_def split: option.split ide_cmd.split)
  have dw: "dwrites ?w = dwrites (synced b s)"
    by (auto simp: ide_complete_def disk_write_def issued_def synced_def Let_def)
  have port: "ide_port ?w = Some (diskc s (baddr_of (bufs s ! b)))" if "\<not> b_dirty (bufs s ! b)"
    using that by (simp add: ide_port_def ide_complete_def issued_def Let_def diskc_def)
  have st: "ide_status s AND 0xC0 = 0x40" "ide_status s AND 0x21 = 0"
    using r by (simp_all add: ide_ready_def)
  have "ide_round b s = ideintr ?w"
    using q by (simp add: ide_round_def rw run_simps release_quiet)
  also have "ideintr ?w = Done () (woken (ChanBuf b) (upd_buf b ?F (?w\<lparr>idequeue := None\<rparr>)))"
    by (rule ideintr_last) (use w st port qn b lb e in auto)
  finally show ?thesis
    using w dw i uw
    by (simp add: wp_Done woken_def upd_buf_def asleep_def wake_proc_def split: if_splits)
qed

interpretation ide: block_driver ide_round ide_ready
proof unfold_locales
  fix b and s :: "'a disks_scheme"
  assume r: "ide_ready b s"
  then obtain i where "curproc s = Some i" "i < length (ptable s)" by (auto simp: ide_ready_def)
  from ide_round_run [OF r this]
  show "wp (ide_round b) (\<lambda>_ t. unlinked (bufs t) = unlinked (bufs (synced b s)) \<and>
      dwrites t = dwrites (synced b s) \<and> image t = image s) s"
    by (rule wp_mono) simp
qed (simp add: ide_ready_def)

lemma crit_issued [crit_simps]: "issued b (crit ls s) = issued b s"
  by (simp add: issued_def crit_simps)

lemma idestart_run:
  assumes "b_dev (bufs s ! c) < 2" "b_blockno (bufs s ! c) < FSSIZE" "ide_status s AND 0xC0 = 0x40"
  shows "idestart (Some c) s = Done () (s\<lparr>ide_cmd := Some (issued c s)\<rparr>)"
  using assms by (simp add: idestart_def idewait_def run_simps Let_def issued_def baddr_of_def)

lemma ideintr_next:
  assumes "quiet u" "idequeue u = Some b" "b_qnext (bufs u ! b) = Some c" "b < length (bufs u)"
    and "c \<noteq> b" "b_dev (bufs u ! c) < 2" "b_blockno (bufs u ! c) < FSSIZE"
    and st: "ide_status u AND 0xC0 = 0x40"
  shows "\<exists>f. ideintr u = Done () ((woken (ChanBuf b) (upd_buf b f
     (u\<lparr>idequeue := Some c\<rparr>)))\<lparr>ide_cmd := Some (issued c u)\<rparr>) \<and>
     f (bufs u ! b) = (bufs u ! b)\<lparr>b_data := b_data (f (bufs u ! b)), b_valid := True, b_dirty := False\<rparr>"
proof -
  define u1 where "u1 = u\<lparr>idequeue := Some c\<rparr>"
  define w :: "buf \<Rightarrow> buf" where "w = (\<lambda>x. if \<not> b_dirty x \<and> ide_status u AND 0x21 = 0 \<and> ide_port u \<noteq> None
     then x\<lparr>b_data := the (ide_port u)\<rparr> else x)"
  define f where "f x = (w x)\<lparr>b_valid := True, b_dirty := False\<rparr>" for x
  define v where "v = woken (ChanBuf b) (upd_buf b f u1)"
  have p: "ide_port (crit [IdeLock] u1) = ide_port u" "bufs u1 = bufs u" "ide_status u1 = ide_status u"
    by (simp_all add: u1_def ide_port_def crit_simps diskc_def cong: option.case_cong ide_cmd.case_cong)
  have "quiet v" "ide_status v = ide_status u" "bufs v ! c = bufs u ! c" "idequeue v = Some c"
    using assms by (simp_all add: v_def woken_def upd_buf_def u1_def)
  then have start: "idestart (Some c) (crit [IdeLock] v) = Done () (crit [IdeLock] (v\<lparr>ide_cmd := Some (issued c u)\<rparr>))"
    and qv: "quiet v" and iv: "idequeue v = Some c"
    using idestart_run [of "crit [IdeLock] v" c] assms(6,7) st
    by (simp_all add: crit_simps issued_def)
  have upd: "upd_buf b (\<lambda>x. x\<lparr>b_valid := True, b_dirty := False\<rparr>)
       (if \<not> b_dirty (bufs u ! b) \<and> ide_status u AND 0x21 = 0 \<and> ide_port u \<noteq> None
        then upd_buf b (\<lambda>x. x\<lparr>b_data := the (ide_port u)\<rparr>) u1 else u1) = upd_buf b f u1"
    using assms(4) p by (auto simp: upd_buf_def f_def w_def)
  have wk: "wakeup (ChanBuf b) (crit [IdeLock] (upd_buf b f u1)) = Done () (crit [IdeLock] v)"
    using wakeup_run [of "upd_buf b f u1" "[IdeLock]"] assms(1) by (simp add: v_def u1_def)
  have "ideintr u = Done () (v\<lparr>ide_cmd := Some (issued c u)\<rparr>)"
  proof (cases "\<not> b_dirty (bufs u ! b) \<and> ide_status u AND 0x21 = 0 \<and> ide_port u \<noteq> None")
    case True
    then show ?thesis
      using assms p upd wk start qv iv
      by (auto simp: ideintr_def run_simps acquire_quiet crit_simps idewait_def release_quiet
          u1_def [symmetric])
  next
    case False
    then show ?thesis
      using assms p upd wk start qv iv
      by (auto simp: ideintr_def run_simps acquire_quiet crit_simps idewait_def release_quiet
          u1_def [symmetric])
  qed
  then show ?thesis
    by (intro exI [of _ f]) (simp add: v_def u1_def f_def w_def)
qed

section \<open>The properties of the drivers\<close>

definition zero_buf :: buf where
  "zero_buf = \<lparr>b_busy = False, b_valid = False, b_dirty = False, b_dev = 0, b_blockno = 0,
     b_qnext = None, b_data = []\<rparr>"

text \<open>Two buffers in use, with requests for blocks 7 and 9 of disk 1, and an idle controller.\<close>

definition small_disk :: disks where
  "small_disk =
     kmems.extend small_kmem
       \<lparr>bufs = zero_buf\<lparr>b_busy := True, b_dirty := True, b_dev := 1, b_blockno := 7, b_data := [1]\<rparr>
          # zero_buf\<lparr>b_busy := True, b_dev := 1, b_blockno := 9\<rparr> # replicate 28 zero_buf,
        image = (\<lambda>_. [0]), dwrites = [], disksize = 1000, idequeue = None, havedisk1 = True,
        ide_status = 0x40, ide_cmd = None\<rparr>"

lemma quiet_small_disk: "quiet small_disk"
  using kalloc_small_ops(1)
  by (simp add: small_disk_def kmems.defs quiet_def mycpu_def)

lemma small_disk_ready:
  "ide_ready 0 small_disk" "curproc small_disk = Some 1" "length (ptable small_disk) = 2"
  "disksize small_disk = FSSIZE"
  using quiet_small_disk
  by (simp_all add: ide_ready_def small_disk_def kmems.defs small_kmem_def procs.defs small_procs_def
      curproc_def mycpu_def NBUF_def FSSIZE_def)



text \<open>
  C16 (functional). Requests are served in the order they arrive. A new request goes behind all
  queued ones; the interrupt that ends the request at the head marks its buffer valid and
  clean, wakes the processes that sleep on it, leaves every other buffer alone, and
  hands the controller the next request of the queue.
\<close>

theorem ide_requests_fifo:
  assumes q: "ide_queue s (b # c # xs)" and len: "length (bufs s) = NBUF" and s: "quiet s"
    and st: "ide_status s AND 0xC0 = 0x40"
    and c: "b_dev (bufs s ! c) < 2" "b_blockno (bufs s ! c) < FSSIZE"
    and d: "d < NBUF" "d \<notin> set (b # c # xs)"
  shows "(\<exists>t. ide_append d s = Done () t \<and> ide_queue t (b # c # xs @ [d])) \<and>
     (\<exists>t. ideintr s = Done () t \<and> ide_queue t (c # xs) \<and> ide_cmd t = Some (issued c s) \<and>
       b_valid (bufs t ! b) \<and> \<not> b_dirty (bufs t ! b) \<and> (\<forall>y. y \<noteq> b \<longrightarrow> bufs t ! y = bufs s ! y) \<and>
       ptable t = map (wake_proc (Some (ChanBuf b))) (ptable s) \<and> quiet t)"
proof
  show "\<exists>t. ide_append d s = Done () t \<and> ide_queue t (b # c # xs @ [d])"
    using ide_append_run [OF q len, of d] d len by auto
next
  have qc: "idequeue s = Some b" "b_qnext (bufs s ! b) = Some c" "b < length (bufs s)" "c \<noteq> b"
    "qchain (bufs s) (Some c) (c # xs)" "distinct (b # c # xs)"
    using q by (auto simp: ide_queue_def)
  obtain f where
    run: "ideintr s = Done () ((woken (ChanBuf b) (upd_buf b f
       (s\<lparr>idequeue := Some c\<rparr>)))\<lparr>ide_cmd := Some (issued c s)\<rparr>)" (is "_ = Done () ?t")
    and f: "f (bufs s ! b) = (bufs s ! b)\<lparr>b_data := b_data (f (bufs s ! b)), b_valid := True, b_dirty := False\<rparr>"
    using ideintr_next [OF s qc(1-4) c st] by auto
  have bt: "bufs ?t = (bufs s)[b := f (bufs s ! b)]" "idequeue ?t = Some c" by (simp_all add: woken_def upd_buf_def)
  have "b_valid (f (bufs s ! b))" "\<not> b_dirty (f (bufs s ! b))"
    by (subst f, simp)+
  moreover have nb: "b \<noteq> x" if "x \<in> set (c # xs)" for x using that qc(6) by auto
  have "qchain (bufs ?t) (Some c) (c # xs)"
    by (rule qchain_frame [OF qc(5)]) (use bt nb in simp_all)
  ultimately show "\<exists>t. ideintr s = Done () t \<and> ide_queue t (c # xs) \<and> ide_cmd t = Some (issued c s) \<and>
       b_valid (bufs t ! b) \<and> \<not> b_dirty (bufs t ! b) \<and> (\<forall>y. y \<noteq> b \<longrightarrow> bufs t ! y = bufs s ! y) \<and>
       ptable t = map (wake_proc (Some (ChanBuf b))) (ptable s) \<and> quiet t"
    using run qc s bt by (intro exI [of _ ?t]) (simp add: ide_queue_def woken_def upd_buf_def)
qed

theorem ide_requests_fifo_witness:
  "\<exists>(s :: disks) t. ide_queue s [0, 1] \<and> ideintr s = Done () t \<and> ide_queue t [1] \<and>
     ide_cmd t = Some (IdeRead (1, 9))"
proof -
  let ?s = "(upd_buf 0 (\<lambda>x. x\<lparr>b_qnext := Some 1\<rparr>) small_disk)\<lparr>idequeue := Some 0\<rparr>"
  have qs: "quiet ?s" using quiet_small_disk by simp
  have q: "ide_queue ?s [0, 1]" and o: "length (bufs ?s) = NBUF" "ide_status ?s AND 0xC0 = 0x40"
      "b_dev (bufs ?s ! 1) < 2" "b_blockno (bufs ?s ! 1) < FSSIZE" "2 < NBUF" "issued 1 ?s = IdeRead (1, 9)"
    by (simp_all add: ide_queue_def small_disk_def kmems.defs NBUF_def upd_buf_def zero_buf_def
        FSSIZE_def issued_def baddr_of_def)
  obtain t where "ideintr ?s = Done () t" "ide_queue t [1]" "ide_cmd t = Some (issued 1 ?s)"
    using ide_requests_fifo [OF q o(1) qs o(2-5)] by auto
  then show ?thesis
    using q o(6) by (intro exI [of _ ?s] exI [of _ t]) simp
qed

end
