(* ===== verification/Bio.thy ===== *)
theory Bio
  imports Disk
begin

text \<open>
  The buffer cache of \<open>src/bio.c\<close>: the doubly linked list of all buffers in the order of their
  last use, the search for a block and for a buffer to recycle, and the operations \<open>bread\<close>,
  \<open>bwrite\<close> and \<open>brelse\<close> the file system calls. The disk below it is the in-memory one.
\<close>

section \<open>Operations\<close>

record caches = disks +
  bnext :: "nat \<Rightarrow> nat"
  bprev :: "nat \<Rightarrow> nat"

text \<open>
  Buffers are named by their index in \<open>bcache.buf\<close>; the list head \<open>bcache.head\<close> is the index
  after the last buffer. A device number of -1, as a \<open>uint\<close>, marks a buffer never used.
\<close>

definition bhead :: nat where "bhead = NBUF"
definition NODEV :: nat where "NODEV = 4294967295"

definition binsert :: "nat \<Rightarrow> 'z caches_scheme \<Rightarrow> 'z caches_scheme" where
  "binsert b s =
     (let nx = (bnext s)(b := bnext s bhead);
          pv = (bprev s)(b := bhead);
          pv = pv(nx bhead := b);
          nx = nx(bhead := b)
      in s\<lparr>bnext := nx, bprev := pv\<rparr>)"

definition bunlink :: "nat \<Rightarrow> 'z caches_scheme \<Rightarrow> 'z caches_scheme" where
  "bunlink b s =
     (let pv = (bprev s)(bnext s b := bprev s b);
          nx = (bnext s)(pv b := bnext s b)
      in s\<lparr>bnext := nx, bprev := pv\<rparr>)"

definition binit :: "('z caches_scheme, unit) km" where
  "binit =
     kthen (initlock BcacheLock) (
     kthen (modify (\<lambda>s. s\<lparr>bprev := (bprev s)(bhead := bhead), bnext := (bnext s)(bhead := bhead)\<rparr>)) (
     kfor [0..<NBUF] (\<lambda>b.
       kthen (modify (upd_buf b (\<lambda>x. x\<lparr>b_dev := NODEV\<rparr>))) (modify (binsert b)))))"

text \<open>
  A walk along the list from buffer \<open>b\<close> to the head: the first buffer that satisfies \<open>P\<close>, or that
  there is none, or that the walk has not come back to the head within its fuel.
\<close>

fun scan :: "nat \<Rightarrow> (nat \<Rightarrow> nat) \<Rightarrow> (nat \<Rightarrow> bool) \<Rightarrow> nat \<Rightarrow> nat option option" where
  "scan 0 nx P b = None"
| "scan (Suc fuel) nx P b =
     (if b = bhead then Some None else if P b then Some (Some b) else scan fuel nx P (nx b))"

definition bget_recycle :: "nat \<Rightarrow> nat \<Rightarrow> ('z caches_scheme, nat) km" where
  "bget_recycle dev blockno =
     kbind (gets (\<lambda>s. scan (Suc NBUF) (bprev s)
       (\<lambda>b. \<not> b_busy (bufs s ! b) \<and> \<not> b_dirty (bufs s ! b)) (bprev s bhead))) (\<lambda>r.
     case r of
       None \<Rightarrow> kspin
     | Some None \<Rightarrow> kpanic ''bget: no buffers''
     | Some (Some b) \<Rightarrow>
         kthen (modify (upd_buf b (\<lambda>x. x\<lparr>b_dev := dev, b_blockno := blockno,
           b_busy := True, b_valid := False, b_dirty := False\<rparr>))) (
         kthen (release BcacheLock) (
         ret b)))"

definition bget_loop :: "nat \<Rightarrow> nat \<Rightarrow> ('z caches_scheme, nat) km" where
  "bget_loop dev blockno =
     kbind (gets (\<lambda>s. scan (Suc NBUF) (bnext s)
       (\<lambda>b. b_dev (bufs s ! b) = dev \<and> b_blockno (bufs s ! b) = blockno) (bnext s bhead))) (\<lambda>r.
     case r of
       None \<Rightarrow> kspin
     | Some None \<Rightarrow> bget_recycle dev blockno
     | Some (Some b) \<Rightarrow>
         kbind (gets (\<lambda>s. b_busy (bufs s ! b))) (\<lambda>busy.
         if \<not> busy
         then kthen (modify (upd_buf b (\<lambda>x. x\<lparr>b_busy := True\<rparr>))) (
              kthen (release BcacheLock) (
              ret b))
         else sleep (Some (ChanBuf b)) (Some BcacheLock)))"

definition bget :: "nat \<Rightarrow> nat \<Rightarrow> ('z caches_scheme, nat) km" where
  "bget dev blockno = kthen (acquire BcacheLock) (bget_loop dev blockno)"

text \<open>A sleeper of \<open>bget\<close> that runs again starts over (\<open>goto loop\<close>).\<close>

definition bget_resume :: "bool \<Rightarrow> nat \<Rightarrow> nat \<Rightarrow> ('z caches_scheme, nat) km" where
  "bget_resume ie dev blockno =
     kthen (sleep_resume ie BcacheLock) (bget_loop dev blockno)"

definition bread :: "nat \<Rightarrow> nat \<Rightarrow> ('z caches_scheme, nat) km" where
  "bread dev blockno =
     kbind (bget dev blockno) (\<lambda>b.
     kbind (gets (\<lambda>s. b_valid (bufs s ! b))) (\<lambda>v.
     kthen (kwhen (\<not> v) (iderw b)) (
     ret b)))"

definition bwrite :: "nat \<Rightarrow> ('z caches_scheme, unit) km" where
  "bwrite b =
     kbind (gets (\<lambda>s. b_busy (bufs s ! b))) (\<lambda>busy.
     kthen (panic_if (\<not> busy) ''bwrite'') (
     kthen (modify (upd_buf b (\<lambda>x. x\<lparr>b_dirty := True\<rparr>))) (
     iderw b)))"

definition brelse :: "nat \<Rightarrow> ('z caches_scheme, unit) km" where
  "brelse b =
     kbind (gets (\<lambda>s. b_busy (bufs s ! b))) (\<lambda>busy.
     kthen (panic_if (\<not> busy) ''brelse'') (
     kthen (acquire BcacheLock) (
     kthen (modify (bunlink b)) (
     kthen (modify (binsert b)) (
     kthen (modify (upd_buf b (\<lambda>x. x\<lparr>b_busy := False\<rparr>))) (
     kthen (wakeup (ChanBuf b)) (
     release BcacheLock)))))))"

section \<open>The list of buffers\<close>

fun linked :: "(nat \<Rightarrow> nat) \<Rightarrow> (nat \<Rightarrow> nat) \<Rightarrow> nat list \<Rightarrow> bool" where
  "linked nx pv (a # b # xs) = (nx a = b \<and> pv b = a \<and> linked nx pv (b # xs))"
| "linked nx pv _ = True"

text \<open>The list through the head holds the buffers \<open>xs\<close>, most recently used first.\<close>

definition mru :: "'z caches_scheme \<Rightarrow> nat list \<Rightarrow> bool" where
  "mru s xs \<longleftrightarrow> linked (bnext s) (bprev s) (bhead # xs @ [bhead]) \<and> distinct (bhead # xs)"

lemma linked_append:
  "linked nx pv (xs @ a # ys) \<longleftrightarrow> linked nx pv (xs @ [a]) \<and> linked nx pv (a # ys)"
  by (induction xs rule: induct_list012) auto

lemma linked_frame:
  "linked nx pv xs \<Longrightarrow> (\<And>x. x \<in> set (butlast xs) \<Longrightarrow> nx' x = nx x) \<Longrightarrow>
     (\<And>x. x \<in> set (tl xs) \<Longrightarrow> pv' x = pv x) \<Longrightarrow> linked nx' pv' xs"
  by (induction nx pv xs rule: linked.induct) auto

lemma linked_rev: "linked nx pv xs \<Longrightarrow> linked pv nx (rev xs)"
  by (induction nx pv xs rule: linked.induct) (auto simp: linked_append [of _ _ _ _ "[_]"])

lemma scan_find:
  "linked nx pv (a # xs @ [bhead]) \<Longrightarrow> bhead \<notin> set xs \<Longrightarrow> length xs < fuel \<Longrightarrow>
     scan fuel nx P (nx a) = Some (find P xs)"
proof (induction xs arbitrary: a fuel)
  case Nil
  then show ?case by (cases fuel) auto
next
  case (Cons x xs)
  then show ?case by (cases fuel) auto
qed

lemma mru_scan_next:
  "mru s xs \<Longrightarrow> length xs < fuel \<Longrightarrow> scan fuel (bnext s) P (bnext s bhead) = Some (find P xs)"
  unfolding mru_def by (rule scan_find) auto

lemma mru_scan_prev:
  "mru s xs \<Longrightarrow> length xs < fuel \<Longrightarrow> scan fuel (bprev s) P (bprev s bhead) = Some (find P (rev xs))"
proof -
  assume m: "mru s xs" and f: "length xs < fuel"
  have "linked (bprev s) (bnext s) (rev (bhead # xs @ [bhead]))"
    by (rule linked_rev) (use m in \<open>simp add: mru_def\<close>)
  then show ?thesis
    by (intro scan_find) (use m f in \<open>auto simp: mru_def\<close>)
qed

lemma mru_binsert:
  assumes "mru s xs" and "b \<notin> set xs" and "b \<noteq> bhead"
  shows "mru (binsert b s) (b # xs)"
proof -
  have l: "linked (bnext s) (bprev s) (bhead # xs @ [bhead])" and d: "distinct (bhead # xs)"
    using assms(1) by (simp_all add: mru_def)
  show ?thesis
  proof (cases xs)
    case Nil
    then show ?thesis using l assms by (simp add: mru_def binsert_def Let_def)
  next
    case (Cons y ys)
    have "linked (bnext (binsert b s)) (bprev (binsert b s)) (y # ys @ [bhead])"
      by (rule linked_frame [of "bnext s" "bprev s"])
        (use l d assms Cons in \<open>auto simp: binsert_def Let_def butlast_append\<close>)
    then show ?thesis
      using l d assms Cons by (simp add: mru_def) (simp add: binsert_def Let_def)
  qed
qed

lemma linked_unlink:
  assumes l: "linked nx pv (p @ a # b # c # q)"
    and d: "a \<notin> set p" "c \<notin> set (tl (p @ [a]))" "a \<notin> set (butlast (c # q))" "c \<notin> set q"
  shows "linked (nx(a := c)) (pv(c := a)) (p @ a # c # q)"
proof -
  have "linked nx pv (p @ [a])" and cq: "linked nx pv (c # q)"
    using l linked_append [of nx pv p a "b # c # q"] by auto
  then have "linked (nx(a := c)) (pv(c := a)) (p @ [a])"
    by (elim linked_frame) (use d in auto)
  moreover have "linked (nx(a := c)) (pv(c := a)) (c # q)"
    by (rule linked_frame [OF cq]) (use d in auto)
  ultimately show ?thesis
    by (subst linked_append) simp
qed

lemma mru_bunlink:
  assumes "mru s (xs @ b # ys)"
  shows "mru (bunlink b s) (xs @ ys)"
proof -
  obtain p a where pa: "bhead # xs = p @ [a]" by (metis list.discI rev_exhaust)
  obtain c q where cq: "ys @ [bhead] = c # q" by (cases "ys @ [bhead]") auto
  have e: "bhead # (xs @ b # ys) @ [bhead] = p @ a # b # c # q"
    using pa cq by (metis append.assoc append_Cons append_Nil)
  have d: "distinct (bhead # xs @ b # ys)" and
    l: "linked (bnext s) (bprev s) (p @ a # b # c # q)"
    using assms e unfolding mru_def by (simp_all only:)
  have bn: "bnext s b = c" "bprev s b = a" "bprev s c = b" "bnext s a = b"
    using l linked_append [of "bnext s" "bprev s" p a "b # c # q"] by auto
  have ys: "butlast (c # q) = ys" using cq by (metis butlast_snoc)
  have xs: "tl (p @ [a]) = xs" using pa by (metis list.sel(3))
  have "a \<in> set (bhead # xs)" and "c \<in> set (ys @ [bhead])" using pa cq by auto
  moreover have "distinct (p @ [a])" using d by (simp only: pa [symmetric]) simp
  moreover have "distinct (c # q)" using d by (simp only: cq [symmetric]) auto
  ultimately have "linked ((bnext s)(a := c)) ((bprev s)(c := a)) (p @ a # c # q)" and cb: "c \<noteq> b"
    by - (rule linked_unlink [OF l], use d xs ys in auto)
  moreover have "bhead # (xs @ ys) @ [bhead] = p @ a # c # q"
    using pa cq by (metis append.assoc append_Cons append_Nil)
  ultimately show ?thesis
    using d bn unfolding mru_def bunlink_def Let_def by auto
qed

lemma mru_touch:
  assumes "mru s xs" and "b \<in> set xs"
  shows "mru (binsert b (bunlink b s)) (b # remove1 b xs)"
proof -
  obtain ys zs where xs: "xs = ys @ b # zs" "b \<notin> set ys"
    using split_list_first [OF assms(2)] by auto
  have "mru (bunlink b s) (ys @ zs)" using mru_bunlink assms(1) xs(1) by blast
  moreover have "b \<notin> set (ys @ zs)" "b \<noteq> bhead" using assms(1) xs by (auto simp: mru_def)
  ultimately have "mru (binsert b (bunlink b s)) (b # ys @ zs)" by (rule mru_binsert)
  then show ?thesis using xs by (simp add: remove1_append)
qed

section \<open>The abstract cache\<close>

text \<open>
  What a client sees of the cache: the contents of every block (the cached copy if there is a
  valid one, else the disk), the buffers it holds with the block each one carries, and the blocks whose
  cached copy is newer than the disk's.
\<close>

definition bview :: "'z disks_scheme \<Rightarrow> baddr \<Rightarrow> block" where
  "bview s a =
     (case find (\<lambda>x. b_valid x \<and> baddr_of x = a) (bufs s) of
        Some x \<Rightarrow> b_data x
      | None \<Rightarrow> diskc s a)"

definition bheld :: "'z disks_scheme \<Rightarrow> nat \<Rightarrow> baddr option" where
  "bheld s b = (if b < length (bufs s) \<and> b_busy (bufs s ! b) then Some (baddr_of (bufs s ! b)) else None)"

definition bdirty :: "'z disks_scheme \<Rightarrow> baddr set" where
  "bdirty s = baddr_of ` {x \<in> set (bufs s). b_dirty x}"

text \<open>The invariant of the cache between the operations of its clients.\<close>

definition bufs_ok :: "'z disks_scheme \<Rightarrow> bool" where
  "bufs_ok s \<longleftrightarrow> length (bufs s) = NBUF \<and>
     (\<forall>b < NBUF. \<forall>c < NBUF. baddr_of (bufs s ! b) = baddr_of (bufs s ! c) \<longrightarrow>
        b_dev (bufs s ! b) \<noteq> NODEV \<longrightarrow> b = c) \<and>
     (\<forall>b < NBUF. b_valid (bufs s ! b) \<longrightarrow> b_dev (bufs s ! b) = 1 \<and>
        b_blockno (bufs s ! b) < disksize s \<and> length (b_data (bufs s ! b)) = BSIZE) \<and>
     (\<forall>b < NBUF. b_busy (bufs s ! b) \<or> b_dirty (bufs s ! b) \<longrightarrow> b_valid (bufs s ! b)) \<and>
     (\<forall>b < NBUF. b_valid (bufs s ! b) \<and> \<not> b_busy (bufs s ! b) \<and> \<not> b_dirty (bufs s ! b) \<longrightarrow>
        b_data (bufs s ! b) = diskc s (baddr_of (bufs s ! b))) \<and>
     (\<forall>a. length (diskc s a) = BSIZE)"

definition cache_inv :: "'z caches_scheme \<Rightarrow> bool" where
  "cache_inv s \<longleftrightarrow> quiet s \<and> bufs_ok s \<and> (\<exists>xs. mru s xs \<and> set xs = {..<NBUF})"

lemma bufs_okD:
  assumes "bufs_ok s"
  shows "length (bufs s) = NBUF"
    and "b < NBUF \<Longrightarrow> c < NBUF \<Longrightarrow> baddr_of (bufs s ! b) = baddr_of (bufs s ! c) \<Longrightarrow>
      b_dev (bufs s ! b) \<noteq> NODEV \<Longrightarrow> b = c"
    and "b < NBUF \<Longrightarrow> b_valid (bufs s ! b) \<Longrightarrow> b_dev (bufs s ! b) = 1"
    and "b < NBUF \<Longrightarrow> b_valid (bufs s ! b) \<Longrightarrow> b_blockno (bufs s ! b) < disksize s"
    and "b < NBUF \<Longrightarrow> b_valid (bufs s ! b) \<Longrightarrow> length (b_data (bufs s ! b)) = BSIZE"
    and "b < NBUF \<Longrightarrow> b_busy (bufs s ! b) \<Longrightarrow> b_valid (bufs s ! b)"
    and "b < NBUF \<Longrightarrow> b_dirty (bufs s ! b) \<Longrightarrow> b_valid (bufs s ! b)"
    and "b < NBUF \<Longrightarrow> b_valid (bufs s ! b) \<Longrightarrow> \<not> b_busy (bufs s ! b) \<Longrightarrow> \<not> b_dirty (bufs s ! b) \<Longrightarrow>
      b_data (bufs s ! b) = diskc s (baddr_of (bufs s ! b))"
    and "length (diskc s a) = BSIZE"
  using assms unfolding bufs_ok_def by blast+

lemma NODEV_not_1 [simp]: "NODEV \<noteq> Suc 0" "Suc 0 \<noteq> NODEV" by (simp_all add: NODEV_def)

lemma find_nth:
  assumes "i < length xs" "P (xs ! i)" "\<And>j. j < length xs \<Longrightarrow> P (xs ! j) \<Longrightarrow> j = i"
  shows "find P xs = Some (xs ! i)"
proof -
  have "find P xs \<noteq> None" using assms(1,2) nth_mem [of i xs] by (metis find_None_iff)
  then obtain y where y: "find P xs = Some y" by auto
  then obtain j where "j < length xs" "P (xs ! j)" "y = xs ! j" by (auto simp: find_Some_iff)
  then show ?thesis using y assms(3) by auto
qed

lemma bview_cached:
  assumes ok: "bufs_ok s" and b: "b < NBUF" "b_valid (bufs s ! b)"
  shows "bview s (baddr_of (bufs s ! b)) = b_data (bufs s ! b)"
proof -
  have "find (\<lambda>x. b_valid x \<and> baddr_of x = baddr_of (bufs s ! b)) (bufs s) = Some (bufs s ! b)"
  proof (rule find_nth)
    show "j = b" if "j < length (bufs s)"
      "b_valid (bufs s ! j) \<and> baddr_of (bufs s ! j) = baddr_of (bufs s ! b)" for j
      using bufs_okD(1,3) [OF ok] bufs_okD(2) [OF ok, of j b] that b by auto
  qed (use b bufs_okD(1) [OF ok] in auto)
  then show ?thesis by (simp add: bview_def)
qed

lemma bview_disk:
  "(\<And>x. x \<in> set (bufs s) \<Longrightarrow> b_valid x \<Longrightarrow> baddr_of x \<noteq> a) \<Longrightarrow> bview s a = diskc s a"
proof -
  assume "\<And>x. x \<in> set (bufs s) \<Longrightarrow> b_valid x \<Longrightarrow> baddr_of x \<noteq> a"
  then have "find (\<lambda>x. b_valid x \<and> baddr_of x = a) (bufs s) = None"
    by (auto simp: find_None_iff)
  then show ?thesis by (simp add: bview_def)
qed

lemma bview_eqI:
  assumes ok: "bufs_ok t"
    and c: "\<And>b. b < NBUF \<Longrightarrow> b_valid (bufs t ! b) \<Longrightarrow> b_data (bufs t ! b) = V (baddr_of (bufs t ! b))"
    and d: "\<And>a. (\<And>b. b < NBUF \<Longrightarrow> b_valid (bufs t ! b) \<Longrightarrow> baddr_of (bufs t ! b) \<noteq> a) \<Longrightarrow> diskc t a = V a"
  shows "bview t = V"
proof
  fix a
  show "bview t a = V a"
  proof (cases "\<exists>b < NBUF. b_valid (bufs t ! b) \<and> baddr_of (bufs t ! b) = a")
    case True
    then show ?thesis using bview_cached [OF ok] c by metis
  next
    case False
    have "bview t a = diskc t a"
      by (rule bview_disk) (use False bufs_okD(1) [OF ok] in \<open>auto simp: in_set_conv_nth\<close>)
    then show ?thesis using False d by auto
  qed
qed

lemma bview_length [simp]: "bufs_ok s \<Longrightarrow> length (bview s a) = BSIZE"
  by (cases "\<exists>b < NBUF. b_valid (bufs s ! b) \<and> baddr_of (bufs s ! b) = a")
    (metis bview_cached bufs_okD(5),
     metis bview_disk bufs_okD(1,9) in_set_conv_nth)

lemma bdirty_iff:
  "bufs_ok s \<Longrightarrow> a \<in> bdirty s \<longleftrightarrow> (\<exists>b < NBUF. b_dirty (bufs s ! b) \<and> baddr_of (bufs s ! b) = a)"
  unfolding bdirty_def by (auto simp: in_set_conv_nth bufs_okD(1))

section \<open>What the operations do\<close>

declare scan.simps [simp del]

lemma crit_caches [crit_simps]:
  "bnext (crit ls s) = bnext s" "bprev (crit ls s) = bprev s"
  "bnext_update f (crit ls s) = crit ls (bnext_update f s)"
  "bprev_update g (crit ls s) = crit ls (bprev_update g s)"
  by (simp_all add: crit_def mycpu_def)

lemma quiet_caches [simp]:
  "quiet (bnext_update f s) = quiet s" "quiet (bprev_update g s) = quiet s"
  by (simp_all add: quiet_def mycpu_def)

lemma crit_caches_ops [crit_simps]:
  "binsert b (crit ls s) = crit ls (binsert b s)" "bunlink b (crit ls s) = crit ls (bunlink b s)"
  by (simp_all add: binsert_def bunlink_def Let_def crit_simps)

lemma quiet_caches_ops [simp]: "quiet (binsert b s) = quiet s" "quiet (bunlink b s) = quiet s"
  by (simp_all add: binsert_def bunlink_def Let_def)

lemma caches_ops_bufs [simp]:
  "bufs (binsert b s) = bufs s" "bufs (bunlink b s) = bufs s"
  by (simp_all add: binsert_def bunlink_def Let_def)

text \<open>The buffers no block may displace: those in use and those newer than the disk.\<close>

definition pins :: "'z disks_scheme \<Rightarrow> baddr set" where
  "pins s = bdirty s \<union> ran (bheld s)"

lemma free_buffer:
  assumes ok: "bufs_ok s" and c: "card (pins s) < NBUF"
  shows "\<exists>b < NBUF. \<not> b_busy (bufs s ! b) \<and> \<not> b_dirty (bufs s ! b)"
proof (rule ccontr)
  assume "\<not> ?thesis"
  then have all: "b_busy (bufs s ! b) \<or> b_dirty (bufs s ! b)" if "b < NBUF" for b using that by auto
  have inj: "inj_on (\<lambda>b. baddr_of (bufs s ! b)) {..<NBUF}"
  proof (rule inj_onI)
    fix b c assume "b \<in> {..<NBUF}" "c \<in> {..<NBUF}" "baddr_of (bufs s ! b) = baddr_of (bufs s ! c)"
    then show "b = c"
      using bufs_okD(2) [OF ok, of b c] bufs_okD(3,6,7) [OF ok, of b] all [of b] by auto
  qed
  have sub: "(\<lambda>b. baddr_of (bufs s ! b)) ` {..<NBUF} \<subseteq> pins s"
  proof
    fix a assume "a \<in> (\<lambda>b. baddr_of (bufs s ! b)) ` {..<NBUF}"
    then obtain b where b: "b < NBUF" "a = baddr_of (bufs s ! b)" by auto
    from all [OF b(1)] show "a \<in> pins s"
    proof
      assume "b_busy (bufs s ! b)"
      then have "bheld s b = Some a" using b bufs_okD(1) [OF ok] by (simp add: bheld_def)
      then show ?thesis by (auto simp: pins_def ran_def)
    next
      assume "b_dirty (bufs s ! b)"
      then show ?thesis using b bdirty_iff [OF ok] by (auto simp: pins_def)
    qed
  qed
  have "ran (bheld s) \<subseteq> baddr_of ` set (bufs s)"
    by (auto simp: ran_def bheld_def split: if_splits) (metis image_eqI nth_mem)
  then have "finite (pins s)" by (auto simp: pins_def bdirty_def intro: finite_subset)
  from card_mono [OF this sub] have "NBUF \<le> card (pins s)" using inj by (simp add: card_image)
  then show False using c by simp
qed

lemma find_SomeD: "find P xs = Some x \<Longrightarrow> x \<in> set xs \<and> P x"
  by (auto simp: find_Some_iff)

lemma upd_buf_cong: "f (bufs s ! b) = g (bufs s ! b) \<Longrightarrow> upd_buf b f s = upd_buf b g s"
  by (simp add: upd_buf_def)

text \<open>The state after block \<open>n\<close> has been read into buffer \<open>b\<close>.\<close>

definition fetched :: "nat \<Rightarrow> nat \<Rightarrow> 'z disks_scheme \<Rightarrow> 'z disks_scheme" where
  "fetched b n s = upd_buf b (\<lambda>x. x\<lparr>b_busy := True, b_valid := True,
     b_dirty := (b_dirty x \<and> baddr_of x = (1, n)), b_dev := 1, b_blockno := n,
     b_data := bview s (1, n)\<rparr>) s"

definition fetchable :: "nat \<Rightarrow> nat \<Rightarrow> 'z disks_scheme \<Rightarrow> bool" where
  "fetchable b n s \<longleftrightarrow> b < NBUF \<and> \<not> b_busy (bufs s ! b) \<and>
     (\<forall>c < NBUF. baddr_of (bufs s ! c) = (1, n) \<longrightarrow> c = b) \<and>
     (baddr_of (bufs s ! b) = (1, n) \<or> \<not> b_dirty (bufs s ! b))"

definition cached :: "nat \<Rightarrow> 'z disks_scheme \<Rightarrow> bool" where
  "cached n s \<longleftrightarrow> (\<exists>b < NBUF. baddr_of (bufs s ! b) = (1, n))"

lemma bread_run:
  assumes inv: "cache_inv s" and n: "n < disksize s" "(1, n) \<notin> ran (bheld s)"
    and room: "cached n s \<or> (\<exists>b < NBUF. \<not> b_busy (bufs s ! b) \<and> \<not> b_dirty (bufs s ! b))"
  shows "\<exists>b. bread 1 n s = Done b (fetched b n s) \<and> fetchable b n s"
proof -
  have q: "quiet s" and ok: "bufs_ok s" using inv by (auto simp: cache_inv_def)
  obtain xs where m: "mru s xs" and xs: "set xs = {..<NBUF}" using inv by (auto simp: cache_inv_def)
  have len: "length xs < Suc NBUF"
    using distinct_card [of xs] m xs by (simp add: mru_def)
  let ?P = "\<lambda>b. b_dev (bufs s ! b) = 1 \<and> b_blockno (bufs s ! b) = n"
  have Pa: "?P b \<longleftrightarrow> baddr_of (bufs s ! b) = (1, n)" for b by (auto simp: baddr_of_def)
  have nb: "\<not> b_busy (bufs s ! b)" if "b < NBUF" "?P b" for b
    using n(2) that bufs_okD(1) [OF ok] unfolding Pa by (auto simp: ran_def bheld_def) metis
  note sc = mru_scan_next [OF m len, of ?P] mru_scan_prev [OF m len]
  show ?thesis
  proof (cases "find ?P xs")
    case (Some b)
    then have b: "b < NBUF" "?P b" using xs find_SomeD [OF Some] by auto
    then have nbb: "\<not> b_busy (bufs s ! b)" by (rule nb)
    have uniq: "c = b" if "c < NBUF" "baddr_of (bufs s ! c) = (1, n)" for c
      using bufs_okD(2) [OF ok, of c b] that b unfolding Pa by (auto simp: baddr_of_def)
    have bv: "bview s (1, n) = (if b_valid (bufs s ! b) then b_data (bufs s ! b) else diskc s (1, n))"
    proof (cases "b_valid (bufs s ! b)")
      case True
      then show ?thesis using bview_cached [OF ok b(1)] b(2) unfolding Pa by simp
    next
      case False
      have "bview s (1, n) = diskc s (1, n)"
        by (rule bview_disk) (use uniq False bufs_okD(1) [OF ok] in \<open>auto simp: in_set_conv_nth\<close>)
      then show ?thesis using False by simp
    qed
    have get: "bget 1 n s = Done b (upd_buf b (\<lambda>x. x\<lparr>b_busy := True\<rparr>) s)"
      using q sc(1) Some nbb
      by (simp add: bget_def bget_loop_def run_simps acquire_quiet crit_simps release_quiet)
    let ?t = "upd_buf b (\<lambda>x. x\<lparr>b_busy := True\<rparr>) s"
    have "bread 1 n s = Done b (fetched b n s)"
    proof (cases "b_valid (bufs s ! b)")
      case True
      then show ?thesis
        using get b bufs_okD(1) [OF ok] bv
        by (auto simp: bread_def run_simps fetched_def upd_buf_def baddr_of_def
            intro!: caches.equality arg_cong2 [where f = "list_update _"])
    next
      case False
      then have nd: "\<not> b_dirty (bufs s ! b)" using bufs_okD(7) [OF ok b(1)] by auto
      have "fetched b n s =
          upd_buf b (\<lambda>x. x\<lparr>b_busy := True, b_data := diskc s (1, n), b_valid := True\<rparr>) s"
        unfolding fetched_def
        by (rule upd_buf_cong, rule buf.equality) (use nd False b bv in \<open>auto simp: baddr_of_def\<close>)
      then have "iderw b ?t = Done () (fetched b n s)"
        using nd False b n bufs_okD(1) [OF ok]
        by (simp add: iderw_run sync_ok_def upd_buf_def synced_def Let_def baddr_of_def diskc_def)
      then show ?thesis
        using get False b bufs_okD(1) [OF ok] by (simp add: bread_def run_simps)
    qed
    then show ?thesis
      using b nbb uniq unfolding fetchable_def Pa by blast
  next
    case None
    then have no: "baddr_of (bufs s ! c) \<noteq> (1, n)" if "c < NBUF" for c
      using that xs unfolding Pa find_None_iff by auto
    then have "\<exists>b < NBUF. \<not> b_busy (bufs s ! b) \<and> \<not> b_dirty (bufs s ! b)"
      using room by (auto simp: cached_def)
    then obtain b where f: "find (\<lambda>b. \<not> b_busy (bufs s ! b) \<and> \<not> b_dirty (bufs s ! b)) (rev xs) = Some b"
      using xs by (cases "find (\<lambda>b. \<not> b_busy (bufs s ! b) \<and> \<not> b_dirty (bufs s ! b)) (rev xs)")
        (auto simp: find_None_iff)
    then have b: "b < NBUF" "\<not> b_busy (bufs s ! b)" "\<not> b_dirty (bufs s ! b)"
      using xs find_SomeD [OF f] by auto
    let ?t = "upd_buf b (\<lambda>x. x\<lparr>b_dev := 1, b_blockno := n, b_busy := True, b_valid := False, b_dirty := False\<rparr>) s"
    have get: "bget 1 n s = Done b ?t"
      using q sc(1) sc(2) None f
      by (simp add: bget_def bget_loop_def bget_recycle_def run_simps acquire_quiet crit_simps release_quiet)
    have bv: "bview s (1, n) = diskc s (1, n)"
      by (rule bview_disk) (use no bufs_okD(1) [OF ok] in \<open>auto simp: in_set_conv_nth\<close>)
    have "fetched b n s = upd_buf b (\<lambda>x. x\<lparr>b_dev := 1, b_blockno := n, b_busy := True, b_dirty := False,
        b_data := diskc s (1, n), b_valid := True\<rparr>) s"
      unfolding fetched_def by (rule upd_buf_cong, rule buf.equality) (use bv no b in \<open>auto simp: baddr_of_def\<close>)
    then have "iderw b ?t = Done () (fetched b n s)"
      using b n bufs_okD(1) [OF ok]
      by (simp add: iderw_run sync_ok_def upd_buf_def synced_def Let_def baddr_of_def diskc_def)
    then have "bread 1 n s = Done b (fetched b n s)"
      using get b bufs_okD(1) [OF ok] by (simp add: bread_def run_simps)
    then show ?thesis using b no by (auto simp: fetchable_def)
  qed
qed

section \<open>Changing one buffer\<close>

lemma disksize_upd_buf [simp]: "disksize (upd_buf b f s) = disksize s"
  by (simp add: upd_buf_def)

text \<open>Buffer \<open>b\<close> may become \<open>x\<close>: a valid copy of a block no other buffer carries.\<close>

definition admits :: "'z disks_scheme \<Rightarrow> nat \<Rightarrow> buf \<Rightarrow> bool" where
  "admits s b x \<longleftrightarrow> bufs_ok s \<and> b < NBUF \<and> b_valid x \<and> b_dev x = 1 \<and> b_blockno x < disksize s \<and>
     length (b_data x) = BSIZE \<and> (\<forall>c < NBUF. baddr_of (bufs s ! c) = baddr_of x \<longrightarrow> c = b)"

lemma admitsD:
  assumes "admits s b x"
  shows "bufs_ok s" "b < NBUF" "b_valid x" "b_dev x = 1" "b_blockno x < disksize s"
    "length (b_data x) = BSIZE"
    "c < NBUF \<Longrightarrow> c \<noteq> b \<Longrightarrow> baddr_of (bufs s ! c) \<noteq> baddr_of x"
  using assms unfolding admits_def by blast+

lemma nth_upd_buf:
  "bufs_ok s \<Longrightarrow> c < NBUF \<Longrightarrow> bufs (upd_buf b f s) ! c = (if c = b then f (bufs s ! b) else bufs s ! c)"
  by (auto simp: nth_list_update bufs_okD(1))

lemma bufs_ok_upd:
  assumes a: "admits s b (f (bufs s ! b))"
    and clean: "\<not> b_busy (f (bufs s ! b)) \<Longrightarrow> \<not> b_dirty (f (bufs s ! b)) \<Longrightarrow>
      b_data (f (bufs s ! b)) = diskc s (baddr_of (f (bufs s ! b)))"
  shows "bufs_ok (upd_buf b f s)"
proof -
  note ok = admitsD(1) [OF a] and d = admitsD(2-7) [OF a]
  note n = nth_upd_buf [OF ok]
  have "\<forall>c < NBUF. \<forall>e < NBUF. baddr_of (bufs (upd_buf b f s) ! c) = baddr_of (bufs (upd_buf b f s) ! e) \<longrightarrow>
      b_dev (bufs (upd_buf b f s) ! c) \<noteq> NODEV \<longrightarrow> c = e"
  proof (intro allI impI)
    fix c e assume "c < NBUF" "e < NBUF"
      "baddr_of (bufs (upd_buf b f s) ! c) = baddr_of (bufs (upd_buf b f s) ! e)"
      "b_dev (bufs (upd_buf b f s) ! c) \<noteq> NODEV"
    then show "c = e"
      using d(6) [of c] d(6) [of e] bufs_okD(2) [OF ok, of c e]
      by (cases "c = b"; cases "e = b") (auto simp add: n simp del: bufs_upd_buf)
  qed
  moreover have "length (bufs (upd_buf b f s)) = NBUF" using bufs_okD(1) [OF ok] by simp
  moreover have "\<forall>c < NBUF. b_valid (bufs (upd_buf b f s) ! c) \<longrightarrow> b_dev (bufs (upd_buf b f s) ! c) = 1 \<and>
      b_blockno (bufs (upd_buf b f s) ! c) < disksize (upd_buf b f s) \<and>
      length (b_data (bufs (upd_buf b f s) ! c)) = BSIZE"
    using d bufs_okD(3-5) [OF ok] by (simp add: n del: bufs_upd_buf)
  moreover have "\<forall>c < NBUF. b_busy (bufs (upd_buf b f s) ! c) \<or> b_dirty (bufs (upd_buf b f s) ! c) \<longrightarrow>
      b_valid (bufs (upd_buf b f s) ! c)"
    using d bufs_okD(6,7) [OF ok] by (simp add: n del: bufs_upd_buf)
  moreover have "\<forall>c < NBUF. b_valid (bufs (upd_buf b f s) ! c) \<and> \<not> b_busy (bufs (upd_buf b f s) ! c) \<and>
      \<not> b_dirty (bufs (upd_buf b f s) ! c) \<longrightarrow>
      b_data (bufs (upd_buf b f s) ! c) = diskc (upd_buf b f s) (baddr_of (bufs (upd_buf b f s) ! c))"
    using d clean bufs_okD(8) [OF ok] by (simp add: n del: bufs_upd_buf)
  ultimately show ?thesis
    using bufs_okD(9) [OF ok] unfolding bufs_ok_def by simp
qed

lemma bview_upd:
  assumes a: "admits s b (f (bufs s ! b))" and ok': "bufs_ok (upd_buf b f s)"
    and lost: "b_valid (bufs s ! b) \<Longrightarrow> baddr_of (bufs s ! b) \<noteq> baddr_of (f (bufs s ! b)) \<Longrightarrow>
      b_data (bufs s ! b) = diskc s (baddr_of (bufs s ! b))"
  shows "bview (upd_buf b f s) = (bview s)(baddr_of (f (bufs s ! b)) := b_data (f (bufs s ! b)))"
proof (rule bview_eqI [OF ok'])
  note ok = admitsD(1) [OF a] and d = admitsD(2-7) [OF a]
  note n = nth_upd_buf [OF ok]
  show "b_data (bufs (upd_buf b f s) ! c) =
      ((bview s)(baddr_of (f (bufs s ! b)) := b_data (f (bufs s ! b)))) (baddr_of (bufs (upd_buf b f s) ! c))"
    if "c < NBUF" "b_valid (bufs (upd_buf b f s) ! c)" for c
    using that bview_cached [OF ok, of c] d(6) [of c] by (auto simp add: n simp del: bufs_upd_buf)
  show "diskc (upd_buf b f s) a = ((bview s)(baddr_of (f (bufs s ! b)) := b_data (f (bufs s ! b)))) a"
    if no: "\<And>c. c < NBUF \<Longrightarrow> b_valid (bufs (upd_buf b f s) ! c) \<Longrightarrow> baddr_of (bufs (upd_buf b f s) ! c) \<noteq> a" for a
  proof -
    have ne: "a \<noteq> baddr_of (f (bufs s ! b))" using no [of b] d(1,2) n [of b] by auto
    have "bview s a = diskc s a"
    proof (cases "b_valid (bufs s ! b) \<and> baddr_of (bufs s ! b) = a")
      case True
      then show ?thesis using lost ne bview_cached [OF ok d(1)] by auto
    next
      case False
      have other: "baddr_of (bufs s ! c) \<noteq> a" if "c < NBUF" "b_valid (bufs s ! c)" for c
        using no [of c] n [of c] that False by (cases "c = b") auto
      show ?thesis
        by (rule bview_disk) (use other bufs_okD(1) [OF ok] in \<open>auto simp: in_set_conv_nth\<close>)
    qed
    then show ?thesis using ne by simp
  qed
qed

lemma bheld_upd:
  "bufs_ok s \<Longrightarrow> b < NBUF \<Longrightarrow> bheld (upd_buf b f s) =
     (bheld s)(b := if b_busy (f (bufs s ! b)) then Some (baddr_of (f (bufs s ! b))) else None)"
  by (auto simp: fun_eq_iff bheld_def bufs_okD(1) nth_list_update)

lemma bdirty_upd:
  assumes a: "admits s b (f (bufs s ! b))" and ok': "bufs_ok (upd_buf b f s)"
  shows "bdirty (upd_buf b f s) =
    (if b_dirty (f (bufs s ! b)) then insert (baddr_of (f (bufs s ! b))) else id) (bdirty s - {baddr_of (bufs s ! b)})"
proof -
  note ok = admitsD(1) [OF a] and d = admitsD(2-7) [OF a]
  note n = nth_upd_buf [OF ok]
  have u: "c = b" if "c < NBUF" "b_dirty (bufs s ! c)" "baddr_of (bufs s ! c) = baddr_of (bufs s ! b)" for c
    using bufs_okD(2) [OF ok that(1) d(1) that(3)] bufs_okD(3) [OF ok that(1)] bufs_okD(7) [OF ok that(1,2)] by auto
  show ?thesis
  proof (rule set_eqI)
    fix e
    show "e \<in> bdirty (upd_buf b f s) \<longleftrightarrow> e \<in> (if b_dirty (f (bufs s ! b))
        then insert (baddr_of (f (bufs s ! b))) else id) (bdirty s - {baddr_of (bufs s ! b)})"
    proof
      assume "e \<in> bdirty (upd_buf b f s)"
      then obtain c where c: "c < NBUF" "b_dirty (bufs (upd_buf b f s) ! c)" "baddr_of (bufs (upd_buf b f s) ! c) = e"
        unfolding bdirty_iff [OF ok'] by auto
      then show "e \<in> (if b_dirty (f (bufs s ! b))
          then insert (baddr_of (f (bufs s ! b))) else id) (bdirty s - {baddr_of (bufs s ! b)})"
        using n [OF c(1)] bdirty_iff [OF ok, of e] u [of c] by (cases "c = b") (auto simp del: bufs_upd_buf)
    next
      assume e: "e \<in> (if b_dirty (f (bufs s ! b))
          then insert (baddr_of (f (bufs s ! b))) else id) (bdirty s - {baddr_of (bufs s ! b)})"
      show "e \<in> bdirty (upd_buf b f s)"
      proof (cases "b_dirty (f (bufs s ! b)) \<and> e = baddr_of (f (bufs s ! b))")
        case True
        then show ?thesis using n [OF d(1)] d(1) unfolding bdirty_iff [OF ok'] by (auto simp del: bufs_upd_buf)
      next
        case False
        then obtain c where c: "c < NBUF" "b_dirty (bufs s ! c)" "baddr_of (bufs s ! c) = e" "c \<noteq> b"
          using e bdirty_iff [OF ok, of e] by (auto split: if_splits)
        then show ?thesis using n [OF c(1)] unfolding bdirty_iff [OF ok'] by (auto simp del: bufs_upd_buf)
      qed
    qed
  qed
qed

section \<open>The operations on the abstract cache\<close>

text \<open>
  The cache changes its own fields, appends to the writes of the disk and may make sleepers
  runnable; it changes nothing else of the kernel's state.
\<close>

definition stirred :: "proc \<Rightarrow> proc \<Rightarrow> bool" where
  "stirred p q \<longleftrightarrow> q = p \<or> p_state p = SLEEPING \<and> q = p\<lparr>p_state := RUNNABLE\<rparr>"

definition cframe :: "'z caches_scheme \<Rightarrow> 'z caches_scheme \<Rightarrow> bool" where
  "cframe s t \<longleftrightarrow> (\<exists>pt bs dw nx pv.
     t = s\<lparr>ptable := pt, bufs := bs, dwrites := dw, bnext := nx, bprev := pv\<rparr> \<and>
     list_all2 stirred (ptable s) pt)"

lemma stirred_refl [simp]: "stirred p p"
  by (simp add: stirred_def)

lemma stirred_trans: "stirred p q \<Longrightarrow> stirred q r \<Longrightarrow> stirred p r"
  by (auto simp: stirred_def)

lemma cframe_refl [simp]: "cframe s s"
  by (auto simp: cframe_def intro!: exI list.rel_refl)
     (rule caches.equality; simp)

lemma cframe_trans: "cframe s t \<Longrightarrow> cframe t u \<Longrightarrow> cframe s u"
proof -
  assume "cframe s t" "cframe t u"
  then obtain pt bs dw nx pv pt' bs' dw' nx' pv' where
    t: "t = s\<lparr>ptable := pt, bufs := bs, dwrites := dw, bnext := nx, bprev := pv\<rparr>"
      "list_all2 stirred (ptable s) pt" and
    u: "u = t\<lparr>ptable := pt', bufs := bs', dwrites := dw', bnext := nx', bprev := pv'\<rparr>"
      "list_all2 stirred (ptable t) pt'"
    unfolding cframe_def by blast
  have "list_all2 stirred (ptable s) pt'"
    using t u list_all2_trans [of stirred stirred stirred, OF stirred_trans] by simp
  then show ?thesis
    unfolding cframe_def
    by (intro exI [of _ pt'] exI [of _ bs'] exI [of _ dw'] exI [of _ nx'] exI [of _ pv'])
      (simp add: t(1) u(1))
qed

lemma cframe_same:
  "cframe s t \<Longrightarrow> disksize t = disksize s \<and> image t = image s \<and> curproc t = curproc s \<and>
     length (ptable t) = length (ptable s)"
  by (auto simp: cframe_def curproc_def mycpu_def dest: list_all2_lengthD)

lemma cframe_diskc: "cframe s t \<Longrightarrow> dwrites t = dwrites s @ ws \<Longrightarrow> diskc t = apply_writes ws (diskc s)"
  using cframe_same [of s t] by (simp add: diskc_def)

lemma cframe_upd_buf [simp]: "cframe s (upd_buf b f s)"
  unfolding cframe_def upd_buf_def
  by (intro exI [of _ "ptable s"] exI [of _ "(bufs s)[b := f (bufs s ! b)]"] exI [of _ "dwrites s"]
      exI [of _ "bnext s"] exI [of _ "bprev s"]) (auto intro!: caches.equality list.rel_refl)

lemma cache_inv_upd:
  "cache_inv s \<Longrightarrow> bufs_ok (upd_buf b f s) \<Longrightarrow> cache_inv (upd_buf b f s)"
  by (auto simp: cache_inv_def mru_def upd_buf_def)

lemma bheld_Some:
  "bufs_ok s \<Longrightarrow> bheld s b = Some a \<longleftrightarrow> b < NBUF \<and> b_busy (bufs s ! b) \<and> baddr_of (bufs s ! b) = a"
  by (auto simp: bheld_def bufs_okD(1))

lemma admits_held:
  assumes ok: "bufs_ok s" and b: "bheld s b = Some a"
    and x: "baddr_of x = a" "b_valid x" "length (b_data x) = BSIZE"
  shows "admits s b x"
proof -
  note h = b [unfolded bheld_Some [OF ok]]
  have v: "b_valid (bufs s ! b)" using h bufs_okD(6) [OF ok] by auto
  have d: "b_dev (bufs s ! b) = 1" "b_blockno (bufs s ! b) < disksize s"
    using bufs_okD(3,4) [OF ok _ v] h by auto
  have "c = b" if "c < NBUF" "baddr_of (bufs s ! c) = baddr_of x" for c
    using bufs_okD(2) [OF ok _ _ sym, of b c] that h x d by (metis NODEV_not_1(2) One_nat_def)
  moreover have "b_dev x = 1" "b_blockno x < disksize s"
    using h x d by (auto simp: baddr_of_def)
  ultimately show ?thesis
    using ok h x unfolding admits_def by blast
qed

lemma room_cached:
  assumes ok: "bufs_ok s" and "(1, n) \<in> bdirty s \<or> card (pins s) < NBUF"
  shows "cached n s \<or> (\<exists>b < NBUF. \<not> b_busy (bufs s ! b) \<and> \<not> b_dirty (bufs s ! b))"
  using assms(2) free_buffer [OF ok] bdirty_iff [OF ok] unfolding cached_def by blast

lemma bread_wp:
  assumes inv: "cache_inv s" and n: "n < disksize s" "(1, n) \<notin> ran (bheld s)"
    and room: "cached n s \<or> (\<exists>b < NBUF. \<not> b_busy (bufs s ! b) \<and> \<not> b_dirty (bufs s ! b))"
  shows "wp (bread 1 n) (\<lambda>b t. cache_inv t \<and> bheld s b = None \<and> bheld t = (bheld s)(b \<mapsto> (1, n)) \<and>
     bview t = bview s \<and> bdirty t = bdirty s \<and> dwrites t = dwrites s \<and> diskc t = diskc s \<and> cframe s t) s"
proof -
  have ok: "bufs_ok s" using inv by (simp add: cache_inv_def)
  obtain b where run: "bread 1 n s = Done b (fetched b n s)" and fe: "fetchable b n s"
    using bread_run [OF inv n room] by blast
  have b: "b < NBUF" "\<not> b_busy (bufs s ! b)" 
    and fd: "baddr_of (bufs s ! b) = (1, n) \<or> \<not> b_dirty (bufs s ! b)"
    and u: "\<And>c. c < NBUF \<Longrightarrow> baddr_of (bufs s ! c) = (1, n) \<Longrightarrow> c = b"
    using fe unfolding fetchable_def by blast+
  define f where "f x = x\<lparr>b_busy := True, b_valid := True, b_dirty := (b_dirty x \<and> baddr_of x = (1, n)),
     b_dev := 1, b_blockno := n, b_data := bview s (1, n)\<rparr>" for x :: buf
  have t: "fetched b n s = upd_buf b f s" by (simp add: fetched_def f_def upd_buf_def)
  have fa: "baddr_of (f (bufs s ! b)) = (1, n)" by (simp add: baddr_of_def f_def)
  have fs [simp]: "b_busy (f x)" "b_valid (f x)" "b_dirty (f x) = (b_dirty x \<and> baddr_of x = (1, n))"
    "b_dev (f x) = 1" "b_blockno (f x) = n" "b_data (f x) = bview s (1, n)" for x
    by (simp_all add: f_def)
  have a: "admits s b (f (bufs s ! b))"
    unfolding admits_def fa fs(4-6) using ok b(1) u n(1) bview_length [OF ok] fs(2) by blast
  have ok': "bufs_ok (upd_buf b f s)" by (rule bufs_ok_upd [of s b f, OF a]) simp
  have "bview (upd_buf b f s) = (bview s)((1, n) := bview s (1, n))"
    using bview_upd [of s b f, OF a ok'] bufs_okD(8) [OF ok b(1)] b(2) fd
    by (auto simp: fa simp del: bufs_upd_buf)
  moreover have "bdirty (upd_buf b f s) = bdirty s"
  proof -
    have "baddr_of (bufs s ! b) \<notin> bdirty s" if "\<not> b_dirty (bufs s ! b)"
      using that bufs_okD(2,3,7) [OF ok] b(1) unfolding bdirty_iff [OF ok] by (metis NODEV_not_1(2) One_nat_def)
    moreover have "baddr_of (bufs s ! b) \<in> bdirty s" if "b_dirty (bufs s ! b)"
      using that b(1) unfolding bdirty_iff [OF ok] by blast
    ultimately show ?thesis
      using bdirty_upd [of s b f, OF a ok'] fa fd by (auto simp del: bufs_upd_buf)
  qed
  moreover have "bheld (upd_buf b f s) = (bheld s)(b \<mapsto> (1, n))"
    using bheld_upd [OF ok b(1), of f] fa by simp
  moreover have "bheld s b = None" using b by (simp add: bheld_def)
  ultimately show ?thesis
    using cache_inv_upd [OF inv ok'] by (simp add: wp_def run [unfolded One_nat_def] t)
qed

text \<open>What the client does to a buffer it holds: it stores into its data.\<close>

definition bstore :: "nat \<Rightarrow> (block \<Rightarrow> block) \<Rightarrow> 'z disks_scheme \<Rightarrow> 'z disks_scheme" where
  "bstore b f = upd_buf b (\<lambda>x. x\<lparr>b_data := f (b_data x)\<rparr>)"

definition bdata :: "nat \<Rightarrow> 'z disks_scheme \<Rightarrow> block" where
  "bdata b s = b_data (bufs s ! b)"

lemma held_valid: "bufs_ok s \<Longrightarrow> bheld s b = Some a \<Longrightarrow>
   b < NBUF \<and> b_busy (bufs s ! b) \<and> b_valid (bufs s ! b) \<and> baddr_of (bufs s ! b) = a \<and>
   b_data (bufs s ! b) = bview s a"
  using bufs_okD(6) [of s b] bview_cached [of s b] by (auto simp: bheld_Some)

lemma held_dirty: "bufs_ok s \<Longrightarrow> bheld s b = Some a \<Longrightarrow> a \<in> bdirty s \<longleftrightarrow> b_dirty (bufs s ! b)"
  using bufs_okD(2,3,7) [of s] unfolding bheld_Some bdirty_iff by (metis NODEV_not_1(2) One_nat_def)

lemma bdata_held: "cache_inv s \<Longrightarrow> bheld s b = Some a \<Longrightarrow> bdata b s = bview s a"
  using held_valid [of s b a] by (simp add: bdata_def cache_inv_def)

lemma held_upd:
  assumes inv: "cache_inv s" and h: "bheld s b = Some a"
    and f: "b_busy (f (bufs s ! b))" "b_valid (f (bufs s ! b))" "baddr_of (f (bufs s ! b)) = a"
      "length (b_data (f (bufs s ! b))) = BSIZE"
  shows "cache_inv (upd_buf b f s)" "bheld (upd_buf b f s) = bheld s"
    "bview (upd_buf b f s) = (bview s)(a := b_data (f (bufs s ! b)))"
    "bdirty (upd_buf b f s) = (if b_dirty (f (bufs s ! b)) then insert a (bdirty s) else bdirty s - {a})"
proof -
  have ok: "bufs_ok s" using inv by (simp add: cache_inv_def)
  note v = held_valid [OF ok h]
  have a: "admits s b (f (bufs s ! b))" by (rule admits_held [OF ok h f(3,2,4)])
  have ok': "bufs_ok (upd_buf b f s)" by (rule bufs_ok_upd [of s b f, OF a]) (use f in simp)
  show "cache_inv (upd_buf b f s)" by (rule cache_inv_upd [OF inv ok'])
  show "bheld (upd_buf b f s) = bheld s"
    using bheld_upd [OF ok, of b f] v f h by (auto simp: fun_eq_iff)
  show "bview (upd_buf b f s) = (bview s)(a := b_data (f (bufs s ! b)))"
    using bview_upd [of s b f, OF a ok'] v f by simp
  show "bdirty (upd_buf b f s) = (if b_dirty (f (bufs s ! b)) then insert a (bdirty s) else bdirty s - {a})"
    using bdirty_upd [of s b f, OF a ok'] v f by auto
qed

lemma bstore_spec:
  assumes inv: "cache_inv s" and h: "bheld s b = Some a" and l: "length (f (bview s a)) = BSIZE"
  shows "cache_inv (bstore b f s) \<and> bheld (bstore b f s) = bheld s \<and>
     bview (bstore b f s) = (bview s)(a := f (bview s a)) \<and> bdirty (bstore b f s) = bdirty s \<and>
     dwrites (bstore b f s) = dwrites s \<and> diskc (bstore b f s) = diskc s \<and> cframe s (bstore b f s)"
proof -
  have ok: "bufs_ok s" using inv by (simp add: cache_inv_def)
  note v = held_valid [OF ok h] and d = held_dirty [OF ok h]
  define g where "g x = x\<lparr>b_data := f (b_data x)\<rparr>" for x :: buf
  have g: "b_busy (g (bufs s ! b))" "b_valid (g (bufs s ! b))" "baddr_of (g (bufs s ! b)) = a"
    "b_data (g (bufs s ! b)) = f (bview s a)" "b_dirty (g (bufs s ! b)) = b_dirty (bufs s ! b)"
    using v by (auto simp: g_def baddr_of_def)
  have e: "bstore b f s = upd_buf b g s" by (simp add: bstore_def g_def upd_buf_def)
  show ?thesis
    using held_upd [of s b a g, OF inv h g(1-3)] g(4,5) l d by (auto simp: e)
qed

text \<open>Marking a held buffer dirty, as \<open>log_write\<close> does, keeps it in the cache.\<close>

lemma bpin_spec:
  assumes inv: "cache_inv s" and h: "bheld s b = Some a"
  shows "cache_inv (upd_buf b (\<lambda>x. x\<lparr>b_dirty := True\<rparr>) s) \<and>
     bheld (upd_buf b (\<lambda>x. x\<lparr>b_dirty := True\<rparr>) s) = bheld s \<and>
     bview (upd_buf b (\<lambda>x. x\<lparr>b_dirty := True\<rparr>) s) = bview s \<and>
     bdirty (upd_buf b (\<lambda>x. x\<lparr>b_dirty := True\<rparr>) s) = insert a (bdirty s)"
proof -
  have ok: "bufs_ok s" using inv by (simp add: cache_inv_def)
  note v = held_valid [OF ok h]
  define g where "g x = x\<lparr>b_dirty := True\<rparr>" for x :: buf
  have g: "b_busy (g (bufs s ! b))" "b_valid (g (bufs s ! b))" "baddr_of (g (bufs s ! b)) = a"
    "b_data (g (bufs s ! b)) = bview s a" "b_dirty (g (bufs s ! b))"
    using v by (auto simp: g_def baddr_of_def)
  have e: "upd_buf b (\<lambda>x. x\<lparr>b_dirty := True\<rparr>) s = upd_buf b g s" by (simp add: g_def upd_buf_def)
  show ?thesis
    using held_upd [of s b a g, OF inv h g(1-3)] g(4,5) bview_length [OF ok] by (auto simp: e)
qed

lemma cache_inv_clean:
  assumes "cache_inv s" "a \<notin> ran (bheld s)" "a \<notin> bdirty s"
  shows "bview s a = diskc s a"
proof (cases "\<exists>b < NBUF. b_valid (bufs s ! b) \<and> baddr_of (bufs s ! b) = a")
  case True
  have ok: "bufs_ok s" using assms(1) by (simp add: cache_inv_def)
  obtain b where b: "b < NBUF" "b_valid (bufs s ! b)" "baddr_of (bufs s ! b) = a" using True by auto
  have "\<not> b_busy (bufs s ! b)" using assms(2) b bheld_Some [OF ok, of b a] by (auto simp: ran_def)
  moreover have "\<not> b_dirty (bufs s ! b)" using assms(3) b bdirty_iff [OF ok] by blast
  ultimately show ?thesis using bufs_okD(8) [OF ok b(1,2)] bview_cached [OF ok b(1,2)] b(3) by simp
next
  case False
  have ok: "bufs_ok s" using assms(1) by (simp add: cache_inv_def)
  show ?thesis
    by (rule bview_disk) (use False bufs_okD(1) [OF ok] in \<open>auto simp: in_set_conv_nth\<close>)
qed

lemma cframe_disk_write [simp]: "cframe s (disk_write a v s)"
  unfolding cframe_def disk_write_def
  by (intro exI [of _ "ptable s"] exI [of _ "bufs s"] exI [of _ "dwrites s @ [(a, v)]"]
      exI [of _ "bnext s"] exI [of _ "bprev s"]) (auto intro!: caches.equality list.rel_refl)

lemma disk_write_held:
  assumes inv: "cache_inv s" and h: "bheld s b = Some a" and l: "length v = BSIZE"
  shows "cache_inv (disk_write a v s) \<and> bview (disk_write a v s) = bview s \<and>
     bheld (disk_write a v s) = bheld s \<and> bdirty (disk_write a v s) = bdirty s"
proof -
  have ok: "bufs_ok s" using inv by (simp add: cache_inv_def)
  note hv = held_valid [OF ok h]
  have other: "baddr_of (bufs s ! c) \<noteq> a" if "c < NBUF" "b_valid (bufs s ! c)" "\<not> b_busy (bufs s ! c)" for c
    using bufs_okD(2) [OF ok that(1), of b] bufs_okD(3) [OF ok that(1,2)] hv that(3) by auto
  have ds: "disksize (disk_write a v s) = disksize s" by (simp add: disk_write_def)
  have ok': "bufs_ok (disk_write a v s)"
    using ok other l unfolding bufs_ok_def by (simp add: ds)
  have "bview (disk_write a v s) = bview s"
  proof (rule bview_eqI [OF ok'])
    show "b_data (bufs (disk_write a v s) ! c) = bview s (baddr_of (bufs (disk_write a v s) ! c))"
      if "c < NBUF" "b_valid (bufs (disk_write a v s) ! c)" for c
      using that bview_cached [OF ok] by simp
    show "diskc (disk_write a v s) e = bview s e"
      if no: "\<And>c. c < NBUF \<Longrightarrow> b_valid (bufs (disk_write a v s) ! c) \<Longrightarrow>
        baddr_of (bufs (disk_write a v s) ! c) \<noteq> e" for e
    proof -
      have "e \<noteq> a" using no [of b] hv by auto
      moreover have "bview s e = diskc s e"
        by (rule bview_disk) (use no bufs_okD(1) [OF ok] in \<open>auto simp: in_set_conv_nth\<close>)
      ultimately show ?thesis by simp
    qed
  qed
  moreover have "cache_inv (disk_write a v s)"
    using inv ok' by (simp add: cache_inv_def mru_def) (simp add: disk_write_def)
  ultimately show ?thesis by (simp add: fun_eq_iff bheld_def bdirty_def)
qed

lemma bwrite_wp:
  assumes inv: "cache_inv s" and h: "bheld s b = Some a"
  shows "wp (bwrite b) (\<lambda>_ t. cache_inv t \<and> bheld t = bheld s \<and> bview t = bview s \<and>
     bdirty t = bdirty s - {a} \<and> dwrites t = dwrites s @ [(a, bview s a)] \<and>
     diskc t = (diskc s)(a := bview s a) \<and> cframe s t) s"
proof -
  have ok: "bufs_ok s" using inv by (simp add: cache_inv_def)
  note v = held_valid [OF ok h] and len = bufs_okD(1) [OF ok]
  have dv: "b_dev (bufs s ! b) = 1" "b_blockno (bufs s ! b) < disksize s"
    using bufs_okD(3,4) [OF ok] v by auto
  define g where "g x = x\<lparr>b_dirty := False\<rparr>" for x :: buf
  have g: "b_busy (g (bufs s ! b))" "b_valid (g (bufs s ! b))" "baddr_of (g (bufs s ! b)) = a"
    "b_data (g (bufs s ! b)) = bview s a" "\<not> b_dirty (g (bufs s ! b))"
    using v by (auto simp: g_def baddr_of_def)
  let ?t = "disk_write a (bview s a) (upd_buf b g s)"
  have u: "cache_inv (upd_buf b g s)" "bheld (upd_buf b g s) = bheld s" "bview (upd_buf b g s) = bview s"
    "bdirty (upd_buf b g s) = bdirty s - {a}"
    using held_upd [of s b a g, OF inv h g(1-3)] g(4,5) bview_length [OF ok] by auto
  have "upd_buf b (\<lambda>x. x\<lparr>b_dirty := False, b_valid := True\<rparr>) (upd_buf b (\<lambda>x. x\<lparr>b_dirty := True\<rparr>) s) = upd_buf b g s"
    using v len by (auto simp: upd_buf_def g_def intro!: arg_cong2 [where f = "\<lambda>x y. s\<lparr>bufs := (bufs s)[x := y]\<rparr>"] buf.equality)
  then have "iderw b (upd_buf b (\<lambda>x. x\<lparr>b_dirty := True\<rparr>) s) = Done () ?t"
    using v dv len by (simp add: iderw_run sync_ok_def synced_def baddr_of_def)
  then have run: "bwrite b s = Done () ?t"
    using v by (simp add: bwrite_def run_simps)
  have "cframe s ?t" by (rule cframe_trans [of _ "upd_buf b g s"]) simp_all
  moreover have "dwrites ?t = dwrites s @ [(a, bview s a)]" by (simp add: disk_write_def)
  moreover have "diskc ?t = (diskc s)(a := bview s a)" by simp
  ultimately show ?thesis
    using disk_write_held [of "upd_buf b g s" b a "bview s a"] u h bview_length [OF ok]
    by (simp add: wp_def run)
qed

lemma cache_abs_cong:
  "bufs t = bufs u \<Longrightarrow> diskc t = diskc u \<Longrightarrow> disksize t = disksize u \<Longrightarrow>
     bview t = bview u \<and> bheld t = bheld u \<and> bdirty t = bdirty u \<and> bufs_ok t = bufs_ok u"
  by (intro conjI ext) (simp_all only: bview_def bheld_def bdirty_def bufs_ok_def)

lemma list_all2_woken: "list_all2 stirred ps (map (wake_proc ch) ps)"
  by (simp add: list_all2_conv_all_nth stirred_def wake_proc_def)

lemma cframe_woken: "cframe s (woken ch s)"
  unfolding cframe_def woken_def
  by (rule exI [of _ "map (wake_proc (Some ch)) (ptable s)"], rule exI [of _ "bufs s"],
      rule exI [of _ "dwrites s"], rule exI [of _ "bnext s"], rule exI [of _ "bprev s"])
    (auto simp: list_all2_woken intro: caches.equality)

lemma cframe_links: "cframe s (s\<lparr>bnext := nx, bprev := pv\<rparr>)"
  unfolding cframe_def
  by (rule exI [of _ "ptable s"], rule exI [of _ "bufs s"], rule exI [of _ "dwrites s"],
      rule exI [of _ nx], rule exI [of _ pv]) (auto intro: list.rel_refl caches.equality)

lemma cframe_list: "cframe s (binsert b s)" "cframe s (bunlink b s)"
  by (simp_all only: binsert_def bunlink_def Let_def cframe_links)

lemma brelse_wp:
  assumes inv: "cache_inv s" and h: "bheld s b = Some a" and c: "a \<in> bdirty s \<or> bview s a = diskc s a"
  shows "wp (brelse b) (\<lambda>_ t. cache_inv t \<and> bheld t = (bheld s)(b := None) \<and> bview t = bview s \<and>
     bdirty t = bdirty s \<and> dwrites t = dwrites s \<and> diskc t = diskc s \<and> cframe s t) s"
proof -
  have q: "quiet s" and ok: "bufs_ok s" using inv by (simp_all add: cache_inv_def)
  obtain xs where m: "mru s xs" and xs: "set xs = {..<NBUF}" using inv by (auto simp: cache_inv_def)
  note v = held_valid [OF ok h] and d = held_dirty [OF ok h]
  define g where "g x = x\<lparr>b_busy := False\<rparr>" for x :: buf
  have g: "\<not> b_busy (g (bufs s ! b))" "b_valid (g (bufs s ! b))" "baddr_of (g (bufs s ! b)) = a"
    "b_data (g (bufs s ! b)) = bview s a" "b_dirty (g (bufs s ! b)) = b_dirty (bufs s ! b)"
    using v by (auto simp: g_def baddr_of_def)
  have ad: "admits s b (g (bufs s ! b))"
    by (rule admits_held [OF ok h g(3,2)]) (simp add: g ok)
  have ok': "bufs_ok (upd_buf b g s)" by (rule bufs_ok_upd [of s b g, OF ad]) (use g c d in auto)
  have u: "bview (upd_buf b g s) = bview s" "bdirty (upd_buf b g s) = bdirty s"
    "bheld (upd_buf b g s) = (bheld s)(b := None)"
    using bview_upd [of s b g, OF ad ok'] bdirty_upd [of s b g, OF ad ok'] bheld_upd [OF ok, of b g] g v d
    by (auto simp del: bufs_upd_buf)
  let ?l = "binsert b (bunlink b s)"
  let ?t = "woken (ChanBuf b) (upd_buf b g ?l)"
  have run: "brelse b s = Done () ?t"
    using q v by (simp add: brelse_def run_simps acquire_quiet crit_simps wakeup_run release_quiet
        g_def [symmetric])
  have ml: "mru ?l (b # remove1 b xs)" by (rule mru_touch [OF m]) (use v xs in simp)
  have bt: "bufs ?t = bufs (upd_buf b g s)" "image ?t = image s" "dwrites ?t = dwrites s"
    "disksize ?t = disksize s"
    by (simp_all add: woken_def upd_buf_def binsert_def bunlink_def Let_def)
  have dc: "diskc ?t = diskc s" by (simp only: diskc_def bt)
  have abs: "bview ?t = bview (upd_buf b g s)" "bheld ?t = bheld (upd_buf b g s)"
    "bdirty ?t = bdirty (upd_buf b g s)" "bufs_ok ?t"
    using ok' cache_abs_cong [OF bt(1), unfolded dc bt(4)] by simp_all
  have "mru ?t (b # remove1 b xs)" using ml by (simp add: mru_def woken_def upd_buf_def)
  moreover have "set (b # remove1 b xs) = {..<NBUF}"
    using m xs v by (auto simp: mru_def)
  ultimately have "cache_inv ?t" using q abs(4) unfolding cache_inv_def by auto
  moreover have "cframe s ?t"
    by (rule cframe_trans [OF cframe_trans [OF cframe_trans]]) (rule cframe_list cframe_upd_buf cframe_woken)+
  ultimately show ?thesis
    using abs u bt dc by (simp add: wp_def run)
qed

text \<open>When \<open>bread\<close> returns, it had a right to: nobody held the block and there was a buffer for it.\<close>

lemma sleep_not_Done [simp]: "sleep ch lk s \<noteq> Done a t"
  by (auto simp: sleep_def run_simps sched_def split: option.splits outcome.splits if_splits)

lemma bread_Done:
  assumes inv: "cache_inv s" and run: "bread 1 n s = Done b t"
  shows "n < disksize s \<and> (1, n) \<notin> ran (bheld s) \<and>
     (cached n s \<or> (\<exists>b < NBUF. \<not> b_busy (bufs s ! b) \<and> \<not> b_dirty (bufs s ! b)))"
proof -
  have q: "quiet s" and ok: "bufs_ok s" using inv by (auto simp: cache_inv_def)
  obtain xs where m: "mru s xs" and xs: "set xs = {..<NBUF}" using inv by (auto simp: cache_inv_def)
  have len: "length xs < Suc NBUF" using distinct_card [of xs] m xs by (simp add: mru_def)
  let ?P = "\<lambda>b. b_dev (bufs s ! b) = 1 \<and> b_blockno (bufs s ! b) = n"
  let ?F = "\<lambda>b. \<not> b_busy (bufs s ! b) \<and> \<not> b_dirty (bufs s ! b)"
  note sc = mru_scan_next [OF m len, of ?P] mru_scan_prev [OF m len, of ?F]
  note unf = bread_def bget_def bget_loop_def bget_recycle_def run_simps acquire_quiet crit_simps
    release_quiet
  have Pa: "?P c \<longleftrightarrow> baddr_of (bufs s ! c) = (1, n)" for c by (auto simp: baddr_of_def)
  show ?thesis
  proof (cases "find ?P xs")
    case (Some c)
    then have c: "c < NBUF" "?P c" using xs find_SomeD [OF Some] by auto
    have nb: "\<not> b_busy (bufs s ! c)"
      using run q sc(1) Some by (auto simp: unf split: outcome.splits)
    have "n < disksize s"
    proof (cases "b_valid (bufs s ! c)")
      case True
      then show ?thesis using bufs_okD(4) [OF ok c(1)] c(2) by simp
    next
      case False
      then show ?thesis
        using run q sc(1) Some nb c bufs_okD(1,7) [OF ok] by (auto simp: unf iderw_def split: if_splits outcome.splits)
    qed
    moreover have "(1, n) \<notin> ran (bheld s)"
    proof
      assume "(1, n) \<in> ran (bheld s)"
      then obtain e where "bheld s e = Some (1, n)" by (auto simp: ran_def)
      then have "e < NBUF" "b_busy (bufs s ! e)" "baddr_of (bufs s ! e) = (1, n)" using bheld_Some [OF ok] by auto
      then show False using bufs_okD(2) [OF ok, of e c] c nb unfolding Pa by (auto simp: baddr_of_def)
    qed
    ultimately show ?thesis using c unfolding Pa cached_def by blast
  next
    case None
    then have no: "baddr_of (bufs s ! c) \<noteq> (1, n)" if "c < NBUF" for c
      using that xs unfolding Pa find_None_iff by auto
    then have nh: "(1, n) \<notin> ran (bheld s)" using bheld_Some [OF ok] by (auto simp: ran_def)
    show ?thesis
    proof (cases "find ?F (rev xs)")
      case None2: None
      then show ?thesis using run q sc None by (simp add: unf)
    next
      case (Some c)
      then have c: "c < NBUF" "?F c" using xs find_SomeD [OF Some] by auto
      then have "n < disksize s"
        using run q sc None Some bufs_okD(1) [OF ok] by (auto simp: unf iderw_def split: if_splits outcome.splits)
      then show ?thesis using nh c by blast
    qed
  qed
qed

section \<open>The interface of the cache\<close>

text \<open>
  What the log and the file system rely on. The contents of all blocks are a map; a client
  holds buffers, each for one block, stores into them, writes them through and releases
  them; the dirty blocks are those the disk does not have yet. The trace is the sequence of writes
  the disk has received.
\<close>

record cview =
  v_blocks :: "baddr \<Rightarrow> block"
  v_held :: "nat \<Rightarrow> baddr option"
  v_dirty :: "baddr set"
  v_trace :: "(baddr \<times> block) list"
  v_disk :: "baddr \<Rightarrow> block"

definition cobs :: "'z disks_scheme \<Rightarrow> cview" where
  "cobs s = \<lparr>v_blocks = bview s, v_held = bheld s, v_dirty = bdirty s, v_trace = dwrites s,
     v_disk = diskc s\<rparr>"

text \<open>Block \<open>n\<close> can be read: it is on the disk, nobody holds it and the cache has room for it.\<close>

definition readable :: "cview \<Rightarrow> nat \<Rightarrow> bool" where
  "readable v n \<longleftrightarrow> (1, n) \<notin> ran (v_held v) \<and>
     ((1, n) \<in> v_dirty v \<or> card (v_dirty v \<union> ran (v_held v)) < NBUF)"

text \<open>The view after block \<open>n\<close> has been written through with contents \<open>x\<close>.\<close>

definition written :: "nat \<Rightarrow> block \<Rightarrow> cview \<Rightarrow> cview" where
  "written n x v = v\<lparr>v_blocks := (v_blocks v)((1, n) := x), v_dirty := v_dirty v - {(1, n)},
     v_trace := v_trace v @ [((1, n), x)], v_disk := (v_disk v)((1, n) := x)\<rparr>"

locale block_reader =
  fixes inv :: "'s \<Rightarrow> bool" and dsize :: "'s \<Rightarrow> nat" and obs :: "'s \<Rightarrow> cview"
    and frame :: "'s \<Rightarrow> 's \<Rightarrow> bool"
    and rd :: "nat \<Rightarrow> ('s, nat) km" and rl :: "nat \<Rightarrow> ('s, unit) km" and st :: "nat \<Rightarrow> (block \<Rightarrow> block) \<Rightarrow> 's \<Rightarrow> 's"
    and data :: "nat \<Rightarrow> 's \<Rightarrow> block"
  assumes frame_refl: "frame s s"
    and frame_trans: "frame s t \<Longrightarrow> frame t u \<Longrightarrow> frame s u"
    and frame_size: "frame s t \<Longrightarrow> dsize t = dsize s"
    and rd_total: "inv s \<Longrightarrow> n < dsize s \<Longrightarrow> readable (obs s) n \<Longrightarrow> \<exists>b t. rd n s = Done b t"
    and rd_law: "inv s \<Longrightarrow> rd n s = Done b t \<Longrightarrow> (1, n) \<notin> ran (v_held (obs s)) \<and>
      v_held (obs s) b = None \<and> inv t \<and> frame s t \<and>
      obs t = (obs s)\<lparr>v_held := (v_held (obs s))(b \<mapsto> (1, n))\<rparr>"
    and st_law: "inv s \<Longrightarrow> v_held (obs s) b = Some a \<Longrightarrow> length (f (v_blocks (obs s) a)) = BSIZE \<Longrightarrow>
      inv (st b f s) \<and> frame s (st b f s) \<and>
      obs (st b f s) = (obs s)\<lparr>v_blocks := (v_blocks (obs s))(a := f (v_blocks (obs s) a))\<rparr>"
    and rl_law: "inv s \<Longrightarrow> v_held (obs s) b = Some a \<Longrightarrow>
      a \<in> v_dirty (obs s) \<or> v_blocks (obs s) a = v_disk (obs s) a \<Longrightarrow>
      wp (rl b) (\<lambda>_ t. inv t \<and> frame s t \<and> obs t = (obs s)\<lparr>v_held := (v_held (obs s))(b := None)\<rparr>) s"
    and data_law: "inv s \<Longrightarrow> v_held (obs s) b = Some a \<Longrightarrow> data b s = v_blocks (obs s) a"
    and clean_law: "inv s \<Longrightarrow> a \<notin> ran (v_held (obs s)) \<Longrightarrow> a \<notin> v_dirty (obs s) \<Longrightarrow>
      v_blocks (obs s) a = v_disk (obs s) a"
    and length_law: "inv s \<Longrightarrow> length (v_blocks (obs s) a) = BSIZE"
begin

lemma rd_wp:
  assumes "inv s" "n < dsize s" "readable (obs s) n"
    and "\<And>b t. v_held (obs s) b = None \<Longrightarrow> inv t \<Longrightarrow> frame s t \<Longrightarrow>
      obs t = (obs s)\<lparr>v_held := (v_held (obs s))(b \<mapsto> (1, n))\<rparr> \<Longrightarrow> Q b t"
  shows "wp (rd n) Q s"
  using rd_total [OF assms(1-3)] rd_law [OF assms(1)] assms(4) by (auto simp: wp_def)

lemma st_wp:
  assumes "inv s" "v_held (obs s) b = Some a" "length (f (v_blocks (obs s) a)) = BSIZE"
    and "\<And>t. inv t \<Longrightarrow> frame s t \<Longrightarrow>
      obs t = (obs s)\<lparr>v_blocks := (v_blocks (obs s))(a := f (v_blocks (obs s) a))\<rparr> \<Longrightarrow> Q () t"
  shows "wp (modify (st b f)) Q s"
  using st_law [of s b a f, OF assms(1-3)] assms(4) by (simp add: wp_simps)

lemma rl_wp:
  assumes "inv s" "v_held (obs s) b = Some a" "a \<in> v_dirty (obs s) \<or> v_blocks (obs s) a = v_disk (obs s) a"
    and "\<And>t. inv t \<Longrightarrow> frame s t \<Longrightarrow> obs t = (obs s)\<lparr>v_held := (v_held (obs s))(b := None)\<rparr> \<Longrightarrow> Q () t"
  shows "wp (rl b) Q s"
  by (rule wp_mono [OF rl_law [OF assms(1-3)]]) (use assms(4) in auto)

lemma held_clean:
  assumes "inv s" "a \<notin> ran (v_held (obs s))"
  shows "a \<in> v_dirty (obs s) \<or> v_blocks (obs s) a = v_disk (obs s) a"
  using clean_law [OF assms] by blast

text \<open>Read a block and look at it.\<close>

lemma look_block:
  assumes s: "inv s" "n < dsize s" "readable (obs s) n"
  shows "wp (kbind (rd n) (\<lambda>b. kbind (gets (data b)) (\<lambda>x. kthen (rl b) (ret x))))
    (\<lambda>x t. x = v_blocks (obs s) (1, n) \<and> inv t \<and> frame s t \<and> obs t = obs s) s"
  unfolding wp_kbind
proof (rule rd_wp [OF s])
  fix b t
  assume b: "v_held (obs s) b = None" and t: "inv t" "frame s t"
    "obs t = (obs s)\<lparr>v_held := (v_held (obs s))(b \<mapsto> (1, n))\<rparr>"
  have c: "(1, n) \<in> v_dirty (obs s) \<or> v_blocks (obs s) (1, n) = v_disk (obs s) (1, n)"
    by (rule held_clean [OF s(1)]) (use s(3) in \<open>simp add: readable_def\<close>)
  have d: "data b t = v_blocks (obs s) (1, n)" using data_law [OF t(1), of b "(1, n)"] t(3) by simp
  show "wp (gets (data b)) (\<lambda>a. wp (kthen (rl b) (ret a))
      (\<lambda>x t. x = v_blocks (obs s) (1, n) \<and> inv t \<and> frame s t \<and> obs t = obs s)) t"
    unfolding wp_gets wp_kthen wp_ret
    by (rule rl_wp [OF t(1), of b "(1, n)"])
      (use t b c d frame_trans in \<open>auto simp: fun_upd_idem\<close>)
qed

end

text \<open>The cache also writes blocks through to the disk.\<close>

locale block_cache = block_reader inv dsize obs frame rd rl st data
  for inv :: "'s \<Rightarrow> bool" and dsize obs frame rd rl st data +
  fixes wr :: "nat \<Rightarrow> ('s, unit) km"
  assumes wr_law: "inv s \<Longrightarrow> v_held (obs s) b = Some (1, n) \<Longrightarrow>
      wp (wr b) (\<lambda>_ t. inv t \<and> frame s t \<and> obs t = written n (v_blocks (obs s) (1, n)) (obs s)) s"
begin

lemma wr_wp:
  assumes "inv s" "v_held (obs s) b = Some (1, n)"
    and "\<And>t. inv t \<Longrightarrow> frame s t \<Longrightarrow> obs t = written n (v_blocks (obs s) (1, n)) (obs s) \<Longrightarrow> Q () t"
  shows "wp (wr b) Q s"
  by (rule wp_mono [OF wr_law [OF assms(1,2)]]) (use assms(3) in auto)

text \<open>Read a block, change it and write it through.\<close>

lemma update_block:
  assumes s: "inv s" "n < dsize s" "readable (obs s) n"
    and l: "length (f (v_blocks (obs s) (1, n))) = BSIZE"
  shows "wp (kbind (rd n) (\<lambda>b. kthen (modify (st b f)) (kthen (wr b) (rl b))))
    (\<lambda>_ t. inv t \<and> frame s t \<and> obs t = written n (f (v_blocks (obs s) (1, n))) (obs s)) s"
  unfolding wp_kbind
proof (rule rd_wp [OF s])
  fix b t
  assume b: "v_held (obs s) b = None" and t: "inv t" "frame s t"
    "obs t = (obs s)\<lparr>v_held := (v_held (obs s))(b \<mapsto> (1, n))\<rparr>"
  show "wp (kthen (modify (st b f)) (kthen (wr b) (rl b)))
    (\<lambda>_ t. inv t \<and> frame s t \<and> obs t = written n (f (v_blocks (obs s) (1, n))) (obs s)) t"
    unfolding wp_kthen
  proof (rule st_wp [OF t(1), of b "(1, n)" f])
    fix u
    assume u: "inv u" "frame t u"
      "obs u = (obs t)\<lparr>v_blocks := (v_blocks (obs t))((1, n) := f (v_blocks (obs t) (1, n)))\<rparr>"
    show "wp (wr b) (\<lambda>_. wp (rl b) (\<lambda>_ t. inv t \<and> frame s t \<and>
        obs t = written n (f (v_blocks (obs s) (1, n))) (obs s))) u"
    proof (rule wr_wp [OF u(1), of b n])
      fix v
      assume v: "inv v" "frame u v" "obs v = written n (v_blocks (obs u) (1, n)) (obs u)"
      show "wp (rl b) (\<lambda>_ t. inv t \<and> frame s t \<and>
          obs t = written n (f (v_blocks (obs s) (1, n))) (obs s)) v"
        by (rule rl_wp [OF v(1), of b "(1, n)"])
          (use t u v b in \<open>auto simp: written_def fun_upd_idem intro: frame_trans\<close>)
    qed (use t u in simp)
  qed (use t l in simp_all)
qed

end

context block_cache
begin

text \<open>
  Copy block \<open>m\<close> to block \<open>n\<close>, holding both; the two orders in which the log does it.
\<close>

lemma copy_body:
  assumes h: "v_held v = H(b \<mapsto> (1, m), c \<mapsto> (1, n))" and bc: "b \<noteq> c" "H b = None" "H c = None" and mn: "m \<noteq> n"
    and m: "(1, m) \<in> v_dirty v \<or> v_blocks v (1, m) = v_disk v (1, m)"
    and s: "inv s" "obs s = v" "frame s0 s"
    and Q: "\<And>t. inv t \<Longrightarrow> frame s0 t \<Longrightarrow> obs t = (written n (v_blocks v (1, m)) v)\<lparr>v_held := H\<rparr> \<Longrightarrow> Q () t"
  shows "wp (kbind (gets (data b)) (\<lambda>x. kthen (modify (st c (\<lambda>_. x))) (kthen (wr c) (kthen (rl b) (rl c))))) Q s"
proof -
  have d: "data b s = v_blocks v (1, m)" using data_law [OF s(1), of b "(1, m)"] s(2) h bc by simp
  have wr: "wp (modify (st c (\<lambda>_. v_blocks v (1, m)))) (\<lambda>_. wp (wr c) R) s"
    if R: "\<And>t. inv t \<Longrightarrow> frame s0 t \<Longrightarrow> obs t = written n (v_blocks v (1, m)) v \<Longrightarrow> R () t" for R
  proof (rule st_wp [OF s(1), of c "(1, n)"])
    fix t
    assume t: "inv t" "frame s t" "obs t = (obs s)\<lparr>v_blocks := (v_blocks (obs s))((1, n) := v_blocks v (1, m))\<rparr>"
    show "wp (wr c) R t"
    proof (rule wr_wp [OF t(1), of c n])
      fix u
      assume u: "inv u" "frame t u" "obs u = written n (v_blocks (obs t) (1, n)) (obs t)"
      show "R () u"
        by (rule R [OF u(1) frame_trans [OF frame_trans [OF s(3) t(2)] u(2)]])
          (use u t s in \<open>simp add: written_def\<close>)
    qed (use t s h in simp)
  qed (use s h length_law [OF s(1)] in auto)
  have rl2: "wp (rl x) (\<lambda>_. wp (rl y) Q) t"
    if t: "inv t" "frame s0 t" "obs t = written n (v_blocks v (1, m)) v"
      and xy: "x = b \<and> y = c \<or> x = c \<and> y = b" for t x y
  proof -
    have in_sync: "a \<in> v_dirty (written n (v_blocks v (1, m)) v) \<or>
        v_blocks (written n (v_blocks v (1, m)) v) a = v_disk (written n (v_blocks v (1, m)) v) a"
      if "a = (1, m) \<or> a = (1, n)" for a
      using that m mn by (auto simp: written_def)
    obtain p r where pr: "v_held v x = Some p" "v_held v y = Some r" "x \<noteq> y"
      "p = (1, m) \<or> p = (1, n)" "r = (1, m) \<or> r = (1, n)" using xy h bc by auto
    have H: "(v_held v)(x := None, y := None) = H" using xy h bc by (auto simp: fun_eq_iff)
    have vh: "v_held (written n (v_blocks v (1, m)) v) = v_held v" by (simp add: written_def)
    show ?thesis
    proof (rule rl_wp [OF t(1), of x p])
      fix u
      assume u: "inv u" "frame t u" "obs u = (obs t)\<lparr>v_held := (v_held (obs t))(x := None)\<rparr>"
      show "wp (rl y) Q u"
      proof (rule rl_wp [OF u(1), of y r])
        fix w
        assume w: "inv w" "frame u w" "obs w = (obs u)\<lparr>v_held := (v_held (obs u))(y := None)\<rparr>"
        show "Q () w"
          by (rule Q [OF w(1) frame_trans [OF frame_trans [OF t(2) u(2)] w(2)]])
            (use w u t H vh in simp)
      qed (use u t pr vh in_sync [OF pr(5)] in auto)
    qed (use t pr vh in_sync [OF pr(4)] in auto)
  qed
  show "wp (kbind (gets (data b)) (\<lambda>x. kthen (modify (st c (\<lambda>_. x))) (kthen (wr c) (kthen (rl b) (rl c))))) Q s"
    unfolding wp_kbind wp_gets wp_kthen d by (rule wr) (simp add: rl2)
qed

lemma copy_block:
  assumes s: "inv s" "m < dsize s" "n < dsize s" "m \<noteq> n"
    and r: "readable (obs s) m" "readable ((obs s)\<lparr>v_held := H\<rparr>) n" "ran H = insert (1, m) (ran (v_held (obs s)))"
  shows "wp (kbind (rd m) (\<lambda>l. kbind (rd n) (\<lambda>d.
       kbind (gets (data l)) (\<lambda>x. kthen (modify (st d (\<lambda>_. x))) (
       kthen (wr d) (kthen (rl l) (rl d)))))))
    (\<lambda>_ t. inv t \<and> frame s t \<and> obs t = written n (v_blocks (obs s) (1, m)) (obs s)) s"
  unfolding wp_kbind [of "rd m"]
proof (rule rd_wp [OF s(1,2) r(1)])
  fix b t
  assume b: "v_held (obs s) b = None" and t: "inv t" "frame s t"
    "obs t = (obs s)\<lparr>v_held := (v_held (obs s))(b \<mapsto> (1, m))\<rparr>"
  have n: "n < dsize t" using s(3) frame_size [OF t(2)] by simp
  have rn: "readable (obs t) n" using r(2,3) b t(3) by (simp add: readable_def)
  have cl: "(1, m) \<in> v_dirty (obs s) \<or> v_blocks (obs s) (1, m) = v_disk (obs s) (1, m)"
    by (rule held_clean [OF s(1)]) (use r(1) in \<open>simp add: readable_def\<close>)
  show "wp (kbind (rd n) (\<lambda>d. kbind (gets (data b)) (\<lambda>x. kthen (modify (st d (\<lambda>_. x)))
       (kthen (wr d) (kthen (rl b) (rl d))))))
     (\<lambda>_ t. inv t \<and> frame s t \<and> obs t = written n (v_blocks (obs s) (1, m)) (obs s)) t"
    unfolding wp_kbind [of "rd n"]
  proof (rule rd_wp [OF t(1) n rn])
    fix c u
    assume c: "v_held (obs t) c = None" and u: "inv u" "frame t u"
      "obs u = (obs t)\<lparr>v_held := (v_held (obs t))(c \<mapsto> (1, n))\<rparr>"
    show "wp (kbind (gets (data b)) (\<lambda>x. kthen (modify (st c (\<lambda>_. x))) (kthen (wr c) (kthen (rl b) (rl c)))))
      (\<lambda>_ t. inv t \<and> frame s t \<and> obs t = written n (v_blocks (obs s) (1, m)) (obs s)) u"
      by (rule copy_body [of "obs u" "v_held (obs s)" b m c n u s])
        (use u t b c s cl frame_trans in \<open>auto simp: written_def split: if_splits\<close>)
  qed
qed

lemma copy_block_to:
  assumes s: "inv s" "m < dsize s" "n < dsize s" "m \<noteq> n"
    and r: "readable (obs s) n" "readable ((obs s)\<lparr>v_held := H\<rparr>) m" "ran H = insert (1, n) (ran (v_held (obs s)))"
  shows "wp (kbind (rd n) (\<lambda>d. kbind (rd m) (\<lambda>l.
       kbind (gets (data l)) (\<lambda>x. kthen (modify (st d (\<lambda>_. x))) (
       kthen (wr d) (kthen (rl l) (rl d)))))))
    (\<lambda>_ t. inv t \<and> frame s t \<and> obs t = written n (v_blocks (obs s) (1, m)) (obs s)) s"
  unfolding wp_kbind [of "rd n"]
proof (rule rd_wp [OF s(1,3) r(1)])
  fix c t
  assume c: "v_held (obs s) c = None" and t: "inv t" "frame s t"
    "obs t = (obs s)\<lparr>v_held := (v_held (obs s))(c \<mapsto> (1, n))\<rparr>"
  have m: "m < dsize t" using s(2) frame_size [OF t(2)] by simp
  have rm: "readable (obs t) m" using r(2,3) c t(3) by (simp add: readable_def)
  have cl: "(1, m) \<in> v_dirty (obs t) \<or> v_blocks (obs t) (1, m) = v_disk (obs t) (1, m)"
    by (rule held_clean [OF t(1)]) (use rm in \<open>simp add: readable_def\<close>)
  show "wp (kbind (rd m) (\<lambda>l. kbind (gets (data l)) (\<lambda>x. kthen (modify (st c (\<lambda>_. x)))
       (kthen (wr c) (kthen (rl l) (rl c))))))
     (\<lambda>_ t. inv t \<and> frame s t \<and> obs t = written n (v_blocks (obs s) (1, m)) (obs s)) t"
    unfolding wp_kbind [of "rd m"]
  proof (rule rd_wp [OF t(1) m rm])
    fix b u
    assume b: "v_held (obs t) b = None" and u: "inv u" "frame t u"
      "obs u = (obs t)\<lparr>v_held := (v_held (obs t))(b \<mapsto> (1, m))\<rparr>"
    show "wp (kbind (gets (data b)) (\<lambda>x. kthen (modify (st c (\<lambda>_. x))) (kthen (wr c) (kthen (rl b) (rl c)))))
      (\<lambda>_ t. inv t \<and> frame s t \<and> obs t = written n (v_blocks (obs s) (1, m)) (obs s)) u"
      by (rule copy_body [of "obs u" "v_held (obs s)" b m c n u s])
        (use u t b c s cl frame_trans in \<open>auto simp: written_def fun_upd_twist split: if_splits\<close>)
  qed
qed

end

lemma pins_cobs: "pins s = v_dirty (cobs s) \<union> ran (v_held (cobs s))"
  by (simp add: pins_def cobs_def)

interpretation bcache: block_cache cache_inv disksize cobs cframe "bread 1" brelse bstore bdata bwrite
proof unfold_locales
  fix s t u :: "'a caches_scheme" and b n :: nat and a :: baddr and f :: "block \<Rightarrow> block"
  show "cframe s s" by simp
  show "cframe s t \<Longrightarrow> cframe t u \<Longrightarrow> cframe s u" by (rule cframe_trans)
  show "cframe s t \<Longrightarrow> disksize t = disksize s" by (simp add: cframe_same)
  show "\<exists>b t. bread 1 n s = Done b t" if "cache_inv s" "n < disksize s" "readable (cobs s) n"
    using bread_wp [OF that(1,2) _ room_cached] that(1,3)
    by (auto simp: readable_def pins_cobs wp_iff cache_inv_def cobs_def)
  show "(1, n) \<notin> ran (v_held (cobs s)) \<and> v_held (cobs s) b = None \<and> cache_inv t \<and> cframe s t \<and>
      cobs t = (cobs s)\<lparr>v_held := (v_held (cobs s))(b \<mapsto> (1, n))\<rparr>"
    if "cache_inv s" "bread 1 n s = Done b t"
    using bread_Done [OF that] bread_wp [OF that(1), of n] that(2) by (auto simp: cobs_def wp_def)
  show "cache_inv (bstore b f s) \<and> cframe s (bstore b f s) \<and>
      cobs (bstore b f s) = (cobs s)\<lparr>v_blocks := (v_blocks (cobs s))(a := f (v_blocks (cobs s) a))\<rparr>"
    if "cache_inv s" "v_held (cobs s) b = Some a" "length (f (v_blocks (cobs s) a)) = BSIZE"
    using bstore_spec [of s b a f] that by (simp add: cobs_def)
  show "wp (bwrite b) (\<lambda>_ t. cache_inv t \<and> cframe s t \<and>
      cobs t = written n (v_blocks (cobs s) (1, n)) (cobs s)) s"
    if "cache_inv s" "v_held (cobs s) b = Some (1, n)"
    by (rule wp_mono [OF bwrite_wp [OF that(1), of b "(1, n)"]])
      (use that(2) in \<open>auto simp: cobs_def written_def\<close>)
  show "wp (brelse b) (\<lambda>_ t. cache_inv t \<and> cframe s t \<and>
      cobs t = (cobs s)\<lparr>v_held := (v_held (cobs s))(b := None)\<rparr>) s"
    if "cache_inv s" "v_held (cobs s) b = Some a" "a \<in> v_dirty (cobs s) \<or> v_blocks (cobs s) a = v_disk (cobs s) a"
    by (rule wp_mono [OF brelse_wp [OF that(1), of b a]]) (use that(2,3) in \<open>auto simp: cobs_def\<close>)
  show "bdata b s = v_blocks (cobs s) a" if "cache_inv s" "v_held (cobs s) b = Some a"
    using bdata_held [OF that(1)] that(2) by (simp add: cobs_def)
  show "v_blocks (cobs s) a = v_disk (cobs s) a"
    if "cache_inv s" "a \<notin> ran (v_held (cobs s))" "a \<notin> v_dirty (cobs s)"
    using cache_inv_clean [OF that(1)] that(2,3) by (simp add: cobs_def)
  show "length (v_blocks (cobs s) a) = BSIZE" if "cache_inv s"
    using that by (simp add: cobs_def cache_inv_def)
qed

section \<open>Boot\<close>

lemma quiet_initlock: "quiet s \<Longrightarrow> \<exists>t. initlock l s = Done () t \<and> quiet t \<and> t = s\<lparr>locks := locks t\<rparr>"
  by (auto simp: initlock_def quiet_def set_lock_def modify_def free_lock_def mycpu_def)

definition unused_buf :: buf where
  "unused_buf = zero_buf\<lparr>b_dev := NODEV\<rparr>"

lemma binit_wp:
  assumes q: "quiet s" and bufs: "bufs s = replicate NBUF zero_buf"
    and d: "\<And>a. length (diskc s a) = BSIZE"
  shows "wp binit (\<lambda>_ t. cache_inv t \<and> bview t = diskc s \<and> bheld t = Map.empty \<and> bdirty t = {} \<and>
     dwrites t = dwrites s \<and> diskc t = diskc s \<and> disksize t = disksize s \<and>
     bufs t = replicate NBUF unused_buf \<and> mru t (rev [0..<NBUF]) \<and>
     curproc t = curproc s \<and> ptable t = ptable s) s"
proof -
  let ?I = "\<lambda>k t. quiet t \<and> mru t (rev [0..<k]) \<and>
      bufs t = replicate k unused_buf @ replicate (NBUF - k) zero_buf \<and>
      dwrites t = dwrites s \<and> image t = image s \<and> disksize t = disksize s \<and>
      curproc t = curproc s \<and> ptable t = ptable s"
  obtain s1 where s1: "initlock BcacheLock s = Done () s1" "quiet s1" "s1 = s\<lparr>locks := locks s1\<rparr>"
    using quiet_initlock [OF q] by blast
  let ?s2 = "s1\<lparr>bprev := (bprev s1)(bhead := bhead), bnext := (bnext s1)(bhead := bhead)\<rparr>"
  have f: "bufs s1 = bufs s" "dwrites s1 = dwrites s" "image s1 = image s" "disksize s1 = disksize s"
    "curproc s1 = curproc s" "ptable s1 = ptable s"
    by (subst s1(3), simp add: curproc_def mycpu_def)+
  have loop: "wp (kfor [0..<NBUF] (\<lambda>b. kthen (modify (upd_buf b (\<lambda>x. x\<lparr>b_dev := NODEV\<rparr>))) (modify (binsert b))))
     (\<lambda>_ t. ?I NBUF t) ?s2"
  proof (rule wp_kfor [where I = ?I])
    show "?I 0 ?s2" using s1(2) f bufs by (simp add: mru_def curproc_def mycpu_def)
  next
    fix i t assume i: "i < length [0..<NBUF]" and t: "?I i t"
    let ?u = "upd_buf i (\<lambda>x. x\<lparr>b_dev := NODEV\<rparr>) t"
    have "mru ?u (rev [0..<i])" using t by (simp add: mru_def upd_buf_def)
    then have m: "mru (binsert i ?u) (i # rev [0..<i])"
      by (rule mru_binsert) (use i in \<open>auto simp: bhead_def\<close>)
    have "replicate (NBUF - i) zero_buf = zero_buf # replicate (NBUF - Suc i) zero_buf"
      using i by (metis Suc_diff_Suc diff_zero length_upt replicate_Suc)
    then have b: "bufs ?u = replicate (Suc i) unused_buf @ replicate (NBUF - Suc i) zero_buf"
      using t i by (simp add: list_update_append nth_append unused_buf_def replicate_append_same)
    have "?I (Suc i) (binsert i ?u)"
      using m b t by (simp add: upd_buf_def binsert_def Let_def curproc_def mycpu_def)
    then show "wp (kthen (modify (upd_buf ([0..<NBUF] ! i) (\<lambda>x. x\<lparr>b_dev := NODEV\<rparr>)))
        (modify (binsert ([0..<NBUF] ! i)))) (\<lambda>_ t. ?I (Suc i) t) t"
      using i by (simp add: wp_simps del: bufs_upd_buf)
  qed simp
  have fin: "cache_inv t \<and> bview t = diskc s \<and> bheld t = Map.empty \<and> bdirty t = {} \<and>
     dwrites t = dwrites s \<and> diskc t = diskc s \<and> disksize t = disksize s \<and>
     bufs t = replicate NBUF unused_buf \<and> mru t (rev [0..<NBUF]) \<and>
     curproc t = curproc s \<and> ptable t = ptable s" if t: "?I NBUF t" for t
  proof -
    have dt: "diskc t = diskc s" using t by (simp add: diskc_def)
    have b: "bufs t ! i = unused_buf" if "i < NBUF" for i using t that by simp
    have "bufs_ok t" unfolding bufs_ok_def using t d dt by (simp add: unused_buf_def zero_buf_def)
    moreover have "bview t = diskc s"
      by (rule ext, subst bview_disk) (use t dt in \<open>auto simp: unused_buf_def zero_buf_def\<close>)
    moreover have "set (rev [0..<NBUF]) = {..<NBUF}" by auto
    moreover have "bheld t = Map.empty" "bdirty t = {}"
      using t by (auto simp: fun_eq_iff bheld_def bdirty_def unused_buf_def zero_buf_def)
    ultimately show ?thesis using t dt unfolding cache_inv_def by auto
  qed
  show ?thesis
    unfolding binit_def wp_kthen wp_modify
    by (rule wpI [of _ _ "()" s1], rule s1(1)) (rule wp_mono [OF loop], rule fin)
qed

text \<open>A disk of zeroed blocks and the caches the kernel starts with on it.\<close>

definition small_cache :: caches where
  "small_cache = disks.extend (small_disk\<lparr>bufs := replicate NBUF zero_buf, image := (\<lambda>_. replicate BSIZE 0)\<rparr>)
     \<lparr>bnext = (\<lambda>_. 0), bprev = (\<lambda>_. 0)\<rparr>"

lemma small_cache_boot:
  "quiet small_cache" "bufs small_cache = replicate NBUF zero_buf" "length (diskc small_cache a) = BSIZE"
  "disksize small_cache = 1000" "curproc small_cache = Some 1" "length (ptable small_cache) = 2"
  using quiet_small_disk small_disk_ready
  by (simp_all add: small_cache_def disks.defs quiet_def mycpu_def diskc_def curproc_def)
    (simp_all add: small_disk_def kmems.defs)

section \<open>The properties of the cache\<close>

text \<open>
  A history of the cache: any sequence of \<open>bread\<close>, stores into held buffers, \<open>bwrite\<close> and \<open>brelse\<close>
  by clients that release a buffer only after they have written what they stored.
\<close>

datatype cache_event =
    CRead nat nat block
  | CStore nat block
  | CWrite nat
  | CRelse nat

inductive cache_run :: "'z caches_scheme \<Rightarrow> cache_event list \<Rightarrow> 'z caches_scheme \<Rightarrow> bool" for s where
  run_start: "cache_run s [] s"
| run_read: "cache_run s es t \<Longrightarrow> bread 1 n t = Done b u \<Longrightarrow>
    cache_run s (es @ [CRead n b (bdata b u)]) u"
| run_store: "cache_run s es t \<Longrightarrow> bheld t b = Some a \<Longrightarrow> length x = BSIZE \<Longrightarrow>
    cache_run s (es @ [CStore b x]) (bstore b (\<lambda>_. x) t)"
| run_write: "cache_run s es t \<Longrightarrow> bheld t b = Some a \<Longrightarrow> bwrite b t = Done () u \<Longrightarrow>
    cache_run s (es @ [CWrite b]) u"
| run_relse: "cache_run s es t \<Longrightarrow> bheld t b = Some a \<Longrightarrow> a \<in> bdirty t \<or> bview t a = diskc t a \<Longrightarrow>
    brelse b t = Done () u \<Longrightarrow> cache_run s (es @ [CRelse b]) u"

text \<open>
  The specification the history is checked against: a map from blocks to contents and a lock
  per block. A read is allowed only on a free block and must deliver what the map has.
\<close>

primrec cache_spec :: "cache_event \<Rightarrow> (baddr \<Rightarrow> block) \<times> (nat \<Rightarrow> baddr option) \<Rightarrow>
    ((baddr \<Rightarrow> block) \<times> (nat \<Rightarrow> baddr option)) option" where
  "cache_spec (CRead n b x) = (\<lambda>(V, H).
     (if (1, n) \<in> ran H \<or> H b \<noteq> None \<or> x \<noteq> V (1, n) then None else Some (V, H(b \<mapsto> (1, n)))))"
| "cache_spec (CStore b x) = (\<lambda>(V, H).
     map_option (\<lambda>a. (V(a := x), H)) (H b))"
| "cache_spec (CWrite b) = (\<lambda>(V, H).
     (if H b = None then None else Some (V, H)))"
| "cache_spec (CRelse b) = (\<lambda>(V, H).
     (if H b = None then None else Some (V, H(b := None))))"

primrec replay :: "cache_event list \<Rightarrow> (baddr \<Rightarrow> block) \<times> (nat \<Rightarrow> baddr option) \<Rightarrow>
    ((baddr \<Rightarrow> block) \<times> (nat \<Rightarrow> baddr option)) option" where
  "replay [] m = Some m"
| "replay (e # es) m = Option.bind (cache_spec e m) (replay es)"

lemma replay_append: "replay (es @ fs) m = Option.bind (replay es m) (replay fs)"
  by (induction es arbitrary: m) (auto split: Option.bind_splits)

lemma cache_run_replay:
  "cache_run s es t \<Longrightarrow> cache_inv s \<Longrightarrow>
     cache_inv t \<and> replay es (bview s, bheld s) = Some (bview t, bheld t)"
proof (induction rule: cache_run.induct)
  case run_start
  then show ?case by simp
next
  case (run_read es t n b u)
  from bcache.rd_law [of t n b u] bcache.data_law [of u b "(1, n)"] run_read
  show ?case by (simp add: replay_append cobs_def fun_upd_def)
next
  case (run_store es t b a x)
  from bcache.st_law [of t b a "\<lambda>_. x"] run_store
  show ?case by (simp add: replay_append cobs_def fun_upd_def)
next
  case (run_write es t b a u)
  from bwrite_wp [of t b a] run_write
  show ?case by (simp add: replay_append wp_def)
next
  case (run_relse es t b a u)
  from bcache.rl_law [of t b a] run_relse
  show ?case by (simp add: replay_append wp_def cobs_def fun_upd_def)
qed

text \<open>
  C3 (refinement). The buffer cache refines a map from blocks to contents with one lock per
  block. In every history of the cache, no matter which buffers were recycled in between, each
  \<open>bread\<close> found its block free and delivered what was last stored into it; the cache invariant (one
  buffer per block, the buffer list intact) holds at the end; and every block that is neither held nor dirty is
  on the disk as the cache shows it.
\<close>

theorem bcache_refines_block_map:
  assumes "cache_run s es t" and "cache_inv s"
  shows "cache_inv t \<and> replay es (bview s, bheld s) = Some (bview t, bheld t) \<and>
     (\<forall>a. a \<notin> ran (bheld t) \<longrightarrow> a \<notin> bdirty t \<longrightarrow> diskc t a = bview t a)"
  using cache_run_replay [OF assms] cache_inv_clean [of t] by auto

theorem bcache_refines_block_map_witness:
  "\<exists>(s :: caches) t b x. cache_inv s \<and> cache_run s [CRead 7 b x] t \<and> x = replicate BSIZE 0 \<and>
     bheld t b = Some (1, 7)"
proof -
  obtain s :: caches where s: "cache_inv s" "bview s = diskc small_cache" "bheld s = Map.empty" "bdirty s = {}"
    "disksize s = 1000"
    using binit_wp [OF small_cache_boot(1-3)] small_cache_boot(4) by (auto simp: wp_iff)
  have "readable (cobs s) 7" using s by (simp add: readable_def cobs_def NBUF_def)
  then obtain b t where rd: "bread 1 7 s = Done b t" using bcache.rd_total [of s 7] s by auto
  have run: "cache_run s [CRead 7 b (bdata b t)] t"
    using run_read [OF run_start rd] by simp
  have "diskc small_cache (1, 7) = replicate BSIZE 0"
    by (simp add: small_cache_def disks.defs diskc_def small_disk_def kmems.defs)
  then have "bdata b t = replicate BSIZE 0" "bheld t b = Some (1, 7)"
    using bcache_refines_block_map [OF run s(1)] s by (auto split: if_splits dest!: fun_cong [of _ _ b])
  then show ?thesis using s(1) run by auto
qed

lemma brelse_run:
  assumes "quiet s" and "b_busy (bufs s ! b)"
  shows "brelse b s = Done () (woken (ChanBuf b) (upd_buf b (\<lambda>x. x\<lparr>b_busy := False\<rparr>) (binsert b (bunlink b s))))"
  using assms by (simp add: brelse_def run_simps acquire_quiet crit_simps wakeup_run release_quiet)

lemma bread_miss:
  assumes inv: "cache_inv s" and m: "mru s xs" and n: "\<not> cached n s" and run: "bread 1 n s = Done b t"
    and xs: "set xs = {..<NBUF}"
  shows "find (\<lambda>c. \<not> b_busy (bufs s ! c) \<and> \<not> b_dirty (bufs s ! c)) (rev xs) = Some b \<and> t = fetched b n s"
proof -
  have q: "quiet s" and ok: "bufs_ok s" using inv by (auto simp: cache_inv_def)
  have len: "length xs < Suc NBUF" using distinct_card [of xs] m xs by (simp add: mru_def)
  let ?P = "\<lambda>b. b_dev (bufs s ! b) = 1 \<and> b_blockno (bufs s ! b) = n"
  let ?F = "\<lambda>b. \<not> b_busy (bufs s ! b) \<and> \<not> b_dirty (bufs s ! b)"
  note sc = mru_scan_next [OF m len, of ?P] mru_scan_prev [OF m len, of ?F]
  have no: "find ?P xs = None"
    using n xs unfolding cached_def find_None_iff by (auto simp: baddr_of_def)
  obtain c u where "bread 1 n s = Done c (fetched c n s)"
    using bread_Done [OF inv run] bread_run [OF inv, of n] by blast
  then have t: "t = fetched b n s" using run by auto
  show ?thesis
  proof (cases "find ?F (rev xs)")
    case None
    then show ?thesis
      using run q sc no by (simp add: bread_def bget_def bget_loop_def bget_recycle_def run_simps
          acquire_quiet crit_simps release_quiet)
  next
    case (Some c)
    then have "c = b"
      using run q sc no by (auto simp: bread_def bget_def bget_loop_def bget_recycle_def run_simps
          acquire_quiet crit_simps release_quiet split: outcome.splits)
    then show ?thesis using Some t by simp
  qed
qed

text \<open>
  C17 (functional). The replacement policy is least recently used. A miss recycles the last
  buffer of the use order that is neither busy nor dirty and leaves the order alone; a release
  moves its buffer to the front of the order.
\<close>

theorem bcache_lru:
  assumes inv: "cache_inv s" and m: "mru s xs" "set xs = {..<NBUF}" and n: "\<not> cached n s"
    and run: "bread 1 n s = Done b t" and rel: "brelse b t = Done () u"
  shows "find (\<lambda>c. \<not> b_busy (bufs s ! c) \<and> \<not> b_dirty (bufs s ! c)) (rev xs) = Some b \<and> mru t xs \<and>
     mru u (b # remove1 b xs)"
proof -
  have f: "find (\<lambda>c. \<not> b_busy (bufs s ! c) \<and> \<not> b_dirty (bufs s ! c)) (rev xs) = Some b"
    and t: "t = fetched b n s" using bread_miss [OF inv m(1) n run m(2)] by auto
  have b: "b \<in> set xs" using find_SomeD [OF f] by simp
  have mt: "mru t xs" using m(1) t by (simp add: mru_def fetched_def upd_buf_def)
  have "quiet t" "b_busy (bufs t ! b)"
    using inv t b m(2) bufs_okD(1) [of s] by (auto simp: cache_inv_def fetched_def)
  then have "u = woken (ChanBuf b) (upd_buf b (\<lambda>x. x\<lparr>b_busy := False\<rparr>) (binsert b (bunlink b t)))"
    using rel brelse_run [of t b] by simp
  then have "mru u (b # remove1 b xs)"
    using mru_touch [OF mt b] by (simp add: mru_def woken_def upd_buf_def)
  then show ?thesis using f mt by blast
qed

theorem bcache_lru_witness:
  "\<exists>(s :: caches) t b u. bread 1 7 s = Done b t \<and> brelse b t = Done () u \<and> b = 0 \<and>
     mru s (rev [0..<NBUF]) \<and> mru u (0 # remove1 0 (rev [0..<NBUF]))"
proof -
  obtain s :: caches where s: "cache_inv s" "bheld s = Map.empty" "bdirty s = {}" "disksize s = 1000"
    "bufs s = replicate NBUF unused_buf" "mru s (rev [0..<NBUF])"
    using binit_wp [OF small_cache_boot(1-3)] small_cache_boot(4) by (auto simp: wp_iff)
  have "readable (cobs s) 7" using s by (simp add: readable_def cobs_def NBUF_def)
  then obtain b t where rd: "bread 1 7 s = Done b t" using bcache.rd_total [of s 7] s by auto
  have t: "cache_inv t" "bheld t b = Some (1, 7)" "bview t = bview s" "diskc t = diskc s" "bdirty t = {}"
    using bcache.rd_law [OF s(1) rd] s by (auto simp: cobs_def)
  have "bview s (1, 7) = diskc s (1, 7)" by (rule cache_inv_clean [OF s(1)]) (use s in simp_all)
  then obtain u where rl: "brelse b t = Done () u"
    using brelse_wp [OF t(1,2)] t by (auto simp: wp_iff)
  have nc: "\<not> cached 7 s" using s(5) by (auto simp: cached_def unused_buf_def baddr_of_def)
  have "find (\<lambda>c. \<not> b_busy (bufs s ! c) \<and> \<not> b_dirty (bufs s ! c)) [0..<NBUF] = Some b \<and>
      mru u (b # remove1 b (rev [0..<NBUF]))"
    using bcache_lru [OF s(1,6) _ nc rd rl] by (auto simp: atLeast0LessThan)
  moreover have "find (\<lambda>c. \<not> b_busy (bufs s ! c) \<and> \<not> b_dirty (bufs s ! c)) [0..<NBUF] = Some 0"
    by (simp add: s(5) unused_buf_def zero_buf_def NBUF_def upt_conv_Cons)
  ultimately show ?thesis using rd rl s(6) by auto
qed



end
