(* ===== verification/Layout.thy ===== *)
theory Layout
  imports Kernel_Prelude
begin

text \<open>
  The on-disk structures of \<open>src/fs.h\<close> and the log header of \<open>src/log.c\<close> as the bytes they
  occupy in a block: little-endian integers, and for each structure the function that reads it
  from a block and the one that stores it, with the round trips between them.
\<close>

section \<open>Little-endian integers\<close>

primrec le_bytes :: "nat \<Rightarrow> nat \<Rightarrow> u8 list" where
  "le_bytes 0 v = []"
| "le_bytes (Suc n) v = of_nat (v mod 256) # le_bytes n (v div 256)"

primrec le_nat :: "u8 list \<Rightarrow> nat" where
  "le_nat [] = 0"
| "le_nat (b # bs) = unat b + 256 * le_nat bs"

lemma length_le_bytes [simp]: "length (le_bytes n v) = n"
  by (induction n arbitrary: v) auto

lemma le_nat_bytes: "le_nat (le_bytes n v) = v mod 256 ^ n"
proof (induction n arbitrary: v)
  case 0
  then show ?case by simp
next
  case (Suc n)
  have "unat (of_nat (v mod 256) :: u8) = v mod 256"
    by (simp add: unsigned_of_nat take_bit_eq_mod)
  then show ?case
    by (simp add: Suc mod_mult2_eq)
qed

lemma le_nat_bytes_id [simp]: "v < 256 ^ n \<Longrightarrow> le_nat (le_bytes n v) = v"
  by (simp add: le_nat_bytes)

lemma le_nat_bound: "le_nat bs < 256 ^ length bs"
proof (induction bs)
  case Nil
  then show ?case by simp
next
  case (Cons b bs)
  have "unat b < 256" using unsigned_less [of b] by simp
  then have "unat b + 256 * le_nat bs < 256 * (le_nat bs + 1)" by simp
  also have "\<dots> \<le> 256 * 256 ^ length bs" using Cons.IH by (intro mult_le_mono2) simp
  finally show ?case by simp
qed

lemma le_bytes_nat: "le_bytes (length bs) (le_nat bs) = bs"
proof (induction bs)
  case Nil
  then show ?case by simp
next
  case (Cons b bs)
  have b: "unat b < 256" using unsigned_less [of b] by simp
  then have "(unat b + 256 * le_nat bs) mod 256 = unat b" "(unat b + 256 * le_nat bs) div 256 = le_nat bs"
    by (simp_all add: mod_add_left_eq div_add1_eq)
  then show ?case using Cons by simp
qed

text \<open>An integer of \<open>n\<close> bytes at byte offset \<open>i\<close> of a block.\<close>

definition bslice :: "nat \<Rightarrow> nat \<Rightarrow> 'a list \<Rightarrow> 'a list" where
  "bslice i n xs = take n (drop i xs)"

definition getle :: "nat \<Rightarrow> nat \<Rightarrow> u8 list \<Rightarrow> nat" where
  "getle n i bs = le_nat (bslice i n bs)"

definition putle :: "nat \<Rightarrow> nat \<Rightarrow> nat \<Rightarrow> u8 list \<Rightarrow> u8 list" where
  "putle n i v bs = overwrite i (le_bytes n v) bs"

lemma length_bslice [simp]: "i + n \<le> length xs \<Longrightarrow> length (bslice i n xs) = n"
  by (simp add: bslice_def)

lemma nth_bslice [simp]: "i + n \<le> length xs \<Longrightarrow> j < n \<Longrightarrow> bslice i n xs ! j = xs ! (i + j)"
  by (simp add: bslice_def)

lemma slice_overwrite_same [simp]:
  "i + length ys \<le> length xs \<Longrightarrow> n = length ys \<Longrightarrow> bslice i n (overwrite i ys xs) = ys"
  by (simp add: bslice_def)

lemma slice_overwrite_other:
  assumes "i + n \<le> length xs" and "j + length ys \<le> length xs" and "i + n \<le> j \<or> j + length ys \<le> i"
  shows "bslice i n (overwrite j ys xs) = bslice i n xs"
  using assms by (intro nth_equalityI) (auto simp: nth_overwrite)

lemma slice_all [simp]: "length xs = n \<Longrightarrow> bslice 0 n xs = xs"
  by (simp add: bslice_def)

lemma length_putle [simp]: "i + n \<le> length bs \<Longrightarrow> length (putle n i v bs) = length bs"
  by (simp add: putle_def)

lemma getle_putle [simp]:
  "i + n \<le> length bs \<Longrightarrow> v < 256 ^ n \<Longrightarrow> getle n i (putle n i v bs) = v"
  by (simp add: getle_def putle_def)

lemma getle_putle_other:
  "i + n \<le> length bs \<Longrightarrow> j + m \<le> length bs \<Longrightarrow> i + n \<le> j \<or> j + m \<le> i \<Longrightarrow>
     getle n i (putle m j v bs) = getle n i bs"
  by (simp add: getle_def putle_def slice_overwrite_other)

lemma putle_getle [simp]: "i + n \<le> length bs \<Longrightarrow> putle n i (getle n i bs) bs = bs"
  using le_bytes_nat [of "bslice i n bs"]
  by (simp add: getle_def putle_def) (simp add: bslice_def overwrite_same_slice)

lemma getle_bound: "i + n \<le> length bs \<Longrightarrow> getle n i bs < 256 ^ n"
  using le_nat_bound [of "bslice i n bs"] by (simp add: getle_def)

text \<open>A C \<open>int\<close> read from four bytes, and the bytes of an \<open>int\<close>.\<close>

definition to_int32 :: "nat \<Rightarrow> int" where
  "to_int32 v = (if v < 2147483648 then int v else int v - 4294967296)"

lemma uint32_to_int32 [simp]: "v < 4294967296 \<Longrightarrow> uint32 (to_int32 v) = v"
  by (auto simp: uint32_def to_int32_def)

lemma to_int32_uint32: "- 2147483648 \<le> x \<Longrightarrow> x < 2147483648 \<Longrightarrow> to_int32 (uint32 x) = x"
proof (cases "0 \<le> x")
  case True
  moreover assume "x < 2147483648"
  ultimately show ?thesis by (simp add: uint32_def to_int32_def)
next
  case False
  moreover assume "- 2147483648 \<le> x"
  ultimately have "x mod 4294967296 = x + 4294967296"
    by (intro mod_pos_pos_trivial [THEN trans [OF mod_add_self2 [symmetric]]]) auto
  then show ?thesis using False \<open>- 2147483648 \<le> x\<close> by (simp add: uint32_def to_int32_def)
qed

section \<open>Structures\<close>

record superblock =
  sb_size :: nat
  sb_nblocks :: nat
  sb_ninodes :: nat
  sb_nlog :: nat
  sb_logstart :: nat
  sb_inodestart :: nat
  sb_bmapstart :: nat

definition get_sb :: "u8 list \<Rightarrow> superblock" where
  "get_sb bs = \<lparr>sb_size = getle 4 0 bs, sb_nblocks = getle 4 4 bs, sb_ninodes = getle 4 8 bs,
     sb_nlog = getle 4 12 bs, sb_logstart = getle 4 16 bs, sb_inodestart = getle 4 20 bs,
     sb_bmapstart = getle 4 24 bs\<rparr>"

definition put_sb :: "superblock \<Rightarrow> u8 list" where
  "put_sb sb = le_bytes 4 (sb_size sb) @ le_bytes 4 (sb_nblocks sb) @ le_bytes 4 (sb_ninodes sb) @
     le_bytes 4 (sb_nlog sb) @ le_bytes 4 (sb_logstart sb) @ le_bytes 4 (sb_inodestart sb) @
     le_bytes 4 (sb_bmapstart sb)"

definition NDIRECT :: nat where "NDIRECT = 12"

record dinode =
  di_type :: nat
  di_major :: nat
  di_minor :: nat
  di_nlink :: nat
  di_size :: nat
  di_addrs :: "nat list"

text \<open>An on-disk inode: four \<open>short\<close>s, the size and the block addresses, 64 bytes.\<close>

definition get_dinode :: "nat \<Rightarrow> u8 list \<Rightarrow> dinode" where
  "get_dinode i bs = \<lparr>di_type = getle 2 i bs, di_major = getle 2 (i + 2) bs,
     di_minor = getle 2 (i + 4) bs, di_nlink = getle 2 (i + 6) bs, di_size = getle 4 (i + 8) bs,
     di_addrs = map (\<lambda>k. getle 4 (i + 12 + 4 * k) bs) [0..<NDIRECT + 1]\<rparr>"

definition dinode_bytes :: "dinode \<Rightarrow> u8 list" where
  "dinode_bytes d = le_bytes 2 (di_type d) @ le_bytes 2 (di_major d) @ le_bytes 2 (di_minor d) @
     le_bytes 2 (di_nlink d) @ le_bytes 4 (di_size d) @ concat (map (le_bytes 4) (di_addrs d))"

definition put_dinode :: "nat \<Rightarrow> dinode \<Rightarrow> u8 list \<Rightarrow> u8 list" where
  "put_dinode i d bs = overwrite i (dinode_bytes d) bs"

text \<open>A directory entry: an inode number and a name padded with zeros to 14 bytes.\<close>

definition DIRSIZ :: nat where "DIRSIZ = 14"

record dirent =
  de_inum :: nat
  de_name :: "u8 list"

definition get_dirent :: "u8 list \<Rightarrow> dirent" where
  "get_dirent bs = \<lparr>de_inum = getle 2 0 bs, de_name = bslice 2 DIRSIZ bs\<rparr>"

definition put_dirent :: "dirent \<Rightarrow> u8 list" where
  "put_dirent d = le_bytes 2 (de_inum d) @ de_name d"

section \<open>Round trips\<close>

lemma slice_overwrite_in:
  assumes "i + length ys \<le> length xs" and "k + n \<le> length ys"
  shows "bslice (i + k) n (overwrite i ys xs) = bslice k n ys"
  using assms by (intro nth_equalityI) (auto simp: nth_overwrite)

lemma slice_append_left: "k + n \<le> length xs \<Longrightarrow> bslice k n (xs @ ys) = bslice k n xs"
  by (simp add: bslice_def)

lemma slice_append_right: "length xs \<le> k \<Longrightarrow> bslice k n (xs @ ys) = bslice (k - length xs) n ys"
  by (simp add: bslice_def)

lemma length_concat_le [simp]: "length (concat (map (le_bytes m) xs)) = m * length xs"
  by (induction xs) auto

lemma slice_concat_le:
  "k < length xs \<Longrightarrow> bslice (m * k) m (concat (map (le_bytes m) xs)) = le_bytes m (xs ! k)"
proof (induction xs arbitrary: k)
  case Nil
  then show ?case by simp
next
  case (Cons x xs)
  then show ?case
    by (cases k) (simp_all add: slice_append_left slice_append_right)
qed

lemma concat_slices:
  "m * n \<le> length xs \<Longrightarrow> concat (map (\<lambda>k. bslice (m * k) m xs) [0..<n]) = take (m * n) xs"
proof (induction n)
  case 0
  then show ?case by simp
next
  case (Suc n)
  have "take (m * n + m) xs = take (m * n) xs @ take m (drop (m * n) xs)"
    by (simp add: take_add)
  then show ?case using Suc by (simp add: bslice_def add.commute)
qed

definition wf_dinode :: "dinode \<Rightarrow> bool" where
  "wf_dinode d \<longleftrightarrow> di_type d < 65536 \<and> di_major d < 65536 \<and> di_minor d < 65536 \<and>
     di_nlink d < 65536 \<and> di_size d < 4294967296 \<and> length (di_addrs d) = NDIRECT + 1 \<and>
     (\<forall>a \<in> set (di_addrs d). a < 4294967296)"

lemma length_dinode_bytes: "length (di_addrs d) = NDIRECT + 1 \<Longrightarrow> length (dinode_bytes d) = 64"
  by (simp add: dinode_bytes_def NDIRECT_def)

lemma length_put_dinode [simp]:
  "wf_dinode d \<Longrightarrow> i + 64 \<le> length bs \<Longrightarrow> length (put_dinode i d bs) = length bs"
  by (simp add: put_dinode_def wf_dinode_def length_dinode_bytes)

lemma get_put_dinode:
  assumes w: "wf_dinode d" and i: "i + 64 \<le> length bs"
  shows "get_dinode i (put_dinode i d bs) = d"
proof -
  have l: "length (dinode_bytes d) = 64" using w by (simp add: wf_dinode_def length_dinode_bytes)
  have f: "bslice (i + k) n (put_dinode i d bs) = bslice k n (dinode_bytes d)" if "k + n \<le> 64" for k n
    unfolding put_dinode_def by (rule slice_overwrite_in) (use that i l in simp_all)
  have s0: "bslice i 2 (put_dinode i d bs) = bslice 0 2 (dinode_bytes d)" using f [of 0 2] by simp
  have a: "bslice (i + 12 + 4 * k) 4 (put_dinode i d bs) = le_bytes 4 (di_addrs d ! k)" if "k < 13" for k
  proof -
    have "bslice (i + 12 + 4 * k) 4 (put_dinode i d bs) = bslice (12 + 4 * k) 4 (dinode_bytes d)"
      using f [of "12 + 4 * k" 4] that by (simp add: add.assoc)
    also have "\<dots> = bslice (4 * k) 4 (concat (map (le_bytes 4) (di_addrs d)))"
      unfolding dinode_bytes_def by (simp add: slice_append_right)
    also have "\<dots> = le_bytes 4 (di_addrs d ! k)"
      by (rule slice_concat_le) (use that w in \<open>simp add: wf_dinode_def NDIRECT_def\<close>)
    finally show ?thesis .
  qed
  have "map (\<lambda>k. getle 4 (i + 12 + 4 * k) (put_dinode i d bs)) [0..<NDIRECT + 1] = di_addrs d"
    using w by (intro nth_equalityI) (auto simp: getle_def a wf_dinode_def NDIRECT_def)
  then show ?thesis
    using w f [of 2 2] f [of 4 2] f [of 6 2] f [of 8 4] s0
    by (simp add: get_dinode_def getle_def wf_dinode_def)
       (simp add: dinode_bytes_def slice_append_left slice_append_right)
qed

lemma get_put_dinode_other:
  assumes w: "wf_dinode d" and i: "i + 64 \<le> length bs" "j + 64 \<le> length bs" "i + 64 \<le> j \<or> j + 64 \<le> i"
  shows "get_dinode j (put_dinode i d bs) = get_dinode j bs"
proof -
  have l: "length (dinode_bytes d) = 64" using w by (simp add: wf_dinode_def length_dinode_bytes)
  have "bslice (j + k) n (put_dinode i d bs) = bslice (j + k) n bs" if "k + n \<le> 64" for k n
    unfolding put_dinode_def by (rule slice_overwrite_other) (use that i l in auto)
  from this [of 0 2] this [of 2 2] this [of 4 2] this [of 6 2] this [of 8 4]
    this [of "12 + 4 * _" 4]
  show ?thesis by (auto simp: get_dinode_def getle_def NDIRECT_def add.assoc)
qed

lemma wf_get_dinode: "i + 64 \<le> length bs \<Longrightarrow> wf_dinode (get_dinode i bs)"
  using getle_bound [of i 2 bs] getle_bound [of "i + 2" 2 bs] getle_bound [of "i + 4" 2 bs]
    getle_bound [of "i + 6" 2 bs] getle_bound [of "i + 8" 4 bs]
    getle_bound [of "i + 12 + 4 * _" 4 bs]
  by (auto simp: wf_dinode_def get_dinode_def NDIRECT_def)

lemma getle_dinode_put:
  "i + n \<le> length bs \<Longrightarrow> le_bytes n (getle n i bs) = bslice i n bs"
  using le_bytes_nat [of "bslice i n bs"] by (simp add: getle_def)

lemma take_bslice: "take (m + n) (drop i xs) = bslice i m xs @ take n (drop (i + m) xs)"
  by (simp add: bslice_def take_add add.commute)

lemma put_get_dinode:
  assumes i: "i + 64 \<le> length bs"
  shows "put_dinode i (get_dinode i bs) bs = bs"
proof -
  have m: "map (\<lambda>k. le_bytes 4 (getle 4 (i + 12 + 4 * k) bs)) [0..<13] = map (\<lambda>k. bslice (4 * k) 4 (drop (i + 12) bs)) [0..<13]"
    using i by (intro map_cong) (auto simp: getle_dinode_put bslice_def add.commute add.assoc)
  have "map (le_bytes 4) (di_addrs (get_dinode i bs)) = map (\<lambda>k. bslice (4 * k) 4 (drop (i + 12) bs)) [0..<13]"
    using m by (simp add: get_dinode_def NDIRECT_def comp_def)
  then have "concat (map (le_bytes 4) (di_addrs (get_dinode i bs))) = take 52 (drop (i + 12) bs)"
    using concat_slices [of 4 13 "drop (i + 12) bs"] i by simp
  moreover have "take 64 (drop i bs) = bslice i 2 bs @ bslice (i + 2) 2 bs @ bslice (i + 4) 2 bs @ bslice (i + 6) 2 bs @
      bslice (i + 8) 4 bs @ take 52 (drop (i + 12) bs)"
    using take_bslice [of 2 62 i bs] take_bslice [of 2 60 "i + 2" bs] take_bslice [of 2 58 "i + 4" bs]
      take_bslice [of 2 56 "i + 6" bs] take_bslice [of 4 52 "i + 8" bs]
    by (simp add: add.commute del: add_2_eq_Suc add_2_eq_Suc')
  ultimately have "dinode_bytes (get_dinode i bs) = take 64 (drop i bs)"
    using i by (simp add: dinode_bytes_def) (simp add: get_dinode_def getle_dinode_put)
  then show ?thesis using i by (simp add: put_dinode_def overwrite_same_slice)
qed

definition wf_sb :: "superblock \<Rightarrow> bool" where
  "wf_sb sb \<longleftrightarrow> (\<forall>x \<in> {sb_size sb, sb_nblocks sb, sb_ninodes sb, sb_nlog sb, sb_logstart sb,
     sb_inodestart sb, sb_bmapstart sb}. x < 4294967296)"

lemma get_put_sb: "wf_sb sb \<Longrightarrow> get_sb (put_sb sb @ rest) = sb"
  by (simp add: get_sb_def put_sb_def getle_def slice_append_left slice_append_right wf_sb_def)

lemma get_put_dirent: "de_inum d < 65536 \<Longrightarrow> length (de_name d) = DIRSIZ \<Longrightarrow> get_dirent (put_dirent d) = d"
  by (simp add: get_dirent_def put_dirent_def getle_def slice_append_left slice_append_right)

lemma put_get_dirent: "length bs = 16 \<Longrightarrow> put_dirent (get_dirent bs) = bs"
  by (simp add: get_dirent_def put_dirent_def getle_dinode_put DIRSIZ_def)
     (simp add: bslice_def)

lemma length_put_dirent: "length (de_name d) = DIRSIZ \<Longrightarrow> length (put_dirent d) = 16"
  by (simp add: put_dirent_def DIRSIZ_def)

end
