(* ===== verification/Log.thy ===== *)
theory Log
  imports Bio Layout
begin

text \<open>
  The write-ahead log of \<open>src/log.c\<close>, with the reader of the super block it needs from
  \<open>src/fs.c\<close>: transactions, group commit, and recovery after a crash.
\<close>

section \<open>State\<close>

definition MAXOPBLOCKS :: nat where "MAXOPBLOCKS = 10"
definition LOGSIZE :: nat where "LOGSIZE = 30"

record logheader =
  lh_n :: int
  lh_block :: "int list"

record logdata =
  lg_start :: int
  lg_size :: int
  lg_outstanding :: int
  lg_committing :: bool
  lg_dev :: int
  lg_lh :: logheader

record logs = caches +
  klog :: logdata

definition upd_lh :: "(logheader \<Rightarrow> logheader) \<Rightarrow> 'z logs_scheme \<Rightarrow> 'z logs_scheme" where
  "upd_lh f s = s\<lparr>klog := (klog s)\<lparr>lg_lh := f (lg_lh (klog s))\<rparr>\<rparr>"

lemma crit_logs [crit_simps]:
  "klog (crit ls s) = klog s" "klog_update f (crit ls s) = crit ls (klog_update f s)"
  "upd_lh g (crit ls s) = crit ls (upd_lh g s)"
  by (simp_all add: crit_def mycpu_def upd_lh_def)

lemma quiet_logs [simp]: "quiet (klog_update f s) = quiet s" "quiet (upd_lh g s) = quiet s"
  by (simp_all add: quiet_def mycpu_def upd_lh_def)

section \<open>Operations\<close>

definition readsb :: "int \<Rightarrow> ('z caches_scheme, superblock) km" where
  "readsb dev =
     kbind (bread (uint32 dev) 1) (\<lambda>bp.
     kbind (gets (bdata bp)) (\<lambda>d.
     kthen (brelse bp) (
     ret (get_sb d))))"

definition install_block :: "nat \<Rightarrow> ('z logs_scheme, unit) km" where
  "install_block tail =
     kbind (gets klog) (\<lambda>lg.
     kbind (bread (uint32 (lg_dev lg)) (uint32 (lg_start lg + int tail + 1))) (\<lambda>lbuf.
     kthen (fault_if (tail \<ge> LOGSIZE) ''log.lh.block'') (
     kbind (bread (uint32 (lg_dev lg)) (uint32 (lh_block (lg_lh lg) ! tail))) (\<lambda>dbuf.
     kbind (gets (bdata lbuf)) (\<lambda>d.
     kthen (modify (bstore dbuf (\<lambda>_. d))) (
     kthen (bwrite dbuf) (
     kthen (brelse lbuf) (
     brelse dbuf))))))))"

definition install_trans :: "('z logs_scheme, unit) km" where
  "install_trans =
     kbind (gets (\<lambda>s. lh_n (lg_lh (klog s)))) (\<lambda>n.
     kfor [0..<nat n] install_block)"

definition read_head :: "('z logs_scheme, unit) km" where
  "read_head =
     kbind (gets klog) (\<lambda>lg.
     kbind (bread (uint32 (lg_dev lg)) (uint32 (lg_start lg))) (\<lambda>b.
     kbind (gets (bdata b)) (\<lambda>d.
     let n = to_int32 (getle 4 0 d) in
     kthen (modify (upd_lh (\<lambda>h. h\<lparr>lh_n := n\<rparr>))) (
     kthen (kfor [0..<nat n] (\<lambda>i.
       kthen (fault_if (i \<ge> LOGSIZE) ''log.lh.block'') (
       modify (upd_lh (\<lambda>h. h\<lparr>lh_block := (lh_block h)[i := to_int32 (getle 4 (4 + 4 * i) d)]\<rparr>))))) (
     brelse b)))))"

definition write_head :: "('z logs_scheme, unit) km" where
  "write_head =
     kbind (gets klog) (\<lambda>lg.
     kbind (bread (uint32 (lg_dev lg)) (uint32 (lg_start lg))) (\<lambda>b.
     let h = lg_lh lg in
     kthen (modify (bstore b (putle 4 0 (uint32 (lh_n h))))) (
     kthen (kfor [0..<nat (lh_n h)] (\<lambda>i.
       kthen (fault_if (i \<ge> LOGSIZE) ''log.lh.block'') (
       modify (bstore b (putle 4 (4 + 4 * i) (uint32 (lh_block h ! i))))))) (
     kthen (bwrite b) (
     brelse b)))))"

definition recover_from_log :: "('z logs_scheme, unit) km" where
  "recover_from_log =
     kthen read_head (
     kthen install_trans (
     kthen (modify (upd_lh (\<lambda>h. h\<lparr>lh_n := 0\<rparr>))) (
     write_head)))"

definition initlog :: "int \<Rightarrow> ('z logs_scheme, unit) km" where
  "initlog dev =
     kthen (panic_if (4 + 4 * LOGSIZE \<ge> BSIZE) ''initlog: too big logheader'') (
     kthen (initlock LogLock) (
     kbind (readsb dev) (\<lambda>sb.
     kthen (modify (\<lambda>s. s\<lparr>klog := (klog s)\<lparr>lg_start := to_int32 (sb_logstart sb),
        lg_size := to_int32 (sb_nlog sb), lg_dev := dev\<rparr>\<rparr>)) (
     recover_from_log))))"

text \<open>\<open>begin_op\<close> waits in a loop; a process that wakes up goes round it again.\<close>

definition begin_op_loop :: "('z logs_scheme, unit) km" where
  "begin_op_loop =
     kbind (gets klog) (\<lambda>lg.
     if lg_committing lg then sleep (Some ChanLog) (Some LogLock)
     else if lh_n (lg_lh lg) + (lg_outstanding lg + 1) * int MAXOPBLOCKS > int LOGSIZE
     then sleep (Some ChanLog) (Some LogLock)
     else kthen (modify (\<lambda>s. s\<lparr>klog := (klog s)\<lparr>lg_outstanding := lg_outstanding lg + 1\<rparr>\<rparr>)) (
          release LogLock))"

definition begin_op :: "('z logs_scheme, unit) km" where
  "begin_op = kthen (acquire LogLock) begin_op_loop"

definition begin_op_resume :: "bool \<Rightarrow> ('z logs_scheme, unit) km" where
  "begin_op_resume ie = kthen (sleep_resume ie LogLock) begin_op_loop"

definition write_log_block :: "nat \<Rightarrow> ('z logs_scheme, unit) km" where
  "write_log_block tail =
     kbind (gets klog) (\<lambda>lg.
     kbind (bread (uint32 (lg_dev lg)) (uint32 (lg_start lg + int tail + 1))) (\<lambda>to.
     kthen (fault_if (tail \<ge> LOGSIZE) ''log.lh.block'') (
     kbind (bread (uint32 (lg_dev lg)) (uint32 (lh_block (lg_lh lg) ! tail))) (\<lambda>from.
     kbind (gets (bdata from)) (\<lambda>d.
     kthen (modify (bstore to (\<lambda>_. d))) (
     kthen (bwrite to) (
     kthen (brelse from) (
     brelse to))))))))"

definition write_log :: "('z logs_scheme, unit) km" where
  "write_log =
     kbind (gets (\<lambda>s. lh_n (lg_lh (klog s)))) (\<lambda>n.
     kfor [0..<nat n] write_log_block)"

definition commit :: "('z logs_scheme, unit) km" where
  "commit =
     kbind (gets (\<lambda>s. lh_n (lg_lh (klog s)))) (\<lambda>n.
     kwhen (n > 0) (
       kthen write_log (
       kthen write_head (
       kthen install_trans (
       kthen (modify (upd_lh (\<lambda>h. h\<lparr>lh_n := 0\<rparr>))) (
       write_head))))))"

definition end_op :: "('z logs_scheme, unit) km" where
  "end_op =
     kthen (acquire LogLock) (
     kthen (modify (\<lambda>s. s\<lparr>klog := (klog s)\<lparr>lg_outstanding := lg_outstanding (klog s) - 1\<rparr>\<rparr>)) (
     kbind (gets klog) (\<lambda>lg.
     kthen (panic_if (lg_committing lg) ''log.committing'') (
     let do_commit = (lg_outstanding lg = 0) in
     kthen (if do_commit
            then modify (\<lambda>s. s\<lparr>klog := (klog s)\<lparr>lg_committing := True\<rparr>\<rparr>)
            else wakeup ChanLog) (
     kthen (release LogLock) (
     kwhen do_commit (
       kthen commit (
       kthen (acquire LogLock) (
       kthen (modify (\<lambda>s. s\<lparr>klog := (klog s)\<lparr>lg_committing := False\<rparr>\<rparr>)) (
       kthen (wakeup ChanLog) (
       release LogLock)))))))))))"

text \<open>The slot \<open>log_write\<close> uses: that of the block if it is already in the log, else the next one.\<close>

definition log_slot :: "logheader \<Rightarrow> nat \<Rightarrow> nat" where
  "log_slot h blockno =
     (case first_index (\<lambda>x. uint32 x = blockno) (take (nat (lh_n h)) (lh_block h)) of
        Some i \<Rightarrow> i
      | None \<Rightarrow> nat (lh_n h))"

definition log_write :: "nat \<Rightarrow> ('z logs_scheme, unit) km" where
  "log_write b =
     kbind (gets klog) (\<lambda>lg.
     kthen (panic_if (lh_n (lg_lh lg) \<ge> int LOGSIZE \<or> lh_n (lg_lh lg) \<ge> lg_size lg - 1)
       ''too big a transaction'') (
     kthen (panic_if (lg_outstanding lg < 1) ''log_write outside of trans'') (
     kthen (acquire LogLock) (
     kbind (gets (\<lambda>s. b_blockno (bufs s ! b))) (\<lambda>bn.
     let i = log_slot (lg_lh lg) bn in
     kthen (modify (upd_lh (\<lambda>h. h\<lparr>lh_block := (lh_block h)[i := to_int32 bn]\<rparr>))) (
     kthen (kwhen (int i = lh_n (lg_lh lg)) (modify (upd_lh (\<lambda>h. h\<lparr>lh_n := lh_n h + 1\<rparr>)))) (
     kthen (modify (upd_buf b (\<lambda>x. x\<lparr>b_dirty := True\<rparr>))) (
     release LogLock))))))))"

section \<open>The log header in its block\<close>

definition put_head :: "logheader \<Rightarrow> block \<Rightarrow> block" where
  "put_head h d = fold (\<lambda>i. putle 4 (4 + 4 * i) (uint32 (lh_block h ! i))) [0..<nat (lh_n h)]
     (putle 4 0 (uint32 (lh_n h)) d)"

definition get_head :: "block \<Rightarrow> logheader \<Rightarrow> logheader" where
  "get_head d h = (let n = to_int32 (getle 4 0 d) in
     h\<lparr>lh_n := n, lh_block := map (\<lambda>i. if i < nat n then to_int32 (getle 4 (4 + 4 * i) d) else lh_block h ! i)
        [0..<length (lh_block h)]\<rparr>)"

lemma length_put_entries:
  "4 + 4 * n \<le> length d \<Longrightarrow> length (fold (\<lambda>i. putle 4 (4 + 4 * i) (f i)) [0..<n] d) = length d"
  by (induction n) auto

lemma getle_put_entries:
  assumes "4 + 4 * n \<le> length d" and "\<And>i. f i < 4294967296"
  shows "getle 4 0 (fold (\<lambda>i. putle 4 (4 + 4 * i) (f i)) [0..<n] d) = getle 4 0 d \<and>
     (\<forall>i < n. getle 4 (4 + 4 * i) (fold (\<lambda>i. putle 4 (4 + 4 * i) (f i)) [0..<n] d) = f i)"
  using assms(1)
proof (induction n)
  case 0
  then show ?case by simp
next
  case (Suc n)
  let ?d = "fold (\<lambda>i. putle 4 (4 + 4 * i) (f i)) [0..<n] d"
  have l: "length ?d = length d" using Suc.prems by (simp add: length_put_entries)
  have "getle 4 0 (putle 4 (4 + 4 * n) (f n) ?d) = getle 4 0 ?d"
    by (rule getle_putle_other) (use Suc.prems l in auto)
  moreover have "getle 4 (4 + 4 * i) (putle 4 (4 + 4 * n) (f n) ?d) = getle 4 (4 + 4 * i) ?d" if "i < n" for i
    by (rule getle_putle_other) (use Suc.prems l that in auto)
  moreover have "getle 4 (4 + 4 * n) (putle 4 (4 + 4 * n) (f n) ?d) = f n"
    by (rule getle_putle) (use Suc.prems l assms(2) in auto)
  ultimately show ?case
    using Suc by (auto simp: less_Suc_eq)
qed

lemma length_put_head [simp]:
  "length d = BSIZE \<Longrightarrow> nat (lh_n h) \<le> LOGSIZE \<Longrightarrow> length (put_head h d) = BSIZE"
  unfolding put_head_def by (subst length_put_entries) (simp_all add: BSIZE_def LOGSIZE_def)

definition wf_head :: "logheader \<Rightarrow> bool" where
  "wf_head h \<longleftrightarrow> 0 \<le> lh_n h \<and> lh_n h \<le> int LOGSIZE \<and> length (lh_block h) = LOGSIZE \<and>
     (\<forall>x \<in> set (lh_block h). - 2147483648 \<le> x \<and> x < 2147483648)"

lemma head_entries:
  assumes "wf_head h" and "length d = BSIZE"
  shows "getle 4 0 (put_head h d) = nat (lh_n h) \<and>
     (\<forall>i < nat (lh_n h). getle 4 (4 + 4 * i) (put_head h d) = uint32 (lh_block h ! i))"
proof -
  let ?n = "nat (lh_n h)"
  have n: "?n \<le> LOGSIZE" using assms(1) by (auto simp: wf_head_def)
  have u: "uint32 (lh_n h) = ?n" using assms(1) by (simp add: wf_head_def uint32_def LOGSIZE_def)
  have l: "4 + 4 * ?n \<le> length (putle 4 0 ?n d)" using assms(2) n by (simp add: BSIZE_def LOGSIZE_def)
  have "getle 4 0 (putle 4 0 ?n d) = ?n"
    by (rule getle_putle) (use assms(2) n in \<open>simp_all add: BSIZE_def LOGSIZE_def\<close>)
  then show ?thesis
    unfolding put_head_def u using getle_put_entries [OF l uint32_bound] by simp
qed

text \<open>Reading back the header that was stored.\<close>

lemma get_put_head:
  assumes h: "wf_head h" and d: "length d = BSIZE" and g: "length (lh_block g) = LOGSIZE"
  shows "lh_n (get_head (put_head h d) g) = lh_n h \<and>
     take (nat (lh_n h)) (lh_block (get_head (put_head h d) g)) = take (nat (lh_n h)) (lh_block h) \<and>
     length (lh_block (get_head (put_head h d) g)) = LOGSIZE"
proof -
  note e = head_entries [OF h d]
  have n: "to_int32 (nat (lh_n h)) = lh_n h" using h by (auto simp: wf_head_def to_int32_def LOGSIZE_def)
  have b: "to_int32 (uint32 (lh_block h ! i)) = lh_block h ! i" if "i < nat (lh_n h)" for i
    using h that nth_mem [of i "lh_block h"] by (intro to_int32_uint32) (auto simp: wf_head_def)
  show ?thesis
    using e h g b by (auto simp: get_head_def Let_def n wf_head_def intro!: nth_equalityI)
qed

lemma kfor_modify:
  "(\<And>i. i \<in> set xs \<Longrightarrow> \<not> P i) \<Longrightarrow>
     kfor xs (\<lambda>i. kthen (fault_if (P i) e) (modify (g i))) = modify (fold g xs)"
  by (induction xs) (auto simp: fun_eq_iff run_simps)

lemma bstore_comp: "bstore b g (bstore b f s) = bstore b (\<lambda>d. g (f d)) s"
  by (cases "b < length (bufs s)") (simp_all add: bstore_def upd_buf_def list_update_beyond)

lemma fold_bstore: "fold (\<lambda>i. bstore b (f i)) xs (bstore b g s) = bstore b (\<lambda>d. fold f xs (g d)) s"
  by (induction xs arbitrary: g) (simp_all add: bstore_comp)

text \<open>What \<open>write_head\<close> and \<open>read_head\<close> do, with their loops gone.\<close>

lemma write_head_eq:
  fixes s :: "'z logs_scheme"
  assumes "nat (lh_n (lg_lh (klog s))) \<le> LOGSIZE"
  shows "write_head s = kbind (bread (uint32 (lg_dev (klog s))) (uint32 (lg_start (klog s)))) (\<lambda>b.
     kthen (modify (bstore b (put_head (lg_lh (klog s))))) (kthen (bwrite b) (brelse b))) s"
proof -
  let ?h = "lg_lh (klog s)"
  have "kthen (modify (bstore b (putle 4 0 (uint32 (lh_n ?h))))) (
     kthen (kfor [0..<nat (lh_n ?h)] (\<lambda>i. kthen (fault_if (i \<ge> LOGSIZE) ''log.lh.block'') (
       modify (bstore b (putle 4 (4 + 4 * i) (uint32 (lh_block ?h ! i))))))) (kthen (bwrite b) (brelse b))) =
     (kthen (modify (bstore b (put_head ?h))) (kthen (bwrite b) (brelse b)) :: ('z logs_scheme, unit) km)" for b
    by (subst kfor_modify, use assms in simp)
      (simp add: fun_eq_iff run_simps fold_bstore put_head_def [abs_def])
  then show ?thesis
    by (simp add: write_head_def run_kbind [of "gets klog"] run_gets Let_def)
qed

section \<open>Sequences of block writes\<close>

definition wrs :: "(nat \<times> block) list \<Rightarrow> cview \<Rightarrow> cview" where
  "wrs ps v = fold (\<lambda>(n, x). written n x) ps v"

definition on1 :: "(nat \<times> block) list \<Rightarrow> (baddr \<times> block) list" where
  "on1 ps = map (\<lambda>(n, x). ((1, n), x)) ps"

lemma wrs_simps [simp]:
  "wrs [] v = v" "wrs (ps @ qs) v = wrs qs (wrs ps v)" "wrs ((n, x) # ps) v = wrs ps (written n x v)"
  by (simp_all add: wrs_def)

lemma on1_simps [simp]:
  "on1 [] = []" "on1 (ps @ qs) = on1 ps @ on1 qs" "on1 ((n, x) # ps) = ((1, n), x) # on1 ps"
  "length (on1 ps) = length ps"
  by (simp_all add: on1_def)

lemma take_on1: "take k (on1 ps) = on1 (take k ps)"
  by (simp add: on1_def take_map)

lemma wrs_eq:
  "wrs ps v = v\<lparr>v_blocks := apply_writes (on1 ps) (v_blocks v), v_dirty := v_dirty v - Pair 1 ` fst ` set ps,
     v_trace := v_trace v @ on1 ps, v_disk := apply_writes (on1 ps) (v_disk v)\<rparr>"
proof (induction ps rule: rev_induct)
  case Nil
  then show ?case by simp
next
  case (snoc p ps)
  obtain n x where "p = (n, x)" by (cases p)
  then show ?case by (intro cview.equality) (auto simp: snoc written_def fun_upd_def)
qed

lemma apply_writes_other: "a \<notin> fst ` set ws \<Longrightarrow> apply_writes ws d a = d a"
  by (induction ws arbitrary: d) auto

lemma fst_on1 [simp]: "fst ` set (on1 ps) = Pair 1 ` fst ` set ps"
  by (force simp: on1_def)

lemma apply_on1_other: "a \<notin> Pair 1 ` fst ` set ps \<Longrightarrow> apply_writes (on1 ps) d a = d a"
  by (rule apply_writes_other) simp

lemma apply_on1_nth:
  "distinct (map fst ps) \<Longrightarrow> i < length ps \<Longrightarrow> apply_writes (on1 ps) d (1, fst (ps ! i)) = snd (ps ! i)"
proof (induction ps arbitrary: d i)
  case Nil
  then show ?case by simp
next
  case (Cons p ps)
  obtain n x where p: "p = (n, x)" by (cases p)
  show ?case
  proof (cases i)
    case 0
    have "(1, n) \<notin> Pair (1 :: nat) ` fst ` set ps" using Cons.prems p by auto
    then show ?thesis using 0 p by (simp add: apply_on1_other)
  next
    case (Suc j)
    then show ?thesis using Cons p by simp
  qed
qed

lemma cframe_klog: "cframe s t \<Longrightarrow> klog t = klog s"
  by (auto simp: cframe_def)

lemma cobs_upd_lh [simp]: "cobs (upd_lh f s) = cobs s" "disksize (upd_lh f s) = disksize s"
  using cache_abs_cong [of "upd_lh f s" s] by (simp_all add: cobs_def upd_lh_def diskc_def)

lemma cache_inv_upd_lh [simp]: "cache_inv (upd_lh f s) = cache_inv s"
proof -
  have "bufs_ok (upd_lh f s) = bufs_ok s"
    by (rule cache_abs_cong [THEN conjunct2, THEN conjunct2, THEN conjunct2])
      (simp_all add: upd_lh_def diskc_def)
  then show ?thesis by (simp add: cache_inv_def mru_def) (simp add: upd_lh_def)
qed

lemma cframe_upd_lh: "cframe s t \<Longrightarrow> cframe (upd_lh f s) (upd_lh f t)"
proof -
  assume "cframe s t"
  then obtain pt bs dw nx pv where
    t: "t = s\<lparr>ptable := pt, bufs := bs, dwrites := dw, bnext := nx, bprev := pv\<rparr>"
      "list_all2 stirred (ptable s) pt" unfolding cframe_def by blast
  show ?thesis
    unfolding cframe_def
    by (rule exI [of _ pt], rule exI [of _ bs], rule exI [of _ dw], rule exI [of _ nx], rule exI [of _ pv])
      (simp add: t upd_lh_def)
qed

section \<open>The log on disk\<close>

text \<open>
  The log lies on the disk: header block \<open>logstart\<close>, then the data blocks. The blocks of a
  transaction are distinct, lie outside the log, and are fewer than the buffers of the cache, which
  commit needs one more of.
\<close>

definition logstart :: "logdata \<Rightarrow> nat" where
  "logstart lg = nat (lg_start lg)"

definition log_geom :: "logdata \<Rightarrow> nat \<Rightarrow> bool" where
  "log_geom lg ds \<longleftrightarrow> lg_dev lg = 1 \<and> 0 \<le> lg_start lg \<and> 1 \<le> lg_size lg \<and>
     lg_start lg + lg_size lg \<le> int ds \<and> ds < 2147483648"

definition log_area :: "logdata \<Rightarrow> nat set" where
  "log_area lg = {logstart lg..<logstart lg + nat (lg_size lg)}"

definition tblocks :: "logheader \<Rightarrow> nat list" where
  "tblocks h = map uint32 (take (nat (lh_n h)) (lh_block h))"

definition trans_ok :: "logdata \<Rightarrow> nat \<Rightarrow> bool" where
  "trans_ok lg ds \<longleftrightarrow> log_geom lg ds \<and> wf_head (lg_lh lg) \<and> lh_n (lg_lh lg) < lg_size lg \<and>
     lh_n (lg_lh lg) < int NBUF \<and> distinct (tblocks (lg_lh lg)) \<and>
     (\<forall>b \<in> set (tblocks (lg_lh lg)). b < ds \<and> b \<notin> log_area lg)"

lemma length_tblocks: "wf_head h \<Longrightarrow> length (tblocks h) = nat (lh_n h)"
  by (auto simp: tblocks_def wf_head_def)

lemma nth_tblocks: "wf_head h \<Longrightarrow> i < nat (lh_n h) \<Longrightarrow> tblocks h ! i = uint32 (lh_block h ! i)"
  by (auto simp: tblocks_def wf_head_def)

lemma log_geom_uint:
  assumes "log_geom lg ds" and "int i < lg_size lg"
  shows "uint32 (lg_dev lg) = 1" "uint32 (lg_start lg + int i) = logstart lg + i"
    "logstart lg + i < ds" "logstart lg + i \<in> log_area lg"
  using assms by (auto simp: log_geom_def logstart_def uint32_def log_area_def nat_add_distrib)

lemma write_head_wp:
  assumes inv: "cache_inv s" and g: "log_geom (klog s) (disksize s)" and h: "wf_head (lg_lh (klog s))"
    and r: "readable (cobs s) (logstart (klog s))"
  shows "wp write_head (\<lambda>_ t. cache_inv t \<and> cframe s t \<and>
     cobs t = written (logstart (klog s)) (put_head (lg_lh (klog s)) (bview s (1, logstart (klog s)))) (cobs s)) s"
proof -
  note u = log_geom_uint [OF g, of 0]
  have n: "nat (lh_n (lg_lh (klog s))) \<le> LOGSIZE" using h by (auto simp: wf_head_def)
  have vb: "v_blocks (cobs s) = bview s" by (simp add: cobs_def)
  have z: "uint32 (lg_start (klog s)) = logstart (klog s)" "uint32 (lg_dev (klog s)) = 1"
    "logstart (klog s) < disksize s" using u g by (auto simp: log_geom_def)
  have "wp (kbind (bread 1 (logstart (klog s))) (\<lambda>b. kthen (modify (bstore b (put_head (lg_lh (klog s)))))
      (kthen (bwrite b) (brelse b)))) (\<lambda>_ t. cache_inv t \<and> cframe s t \<and>
     cobs t = written (logstart (klog s)) (put_head (lg_lh (klog s)) (bview s (1, logstart (klog s)))) (cobs s)) s"
    using bcache.update_block [OF inv z(3) r, of "put_head (lg_lh (klog s))"] inv n
    by (simp add: vb cache_inv_def)
  then show ?thesis
    unfolding wp_def write_head_eq [OF n] z by simp
qed

section \<open>Commit, step by step\<close>

definition logps :: "logdata \<Rightarrow> (baddr \<Rightarrow> block) \<Rightarrow> (nat \<times> block) list" where
  "logps lg V = map (\<lambda>i. (logstart lg + 1 + i, V (1, tblocks (lg_lh lg) ! i))) [0..<nat (lh_n (lg_lh lg))]"

definition instps :: "logdata \<Rightarrow> (baddr \<Rightarrow> block) \<Rightarrow> (nat \<times> block) list" where
  "instps lg V = map (\<lambda>i. (tblocks (lg_lh lg) ! i, V (1, logstart lg + 1 + i))) [0..<nat (lh_n (lg_lh lg))]"

lemma fault_if_False: "kthen (fault_if False e) m = m"
  by (simp add: fun_eq_iff run_simps)

lemma length_logps [simp]:
  "length (logps lg V) = nat (lh_n (lg_lh lg))" "length (instps lg V) = nat (lh_n (lg_lh lg))"
  by (simp_all add: logps_def instps_def)

lemma take_Suc_map: "i < n \<Longrightarrow> take (Suc i) (map f [0..<n]) = take i (map f [0..<n]) @ [f i]"
  by (simp add: take_Suc_conv_app_nth)

lemma fst_logps: "trans_ok lg ds \<Longrightarrow> fst ` set (take k (logps lg V)) \<subseteq> log_area lg"
  by (auto simp: logps_def trans_ok_def log_area_def wf_head_def dest!: in_set_takeD)

lemma fst_instps:
  assumes "trans_ok lg ds"
  shows "fst ` set (take k (instps lg V)) = set (take k (tblocks (lg_lh lg)))"
proof -
  have "map fst (instps lg V) = tblocks (lg_lh lg)"
    using assms by (auto simp: instps_def trans_ok_def length_tblocks intro!: nth_equalityI)
  then show ?thesis by (metis set_map take_map)
qed

lemma trans_blocks:
  assumes "trans_ok lg ds" and "i < nat (lh_n (lg_lh lg))"
  shows "uint32 (lg_dev lg) = 1" "uint32 (lg_start lg + int i + 1) = logstart lg + 1 + i"
    "logstart lg + 1 + i < ds" "logstart lg + 1 + i \<in> log_area lg"
    "uint32 (lh_block (lg_lh lg) ! i) = tblocks (lg_lh lg) ! i" "tblocks (lg_lh lg) ! i < ds"
    "tblocks (lg_lh lg) ! i \<notin> log_area lg" "\<not> LOGSIZE \<le> i"
proof -
  have g: "log_geom lg ds" and w: "wf_head (lg_lh lg)" and i: "int (i + 1) < lg_size lg"
    using assms by (auto simp: trans_ok_def)
  note u = log_geom_uint [OF g i]
  show "uint32 (lg_dev lg) = 1" "uint32 (lg_start lg + int i + 1) = logstart lg + 1 + i"
    "logstart lg + 1 + i < ds" "logstart lg + 1 + i \<in> log_area lg"
    using u by (simp_all add: ac_simps)
  show "uint32 (lh_block (lg_lh lg) ! i) = tblocks (lg_lh lg) ! i" using nth_tblocks [OF w assms(2)] by simp
  have "tblocks (lg_lh lg) ! i \<in> set (tblocks (lg_lh lg))" using assms(2) length_tblocks [OF w] by simp
  then show "tblocks (lg_lh lg) ! i < ds" "tblocks (lg_lh lg) ! i \<notin> log_area lg"
    using assms(1) unfolding trans_ok_def by blast+
  show "\<not> LOGSIZE \<le> i" using assms(2) w by (auto simp: wf_head_def)
qed

lemma finite_tblocks [simp]: "finite (Pair (1 :: nat) ` set (tblocks h))"
  by simp

lemma card_tblocks:
  assumes "trans_ok lg ds" and "D \<subseteq> Pair (1 :: nat) ` set (tblocks (lg_lh lg))"
  shows "card D < NBUF"
proof -
  have "card D \<le> card (Pair (1 :: nat) ` set (tblocks (lg_lh lg)))" by (rule card_mono [OF _ assms(2)]) simp
  also have "\<dots> \<le> length (tblocks (lg_lh lg))" by (metis card_image_le card_length finite_set le_trans)
  also have "\<dots> < NBUF" using assms(1) length_tblocks [of "lg_lh lg"] by (auto simp: trans_ok_def NBUF_def)
  finally show ?thesis .
qed

lemma write_log_wp:
  assumes inv: "cache_inv s" and ok: "trans_ok (klog s) (disksize s)"
    and held: "bheld s = Map.empty" and dirty: "bdirty s = Pair 1 ` set (tblocks (lg_lh (klog s)))"
  shows "wp write_log (\<lambda>_ t. cache_inv t \<and> cframe s t \<and> cobs t = wrs (logps (klog s) (bview s)) (cobs s)) s"
proof -
  let ?lg = "klog s" and ?V = "bview s"
  let ?ps = "logps ?lg ?V" and ?n = "nat (lh_n (lg_lh ?lg))"
  let ?I = "\<lambda>i t. cache_inv t \<and> cframe s t \<and> cobs t = wrs (take i ?ps) (cobs s)"
  have "wp (kfor [0..<?n] write_log_block) (\<lambda>_ t. ?I ?n t) s"
  proof (rule wp_kfor [where I = ?I])
    show "?I 0 s" using inv by simp
  next
    fix i t assume "i < length [0..<?n]" and t: "?I i t"
    then have i: "i < ?n" by simp
    note b = trans_blocks [OF ok i]
    let ?N = "logstart ?lg + 1 + i" and ?M = "tblocks (lg_lh ?lg) ! i"
    have k: "klog t = ?lg" and ds: "disksize t = disksize s" using t cframe_klog cframe_same by blast+
    have M: "?M \<in> set (tblocks (lg_lh ?lg))" using i length_tblocks [of "lg_lh ?lg"] ok by (auto simp: trans_ok_def)
    have obs: "v_held (cobs t) = Map.empty" "v_dirty (cobs t) = Pair 1 ` set (tblocks (lg_lh ?lg))"
      "v_blocks (cobs t) (1, ?M) = ?V (1, ?M)"
    proof -
      have f: "fst ` set (take i ?ps) \<subseteq> log_area ?lg" by (rule fst_logps [OF ok])
      show "v_held (cobs t) = Map.empty" using t held by (simp add: wrs_eq cobs_def)
      have "Pair 1 ` set (tblocks (lg_lh ?lg)) \<inter> Pair (1 :: nat) ` fst ` set (take i ?ps) = {}"
        using f ok by (auto simp: trans_ok_def)
      then show "v_dirty (cobs t) = Pair 1 ` set (tblocks (lg_lh ?lg))"
        using t dirty by (auto simp: wrs_eq cobs_def)
      have "(1, ?M) \<notin> Pair (1 :: nat) ` fst ` set (take i ?ps)" using f b(7) by auto
      then show "v_blocks (cobs t) (1, ?M) = ?V (1, ?M)" using t by (simp add: wrs_eq cobs_def apply_on1_other)
    qed
    have r1: "readable (cobs t) ?N" using obs card_tblocks [OF ok subset_refl] by (simp add: readable_def)
    have MN: "?M \<noteq> ?N" using b(4,7) by auto
    have r2: "readable ((cobs t)\<lparr>v_held := [0 \<mapsto> (1, ?N)]\<rparr>) ?M" using obs M MN by (simp add: readable_def)
    have eq: "write_log_block i t = kbind (bread 1 ?N) (\<lambda>d. kbind (bread 1 ?M) (\<lambda>l.
       kbind (gets (bdata l)) (\<lambda>x. kthen (modify (bstore d (\<lambda>_. x))) (
       kthen (bwrite d) (kthen (brelse l) (brelse d)))))) t"
      by (simp only: write_log_block_def run_kbind [of "gets klog"] run_gets outcome.case k b(1,2,5,8) fault_if_False)
    have "wp (kbind (bread 1 ?N) (\<lambda>d. kbind (bread 1 ?M) (\<lambda>l.
       kbind (gets (bdata l)) (\<lambda>x. kthen (modify (bstore d (\<lambda>_. x))) (
       kthen (bwrite d) (kthen (brelse l) (brelse d)))))))
      (\<lambda>_ u. cache_inv u \<and> cframe t u \<and> cobs u = written ?N (v_blocks (cobs t) (1, ?M)) (cobs t)) t"
      by (rule bcache.copy_block_to [where H = "[0 \<mapsto> (1, ?N)]"])
        (use t b ds MN r1 r2 obs in auto)
    then have "wp (write_log_block i) (\<lambda>_ u. cache_inv u \<and> cframe t u \<and> cobs u = written ?N (?V (1, ?M)) (cobs t)) t"
      unfolding wp_def eq obs(3) .
    then show "wp (write_log_block ([0..<?n] ! i)) (\<lambda>_ u. ?I (Suc i) u) t"
      using i t by (auto simp: logps_def take_Suc_map elim!: wp_mono intro: cframe_trans)
  qed simp
  then show ?thesis
    unfolding write_log_def wp_kbind wp_gets by simp
qed

lemma install_trans_wp:
  assumes inv: "cache_inv s" and ok: "trans_ok (klog s) (disksize s)" and held: "bheld s = Map.empty"
    and dirty: "bdirty s = Pair 1 ` set (tblocks (lg_lh (klog s))) \<or> bdirty s = {}"
  shows "wp install_trans (\<lambda>_ t. cache_inv t \<and> cframe s t \<and> cobs t = wrs (instps (klog s) (bview s)) (cobs s)) s"
proof -
  let ?lg = "klog s" and ?V = "bview s"
  let ?ps = "instps ?lg ?V" and ?n = "nat (lh_n (lg_lh ?lg))" and ?tb = "tblocks (lg_lh (klog s))"
  let ?I = "\<lambda>i t. cache_inv t \<and> cframe s t \<and> cobs t = wrs (take i ?ps) (cobs s)"
  have "wp (kfor [0..<?n] install_block) (\<lambda>_ t. ?I ?n t) s"
  proof (rule wp_kfor [where I = ?I])
    show "?I 0 s" using inv by simp
  next
    fix i t assume "i < length [0..<?n]" and t: "?I i t"
    then have i: "i < ?n" by simp
    note b = trans_blocks [OF ok i]
    let ?M = "logstart ?lg + 1 + i" and ?N = "?tb ! i"
    have k: "klog t = ?lg" and ds: "disksize t = disksize s" using t cframe_klog cframe_same by blast+
    have len: "i < length ?tb" using i length_tblocks [of "lg_lh ?lg"] ok by (auto simp: trans_ok_def)
    have f: "fst ` set (take i ?ps) = set (take i ?tb)" by (rule fst_instps [OF ok])
    have held': "v_held (cobs t) = Map.empty" using t held by (simp add: wrs_eq cobs_def)
    have dirty': "v_dirty (cobs t) = bdirty s - Pair 1 ` set (take i ?tb)"
      using t f by (simp add: wrs_eq cobs_def)
    have "(1, ?M) \<notin> Pair (1 :: nat) ` set (take i ?tb)"
      using b(4) ok by (auto simp: trans_ok_def dest!: in_set_takeD)
    then have blk: "v_blocks (cobs t) (1, ?M) = ?V (1, ?M)"
      using t f by (simp add: wrs_eq cobs_def apply_on1_other)
    have sub: "v_dirty (cobs t) \<subseteq> Pair 1 ` set ?tb" using dirty dirty' by auto
    have r1: "readable (cobs t) ?M"
      using held' card_tblocks [OF ok sub] by (simp add: readable_def)
    have MN: "?M \<noteq> ?N" using b(4,7) by auto
    have "?N \<notin> set (take i ?tb)"
      using ok len by (auto simp: trans_ok_def in_set_conv_nth distinct_conv_nth)
    then have "(1, ?N) \<in> v_dirty (cobs t) \<or> v_dirty (cobs t) = {}"
      using dirty dirty' nth_mem [OF len] by auto
    then have r2: "readable ((cobs t)\<lparr>v_held := [0 \<mapsto> (1, ?M)]\<rparr>) ?N"
      using MN by (auto simp: readable_def NBUF_def)
    have eq: "install_block i t = kbind (bread 1 ?M) (\<lambda>l. kbind (bread 1 ?N) (\<lambda>d.
       kbind (gets (bdata l)) (\<lambda>x. kthen (modify (bstore d (\<lambda>_. x))) (
       kthen (bwrite d) (kthen (brelse l) (brelse d)))))) t"
      by (simp only: install_block_def run_kbind [of "gets klog"] run_gets outcome.case k b(1,2,5,8) fault_if_False)
    have "wp (kbind (bread 1 ?M) (\<lambda>l. kbind (bread 1 ?N) (\<lambda>d.
       kbind (gets (bdata l)) (\<lambda>x. kthen (modify (bstore d (\<lambda>_. x))) (
       kthen (bwrite d) (kthen (brelse l) (brelse d)))))))
      (\<lambda>_ u. cache_inv u \<and> cframe t u \<and> cobs u = written ?N (v_blocks (cobs t) (1, ?M)) (cobs t)) t"
      by (rule bcache.copy_block [where H = "[0 \<mapsto> (1, ?M)]"])
        (use t b ds MN r1 r2 held' in auto)
    then have "wp (install_block i) (\<lambda>_ u. cache_inv u \<and> cframe t u \<and> cobs u = written ?N (?V (1, ?M)) (cobs t)) t"
      unfolding wp_def eq blk .
    then show "wp (install_block ([0..<?n] ! i)) (\<lambda>_ u. ?I (Suc i) u) t"
      using i t by (auto simp: instps_def take_Suc_map elim!: wp_mono intro: cframe_trans)
  qed simp
  then show ?thesis
    unfolding install_trans_def wp_kbind wp_gets by simp
qed

text \<open>The header's entries are the loop of \<open>read_head\<close>, run at once.\<close>

lemma fold_upd_lh: "fold (\<lambda>i. upd_lh (f i)) xs s = upd_lh (fold f xs) s"
  by (induction xs arbitrary: s) (simp_all add: upd_lh_def)

lemma fold_entries:
  assumes "n \<le> length (lh_block h)"
  shows "fold (\<lambda>i h. h\<lparr>lh_block := (lh_block h)[i := f i]\<rparr>) [0..<n] h =
     h\<lparr>lh_block := map (\<lambda>i. if i < n then f i else lh_block h ! i) [0..<length (lh_block h)]\<rparr>"
  using assms
proof (induction n)
  case 0
  then show ?case by (simp add: map_nth)
next
  case (Suc n)
  have "(map (\<lambda>i. if i < n then f i else lh_block h ! i) [0..<length (lh_block h)])[n := f n] =
      map (\<lambda>i. if i < Suc n then f i else lh_block h ! i) [0..<length (lh_block h)]"
    using Suc.prems by (auto intro!: nth_equalityI simp: nth_list_update less_Suc_eq)
  then show ?case using Suc by simp
qed

lemma read_head_wp:
  assumes inv: "cache_inv s" and g: "log_geom (klog s) (disksize s)"
    and r: "readable (cobs s) (logstart (klog s))"
    and l: "length (lh_block (lg_lh (klog s))) = LOGSIZE"
    and n: "to_int32 (getle 4 0 (bview s (1, logstart (klog s)))) \<le> int LOGSIZE"
  shows "wp read_head (\<lambda>_ t. cache_inv t \<and>
     cframe (upd_lh (get_head (bview s (1, logstart (klog s)))) s) t \<and> cobs t = cobs s) s"
proof -
  let ?S = "logstart (klog s)" and ?d = "bview s (1, logstart (klog s))"
  let ?n = "to_int32 (getle 4 0 ?d)"
  note u = log_geom_uint [OF g, of 0]
  have z: "uint32 (lg_start (klog s)) = ?S" "uint32 (lg_dev (klog s)) = 1"
    "?S < disksize s" using u g by (auto simp: log_geom_def)
  have loop: "kthen (modify (upd_lh (\<lambda>h. h\<lparr>lh_n := ?n\<rparr>))) (
     kthen (kfor [0..<nat ?n] (\<lambda>i. kthen (fault_if (i \<ge> LOGSIZE) ''log.lh.block'') (
       modify (upd_lh (\<lambda>h. h\<lparr>lh_block := (lh_block h)[i := to_int32 (getle 4 (4 + 4 * i) ?d)]\<rparr>))))) m) t =
     kthen (modify (upd_lh (get_head ?d))) m t" if "klog t = klog s" for m t
  proof -
    have "fold (\<lambda>i. upd_lh (\<lambda>h. h\<lparr>lh_block := (lh_block h)[i := to_int32 (getle 4 (4 + 4 * i) ?d)]\<rparr>)) [0..<nat ?n]
        (upd_lh (\<lambda>h. h\<lparr>lh_n := ?n\<rparr>) t) = upd_lh (get_head ?d) t"
      using n l that unfolding fold_upd_lh
      by (simp add: upd_lh_def fold_entries get_head_def Let_def)
    then show ?thesis
      using n by (subst kfor_modify) (auto simp: run_simps)
  qed
  show ?thesis
    unfolding read_head_def wp_kbind [of "gets klog"] wp_gets z wp_kbind [of "bread 1 ?S"]
  proof (rule bcache.rd_wp [OF inv z(3) r])
    fix b t
    assume b: "v_held (cobs s) b = None" and t: "cache_inv t" "cframe s t"
      "cobs t = (cobs s)\<lparr>v_held := (v_held (cobs s))(b \<mapsto> (1, ?S))\<rparr>"
    have d: "bdata b t = ?d" using bcache.data_law [OF t(1), of b "(1, ?S)"] t(3) by (simp add: cobs_def)
    have k: "klog t = klog s" using t(2) by (rule cframe_klog)
    have c: "(1, ?S) \<in> v_dirty (cobs s) \<or> v_blocks (cobs s) (1, ?S) = v_disk (cobs s) (1, ?S)"
      by (rule bcache.held_clean [OF inv]) (use r in \<open>simp add: readable_def\<close>)
    let ?t = "upd_lh (get_head ?d) t"
    have "wp (brelse b) (\<lambda>_ u. cache_inv u \<and> cframe (upd_lh (get_head ?d) s) u \<and> cobs u = cobs s) ?t"
      by (rule bcache.rl_wp [of ?t b "(1, ?S)"])
        (use t b c cframe_upd_lh [OF t(2)] in \<open>auto simp: fun_upd_idem intro: cframe_trans\<close>)
    then have "wp (kthen (modify (upd_lh (get_head ?d))) (brelse b))
        (\<lambda>_ u. cache_inv u \<and> cframe (upd_lh (get_head ?d) s) u \<and> cobs u = cobs s) t"
      by (simp only: wp_kthen wp_modify)
    then show "wp (kbind (gets (bdata b)) (\<lambda>d. let n = to_int32 (getle 4 0 d) in
       kthen (modify (upd_lh (\<lambda>h. h\<lparr>lh_n := n\<rparr>))) (
       kthen (kfor [0..<nat n] (\<lambda>i. kthen (fault_if (i \<ge> LOGSIZE) ''log.lh.block'') (
         modify (upd_lh (\<lambda>h. h\<lparr>lh_block := (lh_block h)[i := to_int32 (getle 4 (4 + 4 * i) d)]\<rparr>))))) (
       brelse b))))
      (\<lambda>_ u. cache_inv u \<and> cframe (upd_lh (get_head ?d) s) u \<and> cobs u = cobs s) t"
      unfolding wp_kbind wp_gets d Let_def unfolding wp_def loop [OF k] .
  qed
qed

text \<open>The writes of a commit, in order, and those of a recovery.\<close>

definition log_addrs :: "logdata \<Rightarrow> baddr set" where
  "log_addrs lg = Pair 1 ` log_area lg"

definition clear_head :: "logheader \<Rightarrow> logheader" where
  "clear_head h = h\<lparr>lh_n := 0\<rparr>"

definition commit_writes :: "logdata \<Rightarrow> (baddr \<Rightarrow> block) \<Rightarrow> (nat \<times> block) list" where
  "commit_writes lg V =
     (let S = logstart lg; h = lg_lh lg; H = put_head h (V (1, S)) in
      logps lg V @ [(S, H)] @ map (\<lambda>b. (b, V (1, b))) (tblocks h) @ [(S, put_head (clear_head h) H)])"

definition recover_writes :: "logdata \<Rightarrow> (baddr \<Rightarrow> block) \<Rightarrow> (nat \<times> block) list" where
  "recover_writes lg d =
     (let S = logstart lg; h = get_head (d (1, S)) (lg_lh lg) in
      instps (lg\<lparr>lg_lh := h\<rparr>) d @ [(S, put_head (clear_head h) (d (1, S)))])"

lemma wf_clear_head: "wf_head h \<Longrightarrow> wf_head (clear_head h)"
  by (simp add: wf_head_def clear_head_def)

lemma upd_lh_clear: "(\<lambda>h. h\<lparr>lh_n := 0\<rparr>) = clear_head"
  by (simp add: fun_eq_iff clear_head_def)

lemma klog_upd_lh [simp]: "klog (upd_lh f s) = (klog s)\<lparr>lg_lh := f (lg_lh (klog s))\<rparr>"
  by (simp add: upd_lh_def)

lemma geom_lh [simp]:
  "logstart (lg\<lparr>lg_lh := h\<rparr>) = logstart lg" "log_geom (lg\<lparr>lg_lh := h\<rparr>) ds = log_geom lg ds"
  "log_area (lg\<lparr>lg_lh := h\<rparr>) = log_area lg" "log_addrs (lg\<lparr>lg_lh := h\<rparr>) = log_addrs lg"
  by (simp_all add: logstart_def log_geom_def log_area_def log_addrs_def)

text \<open>Erasing the header: the tail both a commit and a recovery end with.\<close>

lemma erase_head_wp:
  assumes t: "cache_inv t" "bheld t = Map.empty" and g: "log_geom (klog t) (disksize t)"
    and w: "wf_head (lg_lh (klog t))" and c: "card (bdirty t) < NBUF"
  shows "wp (kthen (modify (upd_lh (\<lambda>h. h\<lparr>lh_n := 0\<rparr>))) write_head)
     (\<lambda>_ u. cache_inv u \<and> cframe (upd_lh clear_head t) u \<and>
       cobs u = written (logstart (klog t)) (put_head (clear_head (lg_lh (klog t))) (bview t (1, logstart (klog t)))) (cobs t)) t"
proof -
  have b: "bview (upd_lh clear_head t) = bview t"
    using cobs_upd_lh(1) [of clear_head t] by (simp add: cobs_def)
  have "readable (cobs (upd_lh clear_head t)) (logstart (klog t))"
    unfolding cobs_upd_lh using t(2) c by (simp add: readable_def cobs_def)
  then show ?thesis
    using write_head_wp [of "upd_lh clear_head t"] t(1) g w b
    by (simp add: wp_kthen wp_modify upd_lh_clear wf_clear_head)
qed

lemma bview_cobs: "cobs t = v \<Longrightarrow> bview t = v_blocks v \<and> bheld t = v_held v \<and> bdirty t = v_dirty v \<and>
    diskc t = v_disk v \<and> dwrites t = v_trace v"
  by (auto simp: cobs_def)

lemma recover_wp:
  assumes inv: "cache_inv s" and held: "bheld s = Map.empty" and dirty: "bdirty s = {}"
    and l: "length (lh_block (lg_lh (klog s))) = LOGSIZE"
    and h: "h = get_head (bview s (1, logstart (klog s))) (lg_lh (klog s))"
    and ok: "trans_ok ((klog s)\<lparr>lg_lh := h\<rparr>) (disksize s)"
  shows "wp recover_from_log (\<lambda>_ t. cache_inv t \<and> cobs t = wrs (recover_writes (klog s) (bview s)) (cobs s) \<and>
     cframe (upd_lh (\<lambda>_. clear_head h) s) t) s"
proof -
  let ?S = "logstart (klog s)" and ?lg = "(klog s)\<lparr>lg_lh := h\<rparr>"
  have g: "log_geom (klog s) (disksize s)" and w: "wf_head h" using ok by (auto simp: trans_ok_def)
  have r: "readable (cobs s) ?S" using held dirty by (simp add: readable_def cobs_def NBUF_def)
  have n: "to_int32 (getle 4 0 (bview s (1, ?S))) \<le> int LOGSIZE"
    using w h by (simp add: wf_head_def get_head_def Let_def)
  let ?s1 = "upd_lh (get_head (bview s (1, ?S))) s"
  have R: "wp (kthen install_trans (kthen (modify (upd_lh (\<lambda>h. h\<lparr>lh_n := 0\<rparr>))) write_head))
     (\<lambda>_ t. cache_inv t \<and> cobs t = wrs (recover_writes (klog s) (bview s)) (cobs s) \<and>
       cframe (upd_lh (\<lambda>_. clear_head h) s) t) t"
    if t: "cache_inv t" "cframe ?s1 t" "cobs t = cobs s" for t
  proof -
    have k: "klog t = ?lg" and ds: "disksize t = disksize s"
      using cframe_klog [OF t(2)] cframe_same [OF t(2)] h by simp_all
    note e = bview_cobs [OF t(3)]
    have e': "bview t = bview s" "bheld t = Map.empty" "bdirty t = {}" using e held dirty by (auto simp: cobs_def)
    have "wp install_trans (\<lambda>_ u. cache_inv u \<and> cframe t u \<and> cobs u = wrs (instps (klog t) (bview t)) (cobs t)) t"
      by (rule install_trans_wp) (use t k ds ok e' in auto)
    then show ?thesis
      unfolding wp_kthen [of install_trans]
    proof (rule wp_mono)
      fix a u
      assume u: "cache_inv u \<and> cframe t u \<and> cobs u = wrs (instps (klog t) (bview t)) (cobs t)"
      have ku: "klog u = ?lg" and du: "disksize u = disksize s"
        using u cframe_klog cframe_same k ds by metis+
      have ob: "cobs u = wrs (instps ?lg (bview s)) (cobs s)" using u k e' t(3) by simp
      note eu = bview_cobs [OF ob, unfolded wrs_eq, simplified]
      have S: "?S \<notin> fst ` set (instps ?lg (bview s))"
        using fst_instps [OF ok, of "nat (lh_n h)" "bview s"] ok log_geom_uint(4) [OF g, of 0] g
        by (auto simp: trans_ok_def log_geom_def dest!: in_set_takeD)
      have bu: "bview u (1, ?S) = bview s (1, ?S)"
        using eu S by (subst eu [THEN conjunct1]) (subst apply_on1_other, auto simp: cobs_def)
      have "wp (kthen (modify (upd_lh (\<lambda>h. h\<lparr>lh_n := 0\<rparr>))) write_head)
         (\<lambda>_ v. cache_inv v \<and> cframe (upd_lh clear_head u) v \<and>
           cobs v = written (logstart (klog u)) (put_head (clear_head (lg_lh (klog u))) (bview u (1, logstart (klog u)))) (cobs u)) u"
        by (rule erase_head_wp) (use u ku du g w eu e' dirty held in \<open>auto simp: NBUF_def cobs_def\<close>)
      moreover have "cframe (upd_lh (\<lambda>_. clear_head h) s) (upd_lh clear_head u)"
      proof -
        have "cframe ?s1 u" using t(2) u cframe_trans by blast
        from cframe_upd_lh [OF this, of clear_head] show ?thesis by (simp add: upd_lh_def h)
      qed
      ultimately show "wp (kthen (modify (upd_lh (\<lambda>h. h\<lparr>lh_n := 0\<rparr>))) write_head)
         (\<lambda>_ t. cache_inv t \<and> cobs t = wrs (recover_writes (klog s) (bview s)) (cobs s) \<and>
           cframe (upd_lh (\<lambda>_. clear_head h) s) t) u"
        by (elim wp_mono) (use ku bu ob h in \<open>auto simp: recover_writes_def Let_def intro: cframe_trans\<close>)
    qed
  qed
  show ?thesis
    unfolding recover_from_log_def wp_kthen [of read_head]
    by (rule wp_mono [OF read_head_wp [OF inv g r l n]]) (use R in blast)
qed

lemma instps_V:
  assumes ok: "trans_ok lg ds" and "\<And>i. i < nat (lh_n (lg_lh lg)) \<Longrightarrow> W (1, logstart lg + 1 + i) = V (1, tblocks (lg_lh lg) ! i)"
  shows "instps lg W = map (\<lambda>b. (b, V (1, b))) (tblocks (lg_lh lg))"
  using assms by (intro nth_equalityI) (auto simp: instps_def trans_ok_def length_tblocks)

lemma logps_nth:
  assumes "i < nat (lh_n (lg_lh lg))"
  shows "apply_writes (on1 (logps lg V)) d (1, logstart lg + 1 + i) = V (1, tblocks (lg_lh lg) ! i)"
proof -
  have "distinct (map fst (logps lg V))"
    by (auto simp: logps_def distinct_map comp_def intro: inj_onI)
  from apply_on1_nth [OF this, of i d] assms show ?thesis by (simp add: logps_def)
qed

lemma head_not_logps: "(1, logstart lg) \<notin> Pair (1 :: nat) ` fst ` set (logps lg V)"
  by (auto simp: logps_def)

lemma head_in_area: "log_geom lg ds \<Longrightarrow> logstart lg \<in> log_area lg"
  by (auto simp: log_geom_def log_area_def)

lemma commit_wp:
  assumes inv: "cache_inv s" and ok: "trans_ok (klog s) (disksize s)" and held: "bheld s = Map.empty"
    and dirty: "bdirty s = Pair 1 ` set (tblocks (lg_lh (klog s)))" and n: "lh_n (lg_lh (klog s)) > 0"
  shows "wp commit (\<lambda>_ t. cache_inv t \<and> cobs t = wrs (commit_writes (klog s) (bview s)) (cobs s) \<and>
     cframe (upd_lh clear_head s) t) s"
proof -
  let ?lg = "klog s" and ?V = "bview s" and ?S = "logstart (klog s)" and ?tb = "tblocks (lg_lh (klog s))"
  let ?H = "put_head (lg_lh ?lg) (?V (1, ?S))"
  have g: "log_geom ?lg (disksize s)" and w: "wf_head (lg_lh ?lg)" using ok by (auto simp: trans_ok_def)
  let ?o1 = "wrs (logps ?lg ?V) (cobs s)"
  let ?o2 = "written ?S ?H ?o1"
  let ?o3 = "wrs (map (\<lambda>b. (b, ?V (1, b))) ?tb) ?o2"
  have S1: "(1, ?S) \<notin> Pair (1 :: nat) ` fst ` set (logps ?lg ?V)" by (rule head_not_logps)
  have b1: "v_blocks ?o1 (1, ?S) = ?V (1, ?S)"
    using apply_on1_other [OF S1, of ?V] by (simp add: wrs_eq cobs_def)
  have d1: "v_dirty ?o1 = Pair 1 ` set ?tb"
    using fst_logps [OF ok, of "length (logps ?lg ?V)" ?V] ok dirty by (auto simp: wrs_eq cobs_def trans_ok_def)
  have d2: "v_dirty ?o2 = Pair 1 ` set ?tb"
    using d1 ok head_in_area [OF g] by (auto simp: written_def trans_ok_def)
  have b2: "v_blocks ?o2 (1, ?S + 1 + i) = ?V (1, ?tb ! i)" if "i < nat (lh_n (lg_lh ?lg))" for i
    using that by (simp add: written_def wrs_eq cobs_def logps_nth [simplified])
  have b3: "v_blocks ?o3 (1, ?S) = ?H"
    using ok head_in_area [OF g] by (subst wrs_eq) (simp, subst apply_on1_other, auto simp: trans_ok_def written_def)
  have h0: "v_held ?o1 = Map.empty" "v_held ?o2 = Map.empty" "v_held ?o3 = Map.empty"
    using held by (simp_all add: wrs_eq written_def cobs_def)
  have step1: "wp write_log (\<lambda>_ t. cache_inv t \<and> cframe s t \<and> cobs t = ?o1) s"
    by (rule write_log_wp [OF inv ok held dirty])
  have step2: "wp write_head (\<lambda>_ t. cache_inv t \<and> cframe s t \<and> cobs t = ?o2) t"
    if t: "cache_inv t \<and> cframe s t \<and> cobs t = ?o1" for t
  proof -
    have k: "klog t = ?lg" "disksize t = disksize s" using t cframe_klog cframe_same by blast+
    have "bview t (1, ?S) = ?V (1, ?S)"
      using t b1 bview_cobs [of t ?o1] by simp
    moreover have "readable (cobs t) ?S" using t h0 d1 card_tblocks [OF ok subset_refl] by (simp add: readable_def)
    ultimately show ?thesis
      using write_head_wp [of t] t k g w by (auto elim!: wp_mono intro: cframe_trans)
  qed
  have step3: "wp install_trans (\<lambda>_ t. cache_inv t \<and> cframe s t \<and> cobs t = ?o3) t"
    if t: "cache_inv t \<and> cframe s t \<and> cobs t = ?o2" for t
  proof -
    have k: "klog t = ?lg" "disksize t = disksize s" using t cframe_klog cframe_same by blast+
    have e: "bview t = v_blocks ?o2" "bheld t = Map.empty" "bdirty t = Pair 1 ` set ?tb"
      using t h0 d2 by (simp_all add: bview_cobs [of t ?o2])
    have "instps ?lg (bview t) = map (\<lambda>b. (b, ?V (1, b))) ?tb"
      by (rule instps_V [OF ok]) (use e b2 in simp)
    then show ?thesis
      using install_trans_wp [of t] t k e ok by (auto elim!: wp_mono intro: cframe_trans)
  qed
  have step4: "wp (kthen (modify (upd_lh (\<lambda>h. h\<lparr>lh_n := 0\<rparr>))) write_head)
     (\<lambda>_ t. cache_inv t \<and> cobs t = written ?S (put_head (clear_head (lg_lh ?lg)) ?H) ?o3 \<and> cframe (upd_lh clear_head s) t) t"
    if t: "cache_inv t \<and> cframe s t \<and> cobs t = ?o3" for t
  proof -
    have k: "klog t = ?lg" "disksize t = disksize s" using t cframe_klog cframe_same by blast+
    have "v_dirty ?o3 = {}" using d2 by (subst wrs_eq) (auto simp: image_image)
    then have e: "bview t (1, ?S) = ?H" "bheld t = Map.empty" "bdirty t = {}"
      using t h0 b3 by (simp_all add: bview_cobs [of t ?o3])
    show ?thesis
      using erase_head_wp [of t] t k e g w cframe_upd_lh [of s t clear_head]
      by (auto elim!: wp_mono intro: cframe_trans simp: NBUF_def)
  qed
  have "wp (kthen write_log (kthen write_head (kthen install_trans
      (kthen (modify (upd_lh (\<lambda>h. h\<lparr>lh_n := 0\<rparr>))) write_head))))
     (\<lambda>_ t. cache_inv t \<and> cobs t = written ?S (put_head (clear_head (lg_lh ?lg)) ?H) ?o3 \<and> cframe (upd_lh clear_head s) t) s"
    unfolding wp_kthen [of write_log] wp_kthen [of write_head] wp_kthen [of install_trans]
    by (rule wp_mono [OF step1], rule wp_mono [OF step2], assumption, rule wp_mono [OF step3], assumption, erule step4)
  then show ?thesis
    using n by (simp add: commit_def wp_kbind wp_gets wp_kwhen commit_writes_def Let_def)
qed

section \<open>Crashes\<close>

text \<open>
  Two conditions a disk can be in with respect to the contents \<open>X\<close> of all blocks outside the
  log: it has them, and the log is empty; or the log holds a transaction whose
  installation gives them.
\<close>

definition settled :: "logdata \<Rightarrow> (baddr \<Rightarrow> block) \<Rightarrow> (baddr \<Rightarrow> block) \<Rightarrow> bool" where
  "settled lg d X \<longleftrightarrow> getle 4 0 (d (1, logstart lg)) = 0 \<and> (\<forall>a. a \<notin> log_addrs lg \<longrightarrow> d a = X a)"

definition redoable :: "logdata \<Rightarrow> (baddr \<Rightarrow> block) \<Rightarrow> (baddr \<Rightarrow> block) \<Rightarrow> bool" where
  "redoable lg d X \<longleftrightarrow>
     getle 4 0 (d (1, logstart lg)) = length (tblocks (lg_lh lg)) \<and>
     (\<forall>i < length (tblocks (lg_lh lg)).
        getle 4 (4 + 4 * i) (d (1, logstart lg)) = tblocks (lg_lh lg) ! i \<and>
        d (1, logstart lg + 1 + i) = X (1, tblocks (lg_lh lg) ! i)) \<and>
     (\<forall>a. a \<notin> log_addrs lg \<longrightarrow> a \<notin> Pair 1 ` set (tblocks (lg_lh lg)) \<longrightarrow> d a = X a)"

lemma fst_home: "fst ` set (map (\<lambda>b. (b, X b)) tb) = set tb"
  by force

lemma apply_home:
  fixes X :: "baddr \<Rightarrow> block"
  shows "b \<in> set tb \<Longrightarrow> distinct tb \<Longrightarrow> apply_writes (on1 (map (\<lambda>b. (b, X (1, b))) tb)) d (1, b) = X (1, b)"
proof -
  assume "b \<in> set tb" and d: "distinct tb"
  then obtain i where i: "i < length tb" "b = tb ! i" by (auto simp: in_set_conv_nth)
  have "distinct (map fst (map (\<lambda>b. (b, X (1, b))) tb))" using d by (simp add: comp_def)
  from apply_on1_nth [OF this, of i d] i show ?thesis by simp
qed

lemma redo_part:
  assumes ok: "trans_ok lg ds" and r: "redoable lg d X"
  shows "redoable lg (apply_writes (on1 (map (\<lambda>b. (b, X (1, b))) (take j (tblocks (lg_lh lg))))) d) X"
proof -
  let ?tb = "tblocks (lg_lh lg)"
  have g: "log_geom lg ds" using ok by (simp add: trans_ok_def)
  have nl: "b \<notin> set (take j ?tb)" if "b \<in> log_area lg" for b
    using ok that by (auto simp: trans_ok_def dest!: in_set_takeD)
  have f: "apply_writes (on1 (map (\<lambda>b. (b, X (1, b))) (take j ?tb))) d (1, b) = d (1, b)"
    if "b \<in> log_area lg" for b
    by (rule apply_on1_other, unfold fst_home) (use nl [OF that] in auto)
  have i: "logstart lg + 1 + i \<in> log_area lg" if "i < length ?tb" for i
    using trans_blocks(4) [OF ok] that ok by (auto simp: trans_ok_def length_tblocks)
  have "apply_writes (on1 (map (\<lambda>b. (b, X (1, b))) (take j ?tb))) d a = X a"
    if "a \<notin> log_addrs lg" "a \<notin> Pair 1 ` set ?tb" for a
  proof -
    have "a \<notin> Pair 1 ` fst ` set (map (\<lambda>b. (b, X (1, b))) (take j ?tb))"
      unfolding fst_home using that by (auto dest!: in_set_takeD)
    moreover have "d a = X a" using r that unfolding redoable_def by blast
    ultimately show ?thesis by (simp add: apply_on1_other)
  qed
  then show ?thesis
    using r f [OF head_in_area [OF g]] f [OF i] by (simp add: redoable_def)
qed

lemma redo_all:
  assumes ok: "trans_ok lg ds" and r: "redoable lg d X" and E: "getle 4 0 E = 0"
  shows "settled lg (apply_writes (on1 (map (\<lambda>b. (b, X (1, b))) (tblocks (lg_lh lg)) @ [(logstart lg, E)])) d) X"
proof -
  let ?tb = "tblocks (lg_lh lg)"
  have g: "log_geom lg ds" and dis: "distinct ?tb" using ok by (simp_all add: trans_ok_def)
  have S: "(1, logstart lg) \<in> log_addrs lg" using head_in_area [OF g] by (simp add: log_addrs_def)
  have "apply_writes (on1 (map (\<lambda>b. (b, X (1, b))) ?tb)) d a = X a" if "a \<notin> log_addrs lg" for a
  proof (cases "a \<in> Pair 1 ` set ?tb")
    case True
    then show ?thesis using apply_home [OF _ dis] by auto
  next
    case False
    then have "a \<notin> Pair 1 ` fst ` set (map (\<lambda>b. (b, X (1, b))) ?tb)" unfolding fst_home .
    moreover have "d a = X a" using r that False unfolding redoable_def by blast
    ultimately show ?thesis by (simp add: apply_on1_other)
  qed
  then show ?thesis using E S by (auto simp: settled_def)
qed

lemma redo_prefix:
  assumes ok: "trans_ok lg ds" and r: "redoable lg d X" and E: "getle 4 0 E = 0"
  shows "redoable lg (apply_writes (on1 (take j (map (\<lambda>b. (b, X (1, b))) (tblocks (lg_lh lg)) @ [(logstart lg, E)]))) d) X \<or>
     settled lg (apply_writes (on1 (take j (map (\<lambda>b. (b, X (1, b))) (tblocks (lg_lh lg)) @ [(logstart lg, E)]))) d) X"
proof (cases "j \<le> length (tblocks (lg_lh lg))")
  case True
  then show ?thesis using redo_part [OF ok r, of j] by (simp add: take_map)
next
  case False
  then show ?thesis using redo_all [OF ok r E] by simp
qed

lemma commit_prefix_old:
  assumes ok: "trans_ok lg ds" and d: "settled lg d d" and k: "k \<le> nat (lh_n (lg_lh lg))"
  shows "settled lg (apply_writes (on1 (take k (commit_writes lg V))) d) d"
proof -
  have t: "take k (commit_writes lg V) = take k (logps lg V)"
    using k by (simp add: commit_writes_def Let_def)
  have f: "fst ` set (take k (logps lg V)) \<subseteq> log_area lg" by (rule fst_logps [OF ok])
  have "(1, logstart lg) \<notin> Pair (1 :: nat) ` fst ` set (take k (logps lg V))"
    using head_not_logps [of lg V] by (auto dest!: in_set_takeD)
  moreover have "a \<notin> Pair 1 ` fst ` set (take k (logps lg V))" if "a \<notin> log_addrs lg" for a
    using f that by (auto simp: log_addrs_def)
  ultimately show ?thesis using d by (simp add: t settled_def apply_on1_other)
qed

lemma commit_prefix_new:
  assumes ok: "trans_ok lg ds" and k: "nat (lh_n (lg_lh lg)) < k" and l: "length (V (1, logstart lg)) = BSIZE"
    and same: "\<And>a. a \<notin> Pair 1 ` set (tblocks (lg_lh lg)) \<Longrightarrow> V a = d a"
  shows "redoable lg (apply_writes (on1 (take k (commit_writes lg V))) d) V \<or>
     settled lg (apply_writes (on1 (take k (commit_writes lg V))) d) V"
proof -
  let ?S = "logstart lg" and ?h = "lg_lh lg" and ?tb = "tblocks (lg_lh lg)"
  let ?H = "put_head ?h (V (1, ?S))"
  let ?E = "put_head (clear_head ?h) ?H"
  let ?d = "(apply_writes (on1 (logps lg V)) d)((1, ?S) := ?H)"
  have w: "wf_head ?h" and g: "log_geom lg ds" using ok by (auto simp: trans_ok_def)
  have len: "length ?tb = nat (lh_n ?h)" by (rule length_tblocks [OF w])
  have lH: "length ?H = BSIZE" using l w by (auto simp: wf_head_def)
  have E: "getle 4 0 ?E = 0" using head_entries [OF wf_clear_head [OF w] lH] by (simp add: clear_head_def)
  have hd: "getle 4 0 ?H = nat (lh_n ?h)" "\<And>i. i < nat (lh_n ?h) \<Longrightarrow> getle 4 (4 + 4 * i) ?H = ?tb ! i"
    using head_entries [OF w l] nth_tblocks [OF w] by auto
  have f: "fst ` set (logps lg V) \<subseteq> log_area lg"
    using fst_logps [OF ok, of "length (logps lg V)" V] by simp
  have out: "?d a = V a" if "a \<notin> log_addrs lg" "a \<notin> Pair 1 ` set ?tb" for a
  proof -
    have "a \<noteq> (1, ?S)" using that head_in_area [OF g] by (auto simp: log_addrs_def)
    moreover have "a \<notin> Pair 1 ` fst ` set (logps lg V)" using f that by (auto simp: log_addrs_def)
    ultimately show ?thesis using same [OF that(2)] by (simp add: apply_on1_other)
  qed
  have "redoable lg ?d V"
    unfolding redoable_def len using hd out logps_nth [of _ lg V d] by auto
  from redo_prefix [OF ok this E, of "k - nat (lh_n ?h) - 1"]
  have "redoable lg (apply_writes (on1 (take (k - nat (lh_n ?h) - 1) (map (\<lambda>b. (b, V (1, b))) ?tb @ [(?S, ?E)]))) ?d) V \<or>
     settled lg (apply_writes (on1 (take (k - nat (lh_n ?h) - 1) (map (\<lambda>b. (b, V (1, b))) ?tb @ [(?S, ?E)]))) ?d) V" .
  moreover have "take k (commit_writes lg V) = logps lg V @ [(?S, ?H)] @
      take (k - nat (lh_n ?h) - 1) (map (\<lambda>b. (b, V (1, b))) ?tb @ [(?S, ?E)])"
    using k by (simp add: commit_writes_def Let_def take_Cons' )
  ultimately show ?thesis by simp
qed

text \<open>
  The kernel after a reboot, when \<open>initlog\<close> has found the log and calls \<open>recover_from_log\<close>: an
  empty cache on the disk \<open>d\<close> and a zeroed in-memory header.
\<close>

definition zero_head :: logheader where
  "zero_head = \<lparr>lh_n = 0, lh_block = replicate LOGSIZE 0\<rparr>"

definition booted :: "logdata \<Rightarrow> nat \<Rightarrow> (baddr \<Rightarrow> block) \<Rightarrow> 'z logs_scheme \<Rightarrow> bool" where
  "booted lg ds d b \<longleftrightarrow> cache_inv b \<and> bheld b = Map.empty \<and> bdirty b = {} \<and> diskc b = d \<and>
     disksize b = ds \<and> lg_start (klog b) = lg_start lg \<and> lg_size (klog b) = lg_size lg \<and>
     lg_dev (klog b) = lg_dev lg \<and> lg_lh (klog b) = zero_head"

lemma booted_same:
  assumes "booted lg ds d b"
  shows "logstart (klog b) = logstart lg" "log_area (klog b) = log_area lg" "log_addrs (klog b) = log_addrs lg"
    "log_geom (klog b) ds = log_geom lg ds" "bview b = d" "length (d a) = BSIZE"
proof -
  show g: "logstart (klog b) = logstart lg" "log_area (klog b) = log_area lg" "log_addrs (klog b) = log_addrs lg"
    "log_geom (klog b) ds = log_geom lg ds"
    using assms by (simp_all add: booted_def logstart_def log_area_def log_addrs_def log_geom_def)
  show bv: "bview b = d"
    using assms cache_inv_clean [of b] by (auto simp: booted_def)
  show "length (d a) = BSIZE"
    using assms bcache.length_law [of b a] bv by (simp add: booted_def cobs_def)
qed

lemma recovers_settled:
  assumes b: "booted lg ds d b" and g: "log_geom lg ds" and X: "settled lg d X"
  shows "wp recover_from_log (\<lambda>_ u. bdirty u = {} \<and> bview u = diskc u \<and> settled lg (diskc u) X \<and>
     (\<exists>R. dwrites u = dwrites b @ on1 R \<and> (\<forall>j. settled lg (apply_writes (on1 (take j R)) d) X))) b"
proof -
  note same = booted_same [OF b]
  let ?h = "get_head (d (1, logstart lg)) zero_head"
  let ?E = "put_head (clear_head ?h) (d (1, logstart lg))"
  have h: "?h = zero_head"
    using X map_nth [of "replicate LOGSIZE (0 :: int)"]
    by (simp add: settled_def get_head_def Let_def zero_head_def to_int32_def)
  have w: "wf_head zero_head" by (simp add: wf_head_def zero_head_def)
  have n0: "lh_n zero_head = 0" by (simp add: zero_head_def)
  have ok: "trans_ok ((klog b)\<lparr>lg_lh := ?h\<rparr>) (disksize b)"
    using g w b same unfolding h by (auto simp: trans_ok_def n0 tblocks_def NBUF_def log_geom_def booted_def)
  have R: "recover_writes (klog b) (bview b) = [(logstart lg, ?E)]"
    using b same by (simp only: recover_writes_def Let_def instps_def booted_def h)
      (simp add: n0 h [unfolded One_nat_def])
  have E: "getle 4 0 ?E = 0"
    unfolding h using head_entries [OF wf_clear_head [OF w] same(6), of "(1, logstart lg)"] by (simp add: clear_head_def)
  have S: "(1, logstart lg) \<in> log_addrs lg" using head_in_area [OF g] by (simp add: log_addrs_def)
  have st: "settled lg (d((1, logstart lg) := ?E)) X" using X E S by (auto simp: settled_def)
  have pre: "settled lg (apply_writes (on1 (take j [(logstart lg, ?E)])) d) X" for j
    using X st by (cases j) auto
  have "wp recover_from_log (\<lambda>_ t. cache_inv t \<and> cobs t = wrs (recover_writes (klog b) (bview b)) (cobs b) \<and>
     cframe (upd_lh (\<lambda>_. clear_head ?h) b) t) b"
    by (rule recover_wp) (use b ok same h in \<open>auto simp: booted_def zero_head_def\<close>)
  then show ?thesis
  proof (rule wp_mono)
    fix a u
    assume "cache_inv u \<and> cobs u = wrs (recover_writes (klog b) (bview b)) (cobs b) \<and>
      cframe (upd_lh (\<lambda>_. clear_head ?h) b) u"
    then have o: "cobs u = written (logstart lg) ?E (cobs b)" and i: "cache_inv u" by (auto simp: R)
    have e: "bdirty u = {}" "bview u = d((1, logstart lg) := ?E)" "diskc u = d((1, logstart lg) := ?E)"
      "dwrites u = dwrites b @ on1 [(logstart lg, ?E)]"
      using bview_cobs [OF o] b same(5) by (auto simp: written_def cobs_def booted_def)
    then show "bdirty u = {} \<and> bview u = diskc u \<and> settled lg (diskc u) X \<and>
     (\<exists>R. dwrites u = dwrites b @ on1 R \<and> (\<forall>j. settled lg (apply_writes (on1 (take j R)) d) X))"
      using st pre by metis
  qed
qed

lemma get_head_redoable:
  assumes ok: "trans_ok lg ds" and r: "redoable lg d X" and len: "length (d (1, logstart lg)) = BSIZE"
  shows "lh_n (get_head (d (1, logstart lg)) zero_head) = lh_n (lg_lh lg) \<and>
     wf_head (get_head (d (1, logstart lg)) zero_head) \<and>
     tblocks (get_head (d (1, logstart lg)) zero_head) = tblocks (lg_lh lg)"
proof -
  let ?h = "get_head (d (1, logstart lg)) zero_head" and ?tb = "tblocks (lg_lh lg)"
  have w: "wf_head (lg_lh lg)" using ok by (simp add: trans_ok_def)
  have l: "length ?tb = nat (lh_n (lg_lh lg))" by (rule length_tblocks [OF w])
  have e: "getle 4 0 (d (1, logstart lg)) = length ?tb"
    "\<And>i. i < length ?tb \<Longrightarrow> getle 4 (4 + 4 * i) (d (1, logstart lg)) = ?tb ! i"
    using r by (auto simp: redoable_def)
  have tb: "?tb ! i < 4294967296" if "i < length ?tb" for i
    using nth_mem [OF that] ok by (fastforce simp: trans_ok_def log_geom_def)
  have n: "lh_n ?h = lh_n (lg_lh lg)"
    using e w l by (auto simp: get_head_def Let_def to_int32_def wf_head_def LOGSIZE_def)
  have bl: "lh_block ?h = map (\<lambda>i. if i < length ?tb then to_int32 (?tb ! i) else 0) [0..<LOGSIZE]"
    using e w l by (auto simp: get_head_def Let_def zero_head_def to_int32_def wf_head_def LOGSIZE_def)
  have rng: "- 2147483648 \<le> to_int32 v \<and> to_int32 v < 2147483648" if "v < 4294967296" for v
    using that by (auto simp: to_int32_def)
  have wh: "wf_head ?h"
    using w n rng tb unfolding wf_head_def bl by auto
  have "tblocks ?h = ?tb"
  proof (rule nth_equalityI)
    show "length (tblocks ?h) = length ?tb" using length_tblocks [OF wh] n l by simp
    show "tblocks ?h ! i = ?tb ! i" if "i < length (tblocks ?h)" for i
      using that nth_tblocks [OF wh, of i] length_tblocks [OF wh] n l tb [of i] w bl
      by (auto simp: wf_head_def)
  qed
  then show ?thesis using n wh by blast
qed

lemma recovers_redoable:
  assumes b: "booted lg ds d b" and ok: "trans_ok lg ds" and X: "redoable lg d X"
  shows "wp recover_from_log (\<lambda>_ u. bdirty u = {} \<and> bview u = diskc u \<and> settled lg (diskc u) X \<and>
     (\<exists>R. dwrites u = dwrites b @ on1 R \<and>
       (\<forall>j. redoable lg (apply_writes (on1 (take j R)) d) X \<or> settled lg (apply_writes (on1 (take j R)) d) X))) b"
proof -
  note same = booted_same [OF b]
  let ?h = "get_head (d (1, logstart lg)) zero_head" and ?tb = "tblocks (lg_lh lg)"
  let ?E = "put_head (clear_head ?h) (d (1, logstart lg))"
  note h = get_head_redoable [OF ok X same(6)]
  have ok': "trans_ok ((klog b)\<lparr>lg_lh := ?h\<rparr>) ds"
    using ok h same b by (simp add: trans_ok_def booted_def)
  have E: "getle 4 0 ?E = 0"
    using head_entries [OF wf_clear_head same(6), of ?h "(1, logstart lg)"] h by (simp add: clear_head_def)
  have len: "length ?tb = nat (lh_n (lg_lh lg))" using ok by (simp add: trans_ok_def length_tblocks)
  have "instps ((klog b)\<lparr>lg_lh := ?h\<rparr>) d = map (\<lambda>b. (b, X (1, b))) (tblocks ?h)"
    using instps_V [OF ok', of d X] X h same len by (simp add: redoable_def)
  then have R: "recover_writes (klog b) (bview b) = map (\<lambda>b. (b, X (1, b))) ?tb @ [(logstart lg, ?E)]"
    using b same h by (simp add: recover_writes_def Let_def booted_def)
  have "wp recover_from_log (\<lambda>_ t. cache_inv t \<and> cobs t = wrs (recover_writes (klog b) (bview b)) (cobs b) \<and>
     cframe (upd_lh (\<lambda>_. clear_head ?h) b) t) b"
    by (rule recover_wp) (use b ok' same h in \<open>auto simp: booted_def zero_head_def\<close>)
  then show ?thesis
  proof (rule wp_mono)
    fix a u
    let ?R = "map (\<lambda>b. (b, X (1, b))) ?tb @ [(logstart lg, ?E)]"
    assume "cache_inv u \<and> cobs u = wrs (recover_writes (klog b) (bview b)) (cobs b) \<and>
      cframe (upd_lh (\<lambda>_. clear_head ?h) b) u"
    then have o: "cobs u = wrs ?R (cobs b)" by (simp only: R)
    have e: "bdirty u = {}" "bview u = apply_writes (on1 ?R) d" "diskc u = apply_writes (on1 ?R) d"
      "dwrites u = dwrites b @ on1 ?R"
      using bview_cobs [OF o [unfolded wrs_eq]] b same(5) by (auto simp: cobs_def booted_def)
    have st: "settled lg (diskc u) X" unfolding e(3) by (rule redo_all [OF ok X E])
    show "bdirty u = {} \<and> bview u = diskc u \<and> settled lg (diskc u) X \<and>
     (\<exists>R. dwrites u = dwrites b @ on1 R \<and>
       (\<forall>j. redoable lg (apply_writes (on1 (take j R)) d) X \<or> settled lg (apply_writes (on1 (take j R)) d) X))"
      by (intro conjI exI [of _ ?R] allI redo_prefix [OF ok X E] st) (simp_all only: e)
  qed
qed

text \<open>A transaction ready to be committed: its blocks are the dirty ones, and the log on disk is empty.\<close>

definition pending :: "'z logs_scheme \<Rightarrow> bool" where
  "pending s \<longleftrightarrow> cache_inv s \<and> trans_ok (klog s) (disksize s) \<and> bheld s = Map.empty \<and>
     bdirty s = Pair 1 ` set (tblocks (lg_lh (klog s))) \<and> lh_n (lg_lh (klog s)) > 0 \<and>
     getle 4 0 (diskc s (1, logstart (klog s))) = 0"

text \<open>
  The disks that crashes can leave behind: the commit stops after some of its writes; the
  machine reboots on what is there; the recovery may stop after some of its writes again, any
  number of times.
\<close>

inductive crashed :: "'z logs_scheme \<Rightarrow> (baddr \<Rightarrow> block) \<Rightarrow> bool" for s where
  crash_commit: "commit s = Done () t \<Longrightarrow> dwrites t = dwrites s @ C \<Longrightarrow>
    crashed s (apply_writes (take k C) (diskc s))"
| crash_recovery: "crashed s d \<Longrightarrow> booted (klog s) (disksize s) d (b :: 'z logs_scheme) \<Longrightarrow>
    recover_from_log b = Done () u \<Longrightarrow> dwrites u = dwrites b @ C \<Longrightarrow>
    crashed s (apply_writes (take k C) d)"

lemma pending_commit:
  assumes "pending s"
  shows "\<exists>t. commit s = Done () t \<and> cache_inv t \<and> cobs t = wrs (commit_writes (klog s) (bview s)) (cobs s) \<and>
     cframe (upd_lh clear_head s) t"
  using commit_wp [of s] assms by (auto simp: pending_def wp_iff)

lemma pending_settled:
  assumes "pending s"
  shows "settled (klog s) (diskc s) (diskc s)" "length (bview s (1, logstart (klog s))) = BSIZE"
    "a \<notin> Pair 1 ` set (tblocks (lg_lh (klog s))) \<Longrightarrow> bview s a = diskc s a"
proof -
  show "settled (klog s) (diskc s) (diskc s)" using assms by (simp add: settled_def pending_def)
  show "length (bview s (1, logstart (klog s))) = BSIZE"
    using assms bcache.length_law [of s] by (simp add: pending_def cobs_def)
  show "a \<notin> Pair 1 ` set (tblocks (lg_lh (klog s))) \<Longrightarrow> bview s a = diskc s a"
    using assms cache_inv_clean [of s a] by (simp add: pending_def)
qed

lemma pending_crash:
  assumes p: "pending s" and t: "commit s = Done () t" "dwrites t = dwrites s @ C"
  shows "if k \<le> nat (lh_n (lg_lh (klog s))) then settled (klog s) (apply_writes (take k C) (diskc s)) (diskc s)
     else redoable (klog s) (apply_writes (take k C) (diskc s)) (bview s) \<or>
       settled (klog s) (apply_writes (take k C) (diskc s)) (bview s)"
proof -
  have "C = on1 (commit_writes (klog s) (bview s))"
    using pending_commit [OF p] t by (auto simp: cobs_def wrs_eq)
  moreover have "trans_ok (klog s) (disksize s)" using p by (simp add: pending_def)
  ultimately show ?thesis
    using commit_prefix_old [of "klog s" "disksize s" "diskc s" k "bview s"]
      commit_prefix_new [of "klog s" "disksize s" k "bview s" "diskc s"] pending_settled [OF p]
    by (simp add: take_on1)
qed

lemma crashed_inv:
  "crashed s d \<Longrightarrow> pending s \<Longrightarrow> settled (klog s) d (diskc s) \<or> redoable (klog s) d (bview s) \<or>
     settled (klog s) d (bview s)"
proof (induction rule: crashed.induct)
  case (crash_commit t C k)
  then show ?case using pending_crash [OF crash_commit.prems crash_commit.hyps, of k] by (auto split: if_splits)
next
  case (crash_recovery d b u C k)
  have ok: "trans_ok (klog s) (disksize s)" and g: "log_geom (klog s) (disksize s)"
    using crash_recovery.prems by (simp_all add: pending_def trans_ok_def)
  note run = crash_recovery.hyps(3,4)
  have "settled (klog s) (apply_writes (take k C) d) X" if "settled (klog s) d X" for X
    using recovers_settled [OF crash_recovery.hyps(2) g that] run by (auto simp: wp_def take_on1)
  moreover have "redoable (klog s) (apply_writes (take k C) d) X \<or> settled (klog s) (apply_writes (take k C) d) X"
    if "redoable (klog s) d X" for X
    using recovers_redoable [OF crash_recovery.hyps(2) ok that] run by (auto simp: wp_def take_on1)
  ultimately show ?case using crash_recovery.IH [OF crash_recovery.prems] by blast
qed

lemma wp_iff_unit: "wp m Q s \<longleftrightarrow> (\<exists>t. m s = Done () t \<and> Q () t)"
  by (auto simp: wp_iff)

lemma recovers:
  assumes b: "booted lg ds d b" and ok: "trans_ok lg ds" and X: "settled lg d X \<or> redoable lg d X"
  shows "\<exists>u. recover_from_log b = Done () u \<and> bdirty u = {} \<and> bview u = diskc u \<and>
     (\<forall>a. a \<notin> log_addrs lg \<longrightarrow> diskc u a = X a)"
  using X
proof
  assume X: "settled lg d X"
  have g: "log_geom lg ds" using ok by (simp add: trans_ok_def)
  from recovers_settled [OF b g X] show ?thesis unfolding wp_iff_unit settled_def by blast
next
  assume X: "redoable lg d X"
  from recovers_redoable [OF b ok X] show ?thesis unfolding wp_iff_unit settled_def by blast
qed

text \<open>
  C1 (safety). Crash atomicity of the log. Let a transaction be ready to commit, let the
  machine crash after any prefix of the disk writes of \<open>commit\<close>, and then again any number of times
  after any prefix of the writes of the recovery that runs at each boot. The recovery that finally completes
  does complete, leaves no dirty block, and outside the log the disk is either entirely as it was before the
  transaction or entirely as the transaction left it in the cache.
\<close>

theorem log_crash_atomic:
  assumes p: "pending s" and c: "crashed s d" and b: "booted (klog s) (disksize s) d b"
  shows "\<exists>u. recover_from_log b = Done () u \<and> bdirty u = {} \<and> bview u = diskc u \<and>
     ((\<forall>a. a \<notin> log_addrs (klog s) \<longrightarrow> diskc u a = diskc s a) \<or>
      (\<forall>a. a \<notin> log_addrs (klog s) \<longrightarrow> diskc u a = bview s a))"
proof -
  have ok: "trans_ok (klog s) (disksize s)" and g: "log_geom (klog s) (disksize s)"
    using p by (simp_all add: pending_def trans_ok_def)
  from crashed_inv [OF c p] show ?thesis
    using recovers [OF b ok, of "diskc s"] recovers [OF b ok, of "bview s"] by blast
qed

text \<open>
  C2 (functional). The commit point. A commit returns with the whole transaction on disk, no
  dirty block and the in-memory and on-disk log empty. A crash before the header write has reached the disk
  loses the transaction as a whole, a crash after it keeps the transaction as a whole.
\<close>

theorem log_commit_point:
  assumes p: "pending s"
  shows "\<exists>t C. commit s = Done () t \<and> dwrites t = dwrites s @ C \<and> bdirty t = {} \<and>
     lh_n (lg_lh (klog t)) = 0 \<and> getle 4 0 (diskc t (1, logstart (klog s))) = 0 \<and>
     (\<forall>a. a \<notin> log_addrs (klog s) \<longrightarrow> diskc t a = bview s a) \<and>
     (\<forall>k (b :: 'z logs_scheme). booted (klog s) (disksize s) (apply_writes (take k C) (diskc s)) b \<longrightarrow>
       (\<exists>u. recover_from_log b = Done () u \<and> (\<forall>a. a \<notin> log_addrs (klog s) \<longrightarrow>
          diskc u a = (if k \<le> length (tblocks (lg_lh (klog s))) then diskc s a else bview s a))))"
proof -
  have ok: "trans_ok (klog s) (disksize s)" and g: "log_geom (klog s) (disksize s)"
    and w: "wf_head (lg_lh (klog s))"
    using p by (simp_all add: pending_def trans_ok_def)
  obtain t where t: "commit s = Done () t" "cobs t = wrs (commit_writes (klog s) (bview s)) (cobs s)"
    "cframe (upd_lh clear_head s) t"
    using pending_commit [OF p] by blast
  let ?W = "commit_writes (klog s) (bview s)" and ?tb = "tblocks (lg_lh (klog s))"
  have e: "dwrites t = dwrites s @ on1 ?W" "bdirty t = bdirty s - Pair 1 ` fst ` set ?W"
    "diskc t = apply_writes (on1 ?W) (diskc s)"
    using bview_cobs [OF t(2) [unfolded wrs_eq]] by (auto simp: cobs_def)
  have "set ?tb \<subseteq> fst ` set ?W" by (force simp: commit_writes_def Let_def)
  then have d: "bdirty t = {}" using p e(2) by (auto simp: pending_def)
  have n: "lh_n (lg_lh (klog t)) = 0" using cframe_klog [OF t(3)] by (simp add: clear_head_def)
  have len: "length ?tb = nat (lh_n (lg_lh (klog s)))" by (rule length_tblocks [OF w])
  note cr = pending_crash [OF p t(1) e(1)]
  have "settled (klog s) (diskc t) (bview s)"
  proof -
    have lH: "length (put_head (lg_lh (klog s)) (bview s (1, logstart (klog s)))) = BSIZE"
      using pending_settled(2) [OF p] w by (auto simp: wf_head_def)
    have "getle 4 0 (put_head (clear_head (lg_lh (klog s))) (put_head (lg_lh (klog s)) (bview s (1, logstart (klog s))))) = 0"
      using head_entries [OF wf_clear_head [OF w] lH] by (simp add: clear_head_def)
    then have "getle 4 0 (diskc t (1, logstart (klog s))) = 0"
      unfolding e(3) by (simp add: commit_writes_def Let_def)
    then show ?thesis
      using cr [of "length (on1 ?W)"] p unfolding e(3) redoable_def len
      by (auto simp: commit_writes_def Let_def pending_def)
  qed
  moreover have "\<exists>u. recover_from_log b = Done () u \<and> (\<forall>a. a \<notin> log_addrs (klog s) \<longrightarrow>
      diskc u a = (if k \<le> length ?tb then diskc s a else bview s a))"
    if b: "booted (klog s) (disksize s) (apply_writes (take k (on1 ?W)) (diskc s)) b" for k and b :: "'z logs_scheme"
  proof (cases "k \<le> length ?tb")
    case True
    then show ?thesis using cr [of k] recovers [OF b ok, of "diskc s"] len by auto
  next
    case False
    then show ?thesis using cr [of k] recovers [OF b ok, of "bview s"] len by auto
  qed
  ultimately show ?thesis
    using t(1) e(1) d n by (intro exI [of _ t] exI [of _ "on1 ?W"]) (simp add: settled_def)
qed

text \<open>A small transaction: block 100, changed in the cache and logged.\<close>

definition small_head :: logheader where
  "small_head = \<lparr>lh_n = 1, lh_block = 100 # replicate 29 0\<rparr>"

definition small_log :: logdata where
  "small_log = \<lparr>lg_start = 2, lg_size = 30, lg_outstanding = 1, lg_committing = False, lg_dev = 1,
     lg_lh = small_head\<rparr>"

definition small_logs :: "logdata \<Rightarrow> logs" where
  "small_logs lg = caches.extend small_cache \<lparr>klog = lg\<rparr>"

lemma small_logs_boot:
  "quiet (small_logs lg)" "bufs (small_logs lg) = replicate NBUF zero_buf"
  "diskc (small_logs lg) = (\<lambda>_. replicate BSIZE 0)" "disksize (small_logs lg) = 1000"
  "klog (small_logs lg) = lg"
  using small_cache_boot
  by (simp_all add: small_logs_def caches.defs quiet_def mycpu_def diskc_def)
    (simp add: small_cache_def disks.defs small_disk_def kmems.defs)

lemma binit_klog: "wp binit (\<lambda>_ t. klog t = klog s) (s :: 'z logs_scheme)"
proof -
  have i: "initlock BcacheLock s = Done () (set_lock BcacheLock \<lparr>locked = 0, lcpu = None\<rparr> s)"
    by (simp add: initlock_def run_simps)
  have "wp (kfor [0..<NBUF] (\<lambda>b. kthen (modify (upd_buf b (\<lambda>x. x\<lparr>b_dev := NODEV\<rparr>))) (modify (binsert b))))
    (\<lambda>_ t. klog t = klog s) u" if "klog u = klog s" for u :: "'z logs_scheme"
    by (rule wp_kfor [where I = "\<lambda>_ t. klog t = klog s"])
      (use that in \<open>auto simp: wp_simps upd_buf_def binsert_def Let_def\<close>)
  then show ?thesis
    unfolding binit_def wp_kthen wp_modify by (intro wpI [where m = "initlock BcacheLock", OF i]) (simp add: set_lock_def)
qed

lemma small_boot:
  obtains b :: logs where "cache_inv b" "bview b = (\<lambda>_. replicate BSIZE 0)" "bheld b = Map.empty" "bdirty b = {}"
    "diskc b = (\<lambda>_. replicate BSIZE 0)" "disksize b = 1000" "klog b = lg" "dwrites b = dwrites (small_logs lg)"
  using wp_conj [OF binit_wp [OF small_logs_boot(1,2), of lg] binit_klog [of "small_logs lg"]] small_logs_boot [of lg]
  by (auto simp: wp_iff)

lemma getle_zeros [simp]: "i + n \<le> BSIZE \<Longrightarrow> getle n i (replicate BSIZE 0) = 0"
proof -
  have "le_nat (replicate k 0) = 0" for k by (induction k) auto
  then show "i + n \<le> BSIZE \<Longrightarrow> getle n i (replicate BSIZE 0) = 0"
    by (simp add: getle_def bslice_def)
qed

lemma small_log_ok: "trans_ok small_log 1000" "tblocks small_head = [100]"
  by (simp_all add: trans_ok_def small_log_def log_geom_def wf_head_def small_head_def LOGSIZE_def NBUF_def
      tblocks_def log_area_def logstart_def uint32_def)

lemma small_pending:
  obtains s :: logs where "pending s" "klog s = small_log" "disksize s = 1000"
    "bview s (1, 100) = replicate BSIZE 7" "diskc s = (\<lambda>_. replicate BSIZE 0)"
proof -
  obtain b :: logs where b: "cache_inv b" "bview b = (\<lambda>_. replicate BSIZE 0)" "bheld b = Map.empty" "bdirty b = {}"
    "diskc b = (\<lambda>_. replicate BSIZE 0)" "disksize b = 1000" "klog b = small_log"
    using small_boot [of small_log] by metis
  have "readable (cobs b) 100" using b by (simp add: readable_def cobs_def NBUF_def)
  then obtain x t where rd: "bread 1 100 b = Done x t" using bcache.rd_total [of b 100] b by auto
  have t: "cache_inv t" "cframe b t" "cobs t = (cobs b)\<lparr>v_held := [x \<mapsto> (1, 100)]\<rparr>"
    using bcache.rd_law [OF b(1) rd] b by (auto simp: cobs_def)
  let ?u = "bstore x (\<lambda>_. replicate BSIZE 7) t"
  have u: "cache_inv ?u" "cframe t ?u" "cobs ?u = (cobs t)\<lparr>v_blocks := (v_blocks (cobs t))((1, 100) := replicate BSIZE 7)\<rparr>"
    using bcache.st_law [OF t(1), of x "(1, 100)" "\<lambda>_. replicate BSIZE 7"] t(3) by auto
  let ?v = "upd_buf x (\<lambda>y. y\<lparr>b_dirty := True\<rparr>) ?u"
  have hu: "bheld ?u x = Some (1, 100)" using bview_cobs [OF u(3)] t(3) by simp
  have v: "cache_inv ?v" "bheld ?v = bheld ?u" "bview ?v = bview ?u" "bdirty ?v = insert (1, 100) (bdirty ?u)" "cframe ?u ?v" "diskc ?v = diskc ?u"
    using bpin_spec [OF u(1) hu] by auto
  obtain s where s: "brelse x ?v = Done () s" "cache_inv s" "cframe ?v s" "cobs s = (cobs ?v)\<lparr>v_held := (v_held (cobs ?v))(x := None)\<rparr>"
    using bcache.rl_law [OF v(1), of x "(1, 100)"] v(2,4) hu by (auto simp: wp_iff cobs_def)
  have o: "bview t = bview b" "bheld t = [x \<mapsto> (1, 100)]" "bdirty t = {}" "diskc t = diskc b"
    using t(3) b by (auto simp: cobs_def)
  have ou: "bview ?u = (bview b)((1, 100) := replicate BSIZE 7)" "bheld ?u = [x \<mapsto> (1, 100)]" "bdirty ?u = {}" "diskc ?u = diskc b"
    using u(3) o by (auto simp: cobs_def)
  have os: "bview s = bview ?u" "bheld s = Map.empty" "bdirty s = {(1, 100)}" "diskc s = diskc b"
    using s(4) v ou by (auto simp: cobs_def)
  have fr: "cframe b s" using t(2) u(2) v(5) s(3) by (meson cframe_trans)
  have k: "klog s = small_log" "disksize s = 1000" using cframe_klog [OF fr] cframe_same [OF fr] b by simp_all
  have z: "getle 4 0 (replicate BSIZE 0) = 0" by (rule getle_zeros) (simp add: BSIZE_def)
  have "lg_lh small_log = small_head" "lh_n small_head = 1" by (simp_all add: small_log_def small_head_def)
  then have "pending s"
    using s(2) os small_log_ok k b(5) z by (simp add: pending_def)
  then show ?thesis using that k os ou b by simp
qed

theorem log_crash_atomic_witness:
  "\<exists>(s :: logs) d (b :: logs) u. pending s \<and> crashed s d \<and> booted (klog s) (disksize s) d b \<and> recover_from_log b = Done () u"
proof -
  obtain s :: logs where s: "pending s" "klog s = small_log" "disksize s = 1000" "diskc s = (\<lambda>_. replicate BSIZE 0)"
    using small_pending by metis
  obtain t where t: "commit s = Done () t" "cobs t = wrs (commit_writes (klog s) (bview s)) (cobs s)"
    using pending_commit [OF s(1)] by blast
  have "dwrites t = dwrites s @ on1 (commit_writes (klog s) (bview s))" using t(2) by (simp add: cobs_def wrs_eq)
  from crash_commit [OF t(1) this, of 0] have c: "crashed s (diskc s)" by simp
  obtain b :: logs where b: "cache_inv b" "bheld b = Map.empty" "bdirty b = {}"
    "diskc b = (\<lambda>_. replicate BSIZE 0)" "disksize b = 1000" "klog b = small_log\<lparr>lg_lh := zero_head\<rparr>"
    using small_boot by metis
  have bo: "booted (klog s) (disksize s) (diskc s) b"
    using b s by (simp add: booted_def small_log_def)
  from log_crash_atomic [OF s(1) c bo] show ?thesis using s(1) c bo by blast
qed

theorem log_commit_point_witness:
  "\<exists>(s :: logs) t. commit s = Done () t \<and> diskc s (1, 100) = replicate BSIZE 0 \<and>
     diskc t (1, 100) = replicate BSIZE 7"
proof -
  obtain s :: logs where s: "pending s" "klog s = small_log" "bview s (1, 100) = replicate BSIZE 7"
    "diskc s = (\<lambda>_. replicate BSIZE 0)"
    using small_pending by metis
  obtain t where t: "commit s = Done () t" "\<And>a. a \<notin> log_addrs (klog s) \<Longrightarrow> diskc t a = bview s a"
    using log_commit_point [OF s(1)] by blast
  have "(1, 100) \<notin> log_addrs (klog s)" by (auto simp: s(2) small_log_def log_addrs_def log_area_def logstart_def)
  then have "diskc t (1, 100) = replicate BSIZE 7" using t(2) s(3) by metis
  then show ?thesis using t(1) s(4) by (intro exI [of _ s] exI [of _ t]) simp
qed

section \<open>Inside a transaction\<close>

text \<open>
  A system call between \<open>begin_op\<close> and \<open>end_op\<close>: the dirty blocks of the cache are those the
  in-memory header lists.
\<close>

definition in_op :: "'z logs_scheme \<Rightarrow> bool" where
  "in_op s \<longleftrightarrow> cache_inv s \<and> trans_ok (klog s) (disksize s) \<and>
     bdirty s = Pair 1 ` set (tblocks (lg_lh (klog s))) \<and> lg_outstanding (klog s) \<ge> 1"

text \<open>The operations of a transaction change the cache and the in-memory header only.\<close>

definition lframe :: "'z logs_scheme \<Rightarrow> 'z logs_scheme \<Rightarrow> bool" where
  "lframe s t \<longleftrightarrow> (\<exists>h. cframe (upd_lh (\<lambda>_. h) s) t)"

lemma upd_lh_comp [simp]: "upd_lh f (upd_lh g s) = upd_lh (\<lambda>h. f (g h)) s"
  by (simp add: upd_lh_def)

lemma upd_lh_same [simp]: "upd_lh (\<lambda>_. lg_lh (klog s)) s = s"
  by (simp add: upd_lh_def)

lemma lframe_refl [simp]: "lframe s s"
  unfolding lframe_def by (rule exI [of _ "lg_lh (klog s)"]) simp

lemma lframe_trans: "lframe s t \<Longrightarrow> lframe t u \<Longrightarrow> lframe s u"
proof -
  assume "lframe s t" "lframe t u"
  then obtain h g where h: "cframe (upd_lh (\<lambda>_. h) s) t" and g: "cframe (upd_lh (\<lambda>_. g) t) u"
    by (auto simp: lframe_def)
  have "cframe (upd_lh (\<lambda>_. g) s) u"
    using cframe_trans [OF cframe_upd_lh [OF h, of "\<lambda>_. g"] g] by simp
  then show ?thesis unfolding lframe_def by (rule exI)
qed

lemma cframe_lframe: "cframe s t \<Longrightarrow> lframe s t"
  unfolding lframe_def by (rule exI [of _ "lg_lh (klog s)"]) simp

lemma lframe_same:
  "lframe s t \<Longrightarrow> disksize t = disksize s \<and> image t = image s \<and> curproc t = curproc s \<and>
     length (ptable t) = length (ptable s) \<and> logstart (klog t) = logstart (klog s) \<and>
     log_area (klog t) = log_area (klog s) \<and> lg_size (klog t) = lg_size (klog s) \<and>
     lg_outstanding (klog t) = lg_outstanding (klog s)"
proof -
  assume "lframe s t"
  then obtain h where h: "cframe (upd_lh (\<lambda>_. h) s) t" by (auto simp: lframe_def)
  show ?thesis using cframe_same [OF h] cframe_klog [OF h]
    by (simp add: log_area_def logstart_def upd_lh_def curproc_def mycpu_def)
qed

lemma log_slot_in:
  assumes w: "wf_head h" and b: "b \<in> set (tblocks h)" and d: "distinct (tblocks h)"
  shows "log_slot h b < nat (lh_n h) \<and> tblocks h ! log_slot h b = b"
proof -
  let ?xs = "take (nat (lh_n h)) (lh_block h)"
  obtain x where "x \<in> set ?xs" "uint32 x = b" using b by (auto simp: tblocks_def)
  then have "first_index (\<lambda>x. uint32 x = b) ?xs \<noteq> None"
    by (auto simp: first_index_None in_set_conv_nth)
  then obtain i where i: "first_index (\<lambda>x. uint32 x = b) ?xs = Some i" by auto
  then have k: "i < length ?xs \<and> uint32 (?xs ! i) = b" by (simp only: first_index_Some)
  have "log_slot h b = i" by (simp only: log_slot_def i option.case)
  then show ?thesis using k by (simp add: tblocks_def) (metis nth_take)
qed

lemma log_slot_out: "b \<notin> set (tblocks h) \<Longrightarrow> log_slot h b = nat (lh_n h)"
proof -
  assume "b \<notin> set (tblocks h)"
  then have "first_index (\<lambda>x. uint32 x = b) (take (nat (lh_n h)) (lh_block h)) = None"
    unfolding first_index_None tblocks_def by (metis imageI list.set_map nth_mem)
  then show ?thesis by (simp only: log_slot_def option.case)
qed

text \<open>The header after a block has been logged.\<close>

definition log_add :: "nat \<Rightarrow> logheader \<Rightarrow> logheader" where
  "log_add b h = (let i = log_slot h b; h1 = h\<lparr>lh_block := (lh_block h)[i := to_int32 b]\<rparr> in
     if int i = lh_n h then h1\<lparr>lh_n := lh_n h + 1\<rparr> else h1)"

lemma log_add_ok:
  assumes w: "wf_head h" and d: "distinct (tblocks h)" and n: "lh_n h < int LOGSIZE" and b: "b < 2147483648"
  shows "wf_head (log_add b h)"
    "tblocks (log_add b h) = (if b \<in> set (tblocks h) then tblocks h else tblocks h @ [b])"
    "lh_n (log_add b h) = int (length (tblocks (log_add b h)))"
proof -
  have l: "length (tblocks h) = nat (lh_n h)" by (rule length_tblocks [OF w])
  have r: "- 2147483648 \<le> to_int32 b" "to_int32 b < 2147483648" "uint32 (to_int32 b) = b"
    using b by (auto simp: to_int32_def)
  have n0: "0 \<le> lh_n h" "length (lh_block h) = LOGSIZE" using w by (auto simp: wf_head_def)
  show wf: "wf_head (log_add b h)"
    using w n r set_update_subset_insert [of "lh_block h" "log_slot h b" "to_int32 b"]
    by (fastforce simp: log_add_def Let_def wf_head_def)
  show t: "tblocks (log_add b h) = (if b \<in> set (tblocks h) then tblocks h else tblocks h @ [b])"
  proof (cases "b \<in> set (tblocks h)")
    case True
    note s = log_slot_in [OF w True d]
    have "lh_block h ! log_slot h b = to_int32 b"
    proof -
      have "uint32 (lh_block h ! log_slot h b) = b" using s nth_tblocks [OF w] by auto
      moreover have "lh_block h ! log_slot h b \<in> set (lh_block h)" using s n n0 by (intro nth_mem) auto
      ultimately show ?thesis using to_int32_uint32 [of "lh_block h ! log_slot h b"] w by (auto simp: wf_head_def)
    qed
    then have "(lh_block h)[log_slot h b := to_int32 b] = lh_block h" by (metis list_update_id)
    then have "log_add b h = h" using s by (auto simp: log_add_def Let_def)
    then show ?thesis using True by simp
  next
    case False
    have k: "log_slot h b = nat (lh_n h)" using log_slot_out [OF False] .
    let ?n = "nat (lh_n h)"
    have ln: "?n < length (lh_block h)" using n n0 by auto
    have "nat (lh_n h + 1) = Suc ?n" using n0 by simp
    then have "tblocks (log_add b h) = map uint32 (take (Suc ?n) ((lh_block h)[?n := to_int32 b]))"
      using k n0 by (simp add: log_add_def Let_def tblocks_def)
    also have "\<dots> = tblocks h @ [b]"
      using ln r by (simp add: take_Suc_conv_app_nth tblocks_def)
    finally show ?thesis using False by simp
  qed
  show "lh_n (log_add b h) = int (length (tblocks (log_add b h)))"
    using length_tblocks [OF wf] wf by (simp add: wf_head_def)
qed

definition log_room :: "'z logs_scheme \<Rightarrow> bool" where
  "log_room s \<longleftrightarrow> lh_n (lg_lh (klog s)) < int LOGSIZE \<and> lh_n (lg_lh (klog s)) < lg_size (klog s) - 1 \<and>
     lh_n (lg_lh (klog s)) + 1 < int NBUF"

lemma upd_lh_crit [crit_simps]: "upd_lh f (crit ls s) = crit ls (upd_lh f s)"
  by (simp add: upd_lh_def crit_simps)

lemma upd_buf_crit: "upd_buf b f (crit ls s) = crit ls (upd_buf b f s)"
  by (simp add: upd_buf_def crit_simps)

lemma log_write_run:
  assumes q: "quiet s" and r: "log_room s" and o: "lg_outstanding (klog s) \<ge> 1"
    and n: "b_blockno (bufs s ! b) = n"
  shows "log_write b s = Done () (upd_buf b (\<lambda>x. x\<lparr>b_dirty := True\<rparr>) (upd_lh (log_add n) s))"
proof -
  have Q: "quiet (upd_buf b f (upd_lh g s))" for f g using q by (simp add: upd_buf_def)
  show ?thesis
    using r o n q Q
    by (cases "int (log_slot (lg_lh (klog s)) n) = lh_n (lg_lh (klog s))")
      (simp_all add: log_write_def run_simps log_room_def acquire_quiet release_quiet crit_simps upd_buf_crit
        Let_def not_le not_less, simp_all add: upd_lh_def upd_buf_def log_add_def Let_def)
qed

text \<open>The view after block \<open>n\<close> has been changed to \<open>x\<close> and logged.\<close>

definition logged :: "nat \<Rightarrow> block \<Rightarrow> cview \<Rightarrow> cview" where
  "logged n x v = v\<lparr>v_blocks := (v_blocks v)((1, n) := x), v_dirty := insert (1, n) (v_dirty v)\<rparr>"

text \<open>
  The transaction's blocks: reading, changing and releasing blocks as in the cache, and \<open>lw\<close>, which
  adds a held block to the transaction. At most \<open>cap\<close> blocks fit, and the blocks of \<open>area\<close> (the
  log itself) are not logged.
\<close>

locale logged_blocks = block_reader inv dsize obs frame rd rl st data
  for inv :: "'s \<Rightarrow> bool" and dsize obs frame rd rl st data +
  fixes lw :: "nat \<Rightarrow> ('s, unit) km" and cap :: "'s \<Rightarrow> nat" and area :: "'s \<Rightarrow> nat set"
  assumes lw_law: "inv s \<Longrightarrow> v_held (obs s) b = Some (1, n) \<Longrightarrow> n \<notin> area s \<Longrightarrow>
      card (v_dirty (obs s)) < cap s \<Longrightarrow>
      wp (lw b) (\<lambda>_ t. inv t \<and> frame s t \<and> obs t = (obs s)\<lparr>v_dirty := insert (1, n) (v_dirty (obs s))\<rparr>) s"
    and frame_cap: "frame s t \<Longrightarrow> cap t = cap s"
    and frame_area: "frame s t \<Longrightarrow> area t = area s"
begin

lemma lw_wp:
  assumes "inv s" "v_held (obs s) b = Some (1, n)" "n \<notin> area s" "card (v_dirty (obs s)) < cap s"
    and "\<And>t. inv t \<Longrightarrow> frame s t \<Longrightarrow> obs t = (obs s)\<lparr>v_dirty := insert (1, n) (v_dirty (obs s))\<rparr> \<Longrightarrow> Q () t"
  shows "wp (lw b) Q s"
  by (rule wp_mono [OF lw_law [OF assms(1-4)]]) (use assms(5) in auto)

text \<open>Read a block, change it and log it: the disk is not touched.\<close>

lemma log_block:
  assumes s: "inv s" "n < dsize s" "readable (obs s) n" "n \<notin> area s" "card (v_dirty (obs s)) < cap s"
    and l: "length (f (v_blocks (obs s) (1, n))) = BSIZE"
  shows "wp (kbind (rd n) (\<lambda>b. kthen (modify (st b f)) (kthen (lw b) (rl b))))
    (\<lambda>_ t. inv t \<and> frame s t \<and> obs t = logged n (f (v_blocks (obs s) (1, n))) (obs s)) s"
  unfolding wp_kbind
proof (rule rd_wp [OF s(1-3)])
  fix b t
  assume b: "v_held (obs s) b = None" and t: "inv t" "frame s t"
    "obs t = (obs s)\<lparr>v_held := (v_held (obs s))(b \<mapsto> (1, n))\<rparr>"
  show "wp (kthen (modify (st b f)) (kthen (lw b) (rl b)))
    (\<lambda>_ t. inv t \<and> frame s t \<and> obs t = logged n (f (v_blocks (obs s) (1, n))) (obs s)) t"
    unfolding wp_kthen
  proof (rule st_wp [OF t(1), of b "(1, n)" f])
    fix u
    assume u: "inv u" "frame t u"
      "obs u = (obs t)\<lparr>v_blocks := (v_blocks (obs t))((1, n) := f (v_blocks (obs t) (1, n)))\<rparr>"
    have fu: "frame s u" using frame_trans t(2) u(2) .
    show "wp (lw b) (\<lambda>_. wp (rl b) (\<lambda>_ t. inv t \<and> frame s t \<and>
        obs t = logged n (f (v_blocks (obs s) (1, n))) (obs s))) u"
    proof (rule lw_wp [OF u(1), of b n])
      fix v
      assume v: "inv v" "frame u v" "obs v = (obs u)\<lparr>v_dirty := insert (1, n) (v_dirty (obs u))\<rparr>"
      show "wp (rl b) (\<lambda>_ t. inv t \<and> frame s t \<and>
          obs t = logged n (f (v_blocks (obs s) (1, n))) (obs s)) v"
        by (rule rl_wp [OF v(1), of b "(1, n)"])
          (use t u v b frame_trans [OF frame_trans [OF fu v(2)]] in \<open>auto simp: logged_def fun_upd_idem\<close>)
    qed (use t u s frame_cap [OF fu] frame_area [OF fu] in simp_all)
  qed (use t l in simp_all)
qed

end

definition log_cap :: "'z logs_scheme \<Rightarrow> nat" where
  "log_cap s = min (min LOGSIZE (nat (lg_size (klog s) - 1))) (NBUF - 1)"

lemma in_op_card: "in_op s \<Longrightarrow> int (card (bdirty s)) = lh_n (lg_lh (klog s))"
  using length_tblocks [of "lg_lh (klog s)"]
  by (simp add: in_op_def trans_ok_def card_image inj_on_def distinct_card wf_head_def)

lemma in_op_room: "in_op s \<Longrightarrow> card (bdirty s) < log_cap s \<Longrightarrow> log_room s"
  using in_op_card [of s] by (auto simp: log_cap_def log_room_def)

lemma in_op_frame:
  fixes s t :: "'b logs_scheme"
  assumes s: "in_op s" and t: "cache_inv t \<and> cframe s t \<and> cobs t = v" "v_dirty v = v_dirty (cobs s)"
  shows "in_op t \<and> lframe s t \<and> cobs t = v"
proof -
  have d: "v_dirty (cobs u) = bdirty u" for u :: "'b logs_scheme" by (simp add: cobs_def)
  have "bdirty t = bdirty s" using t d [of t] d [of s] by simp
  then show ?thesis using s t cframe_same [of s t] cframe_klog [of s t] by (simp add: in_op_def cframe_lframe)
qed

lemma in_op_cache: "in_op s \<Longrightarrow> cache_inv s"
  by (simp add: in_op_def)

lemma cobs_upd_buf_dirty:
  assumes "cache_inv s" "bheld s b = Some a"
  shows "cobs (upd_buf b (\<lambda>x. x\<lparr>b_dirty := True\<rparr>) s) = (cobs s)\<lparr>v_dirty := insert a (v_dirty (cobs s))\<rparr>"
  using bpin_spec [OF assms] by (simp add: cobs_def)

lemma log_write_spec:
  assumes s: "in_op s" "bheld s b = Some (1, n)" "n \<notin> log_area (klog s)" "log_room s"
  shows "wp (log_write b) (\<lambda>_ t. in_op t \<and> lframe s t \<and> cobs t = (cobs s)\<lparr>v_dirty := insert (1, n) (v_dirty (cobs s))\<rparr> \<and>
     lg_lh (klog t) = log_add n (lg_lh (klog s))) s"
proof -
  let ?u = "upd_lh (log_add n) s"
  let ?t = "upd_buf b (\<lambda>x. x\<lparr>b_dirty := True\<rparr>) ?u"
  have inv: "cache_inv s" "quiet s" "bufs_ok s" and o: "lg_outstanding (klog s) \<ge> 1"
    and tr: "trans_ok (klog s) (disksize s)" using s(1) by (auto simp: in_op_def cache_inv_def)
  note h = held_valid [OF inv(3) s(2)]
  have bn: "b_blockno (bufs s ! b) = n" using h by (simp add: baddr_of_def)
  have n: "n < disksize s" using bufs_okD(4) [OF inv(3), of b] h bn by auto
  have u: "cache_inv ?u" "bheld ?u = bheld s" "bdirty ?u = bdirty s" "cobs ?u = cobs s"
    using inv cobs_upd_lh(1) [of "log_add n" s] by (simp_all add: cobs_def)
  have hu: "bheld ?u b = Some (1, n)" using u s(2) by simp
  have t: "cache_inv ?t" "bdirty ?t = insert (1, n) (bdirty s)" using bpin_spec [OF u(1) hu] u by simp_all
  have k: "klog ?t = (klog s)\<lparr>lg_lh := log_add n (lg_lh (klog s))\<rparr>" "disksize ?t = disksize s"
    by (simp_all add: upd_buf_def upd_lh_def)
  have ad: "wf_head (lg_lh (klog s))" "distinct (tblocks (lg_lh (klog s)))" "lh_n (lg_lh (klog s)) < int LOGSIZE" "n < 2147483648"
    using tr s(4) n by (auto simp: trans_ok_def log_room_def log_geom_def)
  note a = log_add_ok [OF ad]
  have "in_op ?t"
    unfolding in_op_def k
  proof (intro conjI)
    show "cache_inv ?t" by (rule t)
    have m: "lh_n (log_add n (lg_lh (klog s))) \<le> lh_n (lg_lh (klog s)) + 1"
      using length_tblocks [OF ad(1)] ad(1) by (simp add: a(3) a(2) wf_head_def)
    show "trans_ok ((klog s)\<lparr>lg_lh := log_add n (lg_lh (klog s))\<rparr>) (disksize s)"
      using tr a s(3,4) n m by (auto simp: trans_ok_def log_room_def)
    show "bdirty ?t = Pair 1 ` set (tblocks (lg_lh ((klog s)\<lparr>lg_lh := log_add n (lg_lh (klog s))\<rparr>)))"
      using s(1) by (simp add: t a(2) in_op_def insert_absorb)
    show "1 \<le> lg_outstanding ((klog s)\<lparr>lg_lh := log_add n (lg_lh (klog s))\<rparr>)" using o by simp
  qed
  moreover have "lframe s ?t"
    unfolding lframe_def by (rule exI [of _ "log_add n (lg_lh (klog s))"]) (simp add: upd_lh_def upd_buf_def [symmetric])
  moreover have "cobs ?t = (cobs s)\<lparr>v_dirty := insert (1, n) (v_dirty (cobs s))\<rparr>"
    using cobs_upd_buf_dirty [OF u(1) hu] u(4) by simp
  ultimately show ?thesis using log_write_run [OF inv(2) s(4) o bn] k by (simp add: wp_def)
qed

interpretation txn: logged_blocks in_op disksize cobs lframe "bread 1" brelse bstore bdata
  log_write log_cap "\<lambda>s. log_area (klog s)"
proof unfold_locales
  fix s t u :: "'a logs_scheme" and b n :: nat and a :: baddr and f :: "block \<Rightarrow> block"
  show "lframe s s" by simp
  show "lframe s t \<Longrightarrow> lframe t u \<Longrightarrow> lframe s u" by (rule lframe_trans)
  show "lframe s t \<Longrightarrow> disksize t = disksize s" by (simp add: lframe_same)
  show "lframe s t \<Longrightarrow> log_cap t = log_cap s" by (simp add: lframe_same log_cap_def)
  show "lframe s t \<Longrightarrow> log_area (klog t) = log_area (klog s)" by (simp add: lframe_same)
  show "\<exists>b t. bread 1 n s = Done b t" if "in_op s" "n < disksize s" "readable (cobs s) n"
    using bcache.rd_total [of s n] that by (simp add: in_op_def)
  show "(1, n) \<notin> ran (v_held (cobs s)) \<and> v_held (cobs s) b = None \<and> in_op t \<and> lframe s t \<and>
      cobs t = (cobs s)\<lparr>v_held := (v_held (cobs s))(b \<mapsto> (1, n))\<rparr>"
    if "in_op s" "bread 1 n s = Done b t"
    using bcache.rd_law [OF in_op_cache that(2)] in_op_frame [OF that(1), of t] that(1) by simp
  show "in_op (bstore b f s) \<and> lframe s (bstore b f s) \<and>
      cobs (bstore b f s) = (cobs s)\<lparr>v_blocks := (v_blocks (cobs s))(a := f (v_blocks (cobs s) a))\<rparr>"
    if "in_op s" "v_held (cobs s) b = Some a" "length (f (v_blocks (cobs s) a)) = BSIZE"
    by (rule in_op_frame [OF that(1) bcache.st_law [of s b a f]]) (use that in_op_cache in auto)
  show "wp (brelse b) (\<lambda>_ t. in_op t \<and> lframe s t \<and>
      cobs t = (cobs s)\<lparr>v_held := (v_held (cobs s))(b := None)\<rparr>) s"
    if "in_op s" "v_held (cobs s) b = Some a" "a \<in> v_dirty (cobs s) \<or> v_blocks (cobs s) a = v_disk (cobs s) a"
    by (rule wp_mono [OF bcache.rl_law [OF in_op_cache that(2,3)]], rule that(1), rule in_op_frame [OF that(1)]) simp_all
  show "bdata b s = v_blocks (cobs s) a" if "in_op s" "v_held (cobs s) b = Some a"
    using bcache.data_law [of s b a] that by (simp add: in_op_def)
  show "v_blocks (cobs s) a = v_disk (cobs s) a"
    if "in_op s" "a \<notin> ran (v_held (cobs s))" "a \<notin> v_dirty (cobs s)"
    using bcache.clean_law [of s a] that by (simp add: in_op_def)
  show "length (v_blocks (cobs s) a) = BSIZE" if "in_op s"
    using bcache.length_law [of s a] that by (simp add: in_op_def)
  show "wp (log_write b) (\<lambda>_ t. in_op t \<and> lframe s t \<and>
      cobs t = (cobs s)\<lparr>v_dirty := insert (1, n) (v_dirty (cobs s))\<rparr>) s"
    if "in_op s" "v_held (cobs s) b = Some (1, n)" "n \<notin> log_area (klog s)" "card (v_dirty (cobs s)) < log_cap s"
    by (rule wp_mono [OF log_write_spec [OF that(1) _ that(3)]])
      (use that in_op_room [OF that(1)] in \<open>auto simp: cobs_def\<close>)
qed

end
