(* ===== verification/Devices.thy ===== *)
theory Devices
  imports Log
begin

text \<open>
  The devices the kernel drives through I/O ports and memory-mapped registers: the 8259A
  interrupt controllers (\<open>src/picirq.c\<close>), the interval timer (\<open>src/timer.c\<close>), the I/O APIC
  (\<open>src/ioapic.c\<close>), the local APIC and the CMOS clock (\<open>src/lapic.c\<close>), the serial port
  (\<open>src/uart.c\<close>) and the keyboard (\<open>src/kbd.c\<close>, \<open>src/kbd.h\<close>). What the kernel writes to a port
  is kept as a trace; what a port delivers is an arbitrary sequence of bytes for each port. The
  registers of the APICs keep what is written to them.
\<close>

unbundle bit_operations_syntax

section \<open>State\<close>

definition T_IRQ0 :: nat where "T_IRQ0 = 32"
definition IRQ_TIMER :: nat where "IRQ_TIMER = 0"
definition IRQ_KBD :: nat where "IRQ_KBD = 1"
definition IRQ_COM1 :: nat where "IRQ_COM1 = 4"
definition IRQ_IDE :: nat where "IRQ_IDE = 14"
definition IRQ_ERROR :: nat where "IRQ_ERROR = 19"
definition IRQ_SPURIOUS :: nat where "IRQ_SPURIOUS = 31"

text \<open>
  A segment descriptor of \<open>src/mmu.h\<close> (the bit fields of \<open>struct segdesc\<close>); each CPU has a table
  of them. \<open>kdata\<close> is the address of the linker symbol \<open>data\<close>.
\<close>

record segdesc =
  lim_15_0 :: u16
  base_15_0 :: u16
  base_23_16 :: u8
  seg_type :: u8
  seg_s :: bool
  seg_dpl :: u8
  seg_p :: bool
  lim_19_16 :: u8
  seg_db :: bool
  seg_g :: bool
  base_31_24 :: u8

record devs = logs +
  kdata :: u32
  gdts :: "nat \<Rightarrow> nat \<Rightarrow> segdesc"
  port_out :: "(nat \<times> u8) list"
  port_src :: "nat \<Rightarrow> nat \<Rightarrow> u8"
  port_cnt :: "nat \<Rightarrow> nat"
  irqmask :: u16
  ismp :: bool
  ncpu :: nat
  bcpu :: nat
  ioapicid :: u8
  ioapic_regs :: "nat \<Rightarrow> u32"
  lapic :: "u32 option"
  lapic_regs :: "nat \<Rightarrow> u32"
  lapic_out :: "(nat \<times> u32) list"
  uart :: bool
  kbd_shift :: u32

lemma crit_devs [crit_simps]:
  "kdata (crit ls s) = kdata s" "gdts (crit ls s) = gdts s" "port_out (crit ls s) = port_out s" "port_src (crit ls s) = port_src s"
  "port_cnt (crit ls s) = port_cnt s" "irqmask (crit ls s) = irqmask s"
  "ismp (crit ls s) = ismp s" "ncpu (crit ls s) = ncpu s" "bcpu (crit ls s) = bcpu s"
  "ioapicid (crit ls s) = ioapicid s" "ioapic_regs (crit ls s) = ioapic_regs s"
  "lapic (crit ls s) = lapic s" "lapic_regs (crit ls s) = lapic_regs s"
  "lapic_out (crit ls s) = lapic_out s" "uart (crit ls s) = uart s" "kbd_shift (crit ls s) = kbd_shift s"
  "port_out_update f1 (crit ls s) = crit ls (port_out_update f1 s)"
  "port_cnt_update f2 (crit ls s) = crit ls (port_cnt_update f2 s)"
  "irqmask_update f3 (crit ls s) = crit ls (irqmask_update f3 s)"
  "ioapic_regs_update f4 (crit ls s) = crit ls (ioapic_regs_update f4 s)"
  "lapic_regs_update f5 (crit ls s) = crit ls (lapic_regs_update f5 s)"
  "lapic_out_update f6 (crit ls s) = crit ls (lapic_out_update f6 s)"
  "uart_update f7 (crit ls s) = crit ls (uart_update f7 s)"
  "kbd_shift_update f8 (crit ls s) = crit ls (kbd_shift_update f8 s)"
  by (simp_all add: crit_def mycpu_def)

lemma quiet_devs [simp]:
  "quiet (port_out_update f1 s) = quiet s" "quiet (port_cnt_update f2 s) = quiet s"
  "quiet (irqmask_update f3 s) = quiet s" "quiet (ioapic_regs_update f4 s) = quiet s"
  "quiet (lapic_regs_update f5 s) = quiet s" "quiet (lapic_out_update f6 s) = quiet s"
  "quiet (uart_update f7 s) = quiet s" "quiet (kbd_shift_update f8 s) = quiet s"
  by (simp_all add: quiet_def mycpu_def)

section \<open>Ports\<close>

definition outb :: "nat \<Rightarrow> u8 \<Rightarrow> ('z devs_scheme, unit) km" where
  "outb port d = modify (\<lambda>s. s\<lparr>port_out := port_out s @ [(port, d)]\<rparr>)"

definition inb :: "nat \<Rightarrow> ('z devs_scheme, u8) km" where
  "inb port =
     kbind (gets (\<lambda>s. port_src s port (port_cnt s port))) (\<lambda>d.
     kthen (modify (\<lambda>s. s\<lparr>port_cnt := (port_cnt s)(port := Suc (port_cnt s port))\<rparr>)) (
     ret d))"

section \<open>The interrupt controllers and the timer\<close>

definition IO_PIC1 :: nat where "IO_PIC1 = 0x20"
definition IO_PIC2 :: nat where "IO_PIC2 = 0xA0"
definition IRQ_SLAVE :: nat where "IRQ_SLAVE = 2"

definition irqmask_init :: u16 where
  "irqmask_init = 0xFFFF AND NOT (push_bit IRQ_SLAVE 1)"

definition picsetmask :: "u16 \<Rightarrow> ('z devs_scheme, unit) km" where
  "picsetmask m =
     kthen (modify (\<lambda>s. s\<lparr>irqmask := m\<rparr>)) (
     kthen (outb (IO_PIC1 + 1) (ucast m)) (
     outb (IO_PIC2 + 1) (ucast (drop_bit 8 m))))"

definition picenable :: "nat \<Rightarrow> ('z devs_scheme, unit) km" where
  "picenable irq = kbind (gets irqmask) (\<lambda>m. picsetmask (m AND NOT (push_bit irq 1)))"

definition outbs :: "(nat \<times> u8) list \<Rightarrow> ('z devs_scheme, unit) km" where
  "outbs ws = kfor ws (\<lambda>(p, d). outb p d)"

definition picinit :: "('z devs_scheme, unit) km" where
  "picinit =
     kthen (outbs
       [(IO_PIC1 + 1, 0xFF), (IO_PIC2 + 1, 0xFF),
        (IO_PIC1, 0x11), (IO_PIC1 + 1, of_nat T_IRQ0), (IO_PIC1 + 1, push_bit IRQ_SLAVE 1), (IO_PIC1 + 1, 0x3),
        (IO_PIC2, 0x11), (IO_PIC2 + 1, of_nat (T_IRQ0 + 8)), (IO_PIC2 + 1, of_nat IRQ_SLAVE), (IO_PIC2 + 1, 0x3),
        (IO_PIC1, 0x68), (IO_PIC1, 0x0a), (IO_PIC2, 0x68), (IO_PIC2, 0x0a)]) (
     kbind (gets irqmask) (\<lambda>m. kwhen (m \<noteq> 0xFFFF) (picsetmask m)))"

definition TIMER_DIV :: "nat \<Rightarrow> nat" where
  "TIMER_DIV x = (1193182 + x div 2) div x"

definition timerinit :: "('z devs_scheme, unit) km" where
  "timerinit =
     kthen (outb 0x43 (0x00 OR 0x04 OR 0x30)) (
     kthen (outb 0x40 (of_nat (TIMER_DIV 100 mod 256))) (
     kthen (outb 0x40 (of_nat (TIMER_DIV 100 div 256))) (
     picenable IRQ_TIMER)))"

section \<open>The I/O APIC\<close>

text \<open>Writing \<open>reg\<close> selects the register that the data word then reads or writes.\<close>

definition REG_ID :: nat where "REG_ID = 0"
definition REG_VER :: nat where "REG_VER = 1"
definition REG_TABLE :: nat where "REG_TABLE = 0x10"
definition INT_DISABLED :: u32 where "INT_DISABLED = 0x00010000"

definition ioapicread :: "nat \<Rightarrow> ('z devs_scheme, u32) km" where
  "ioapicread reg = gets (\<lambda>s. ioapic_regs s reg)"

definition ioapicwrite :: "nat \<Rightarrow> u32 \<Rightarrow> ('z devs_scheme, unit) km" where
  "ioapicwrite reg d = modify (\<lambda>s. s\<lparr>ioapic_regs := (ioapic_regs s)(reg := d)\<rparr>)"

definition ioapicenable :: "nat \<Rightarrow> nat \<Rightarrow> ('z devs_scheme, unit) km" where
  "ioapicenable irq cpunum =
     kbind (gets ismp) (\<lambda>mp. kwhen mp (
     kthen (ioapicwrite (REG_TABLE + 2 * irq) (of_nat (T_IRQ0 + irq))) (
     ioapicwrite (REG_TABLE + 2 * irq + 1) (push_bit 24 (of_nat cpunum)))))"

section \<open>The local APIC\<close>

definition LAPIC_ID :: nat where "LAPIC_ID = 8"
definition LAPIC_VER :: nat where "LAPIC_VER = 12"
definition LAPIC_TPR :: nat where "LAPIC_TPR = 32"
definition LAPIC_EOI :: nat where "LAPIC_EOI = 44"
definition LAPIC_SVR :: nat where "LAPIC_SVR = 60"
definition LAPIC_ESR :: nat where "LAPIC_ESR = 160"
definition LAPIC_ICRLO :: nat where "LAPIC_ICRLO = 192"
definition LAPIC_ICRHI :: nat where "LAPIC_ICRHI = 196"
definition LAPIC_TIMER :: nat where "LAPIC_TIMER = 200"
definition LAPIC_PCINT :: nat where "LAPIC_PCINT = 208"
definition LAPIC_LINT0 :: nat where "LAPIC_LINT0 = 212"
definition LAPIC_LINT1 :: nat where "LAPIC_LINT1 = 216"
definition LAPIC_ERROR :: nat where "LAPIC_ERROR = 220"
definition LAPIC_TICR :: nat where "LAPIC_TICR = 224"
definition LAPIC_TDCR :: nat where "LAPIC_TDCR = 248"

definition lapicw :: "nat \<Rightarrow> u32 \<Rightarrow> ('z devs_scheme, unit) km" where
  "lapicw i v = modify (\<lambda>s. s\<lparr>lapic_regs := (lapic_regs s)(i := v), lapic_out := lapic_out s @ [(i, v)]\<rparr>)"

definition lapicws :: "(nat \<times> u32) list \<Rightarrow> ('z devs_scheme, unit) km" where
  "lapicws ws = kfor ws (\<lambda>(i, v). lapicw i v)"

text \<open>The wait for the delivery of the INIT message ends at once when the register shows none.\<close>

definition lapicinit :: "('z devs_scheme, unit) km" where
  "lapicinit =
     kbind (gets lapic) (\<lambda>l. kwhen (l \<noteq> None) (
     kthen (lapicws
       [(LAPIC_SVR, 0x100 OR of_nat (T_IRQ0 + IRQ_SPURIOUS)), (LAPIC_TDCR, 0xB),
        (LAPIC_TIMER, 0x20000 OR of_nat (T_IRQ0 + IRQ_TIMER)), (LAPIC_TICR, 10000000),
        (LAPIC_LINT0, 0x10000), (LAPIC_LINT1, 0x10000)]) (
     kbind (gets (\<lambda>s. lapic_regs s LAPIC_VER)) (\<lambda>ver.
     kthen (kwhen (drop_bit 16 ver AND 0xFF \<ge> 4) (lapicw LAPIC_PCINT 0x10000)) (
     kthen (lapicws
       [(LAPIC_ERROR, of_nat (T_IRQ0 + IRQ_ERROR)), (LAPIC_ESR, 0), (LAPIC_ESR, 0), (LAPIC_EOI, 0),
        (LAPIC_ICRHI, 0), (LAPIC_ICRLO, 0x80000 OR 0x500 OR 0x8000)]) (
     kbind (gets (\<lambda>s. lapic_regs s LAPIC_ICRLO)) (\<lambda>icr.
     kthen (if icr AND 0x1000 \<noteq> 0 then kspin else ret ()) (
     lapicw LAPIC_TPR 0))))))))"

definition lapiceoi :: "('z devs_scheme, unit) km" where
  "lapiceoi = kbind (gets lapic) (\<lambda>l. kwhen (l \<noteq> None) (lapicw LAPIC_EOI 0))"

definition microdelay :: "int \<Rightarrow> ('z devs_scheme, unit) km" where
  "microdelay us = ret ()"

text \<open>
  The warm reset vector is the doubleword at physical address \<open>0x467\<close>, which \<open>lapicstartap\<close>
  stores as two halfwords; the value stored there is the parameter of the write to memory.
\<close>

definition CMOS_PORT :: nat where "CMOS_PORT = 0x70"
definition CMOS_RETURN :: nat where "CMOS_RETURN = 0x71"

definition warm_reset :: "u32 \<Rightarrow> u16 list" where
  "warm_reset addr = [0, ucast (drop_bit 4 addr)]"

definition lapicstartap :: "(u16 list \<Rightarrow> ('z devs_scheme, unit) km) \<Rightarrow> u8 \<Rightarrow> u32 \<Rightarrow> ('z devs_scheme, unit) km" where
  "lapicstartap set_wrv apicid addr =
     kthen (outb CMOS_PORT 0xF) (
     kthen (outb (CMOS_PORT + 1) 0x0A) (
     kthen (set_wrv (warm_reset addr)) (
     kthen (lapicw LAPIC_ICRHI (push_bit 24 (ucast apicid))) (
     kthen (lapicw LAPIC_ICRLO (0x500 OR 0x8000 OR 0x4000)) (
     kthen (microdelay 200) (
     kthen (lapicw LAPIC_ICRLO (0x500 OR 0x8000)) (
     kthen (microdelay 100) (
     kfor [0..<2::nat] (\<lambda>i.
       kthen (lapicw LAPIC_ICRHI (push_bit 24 (ucast apicid))) (
       kthen (lapicw LAPIC_ICRLO (0x600 OR drop_bit 12 addr)) (
       microdelay 200)))))))))))"

section \<open>The clock\<close>

record rtcdate =
  rtc_second :: u32
  rtc_minute :: u32
  rtc_hour :: u32
  rtc_day :: u32
  rtc_month :: u32
  rtc_year :: u32

definition cmos_read :: "u8 \<Rightarrow> ('z devs_scheme, u32) km" where
  "cmos_read reg =
     kthen (outb CMOS_PORT reg) (
     kthen (microdelay 200) (
     kbind (inb CMOS_RETURN) (\<lambda>d. ret (ucast d))))"

definition fill_rtcdate :: "('z devs_scheme, rtcdate) km" where
  "fill_rtcdate =
     kbind (cmos_read 0x00) (\<lambda>sec. kbind (cmos_read 0x02) (\<lambda>mi. kbind (cmos_read 0x04) (\<lambda>ho.
     kbind (cmos_read 0x07) (\<lambda>da. kbind (cmos_read 0x08) (\<lambda>mo. kbind (cmos_read 0x09) (\<lambda>ye.
     ret \<lparr>rtc_second = sec, rtc_minute = mi, rtc_hour = ho, rtc_day = da, rtc_month = mo, rtc_year = ye\<rparr>))))))"

text \<open>The loop that waits for two equal readings; a clock that never settles exhausts any fuel.\<close>

primrec cmos_stable :: "nat \<Rightarrow> ('z devs_scheme, rtcdate) km" where
  "cmos_stable 0 = kspin"
| "cmos_stable (Suc k) =
     kbind fill_rtcdate (\<lambda>t1.
     kbind (cmos_read 0x0a) (\<lambda>sta.
     if sta AND 0x80 \<noteq> 0 then cmos_stable k
     else kbind fill_rtcdate (\<lambda>t2. if t1 = t2 then ret t1 else cmos_stable k)))"

definition bcd_conv :: "u32 \<Rightarrow> u32" where
  "bcd_conv x = drop_bit 4 x * 10 + (x AND 0xf)"

definition cmostime :: "nat \<Rightarrow> ('z devs_scheme, rtcdate) km" where
  "cmostime fuel =
     kbind (cmos_read 0x0b) (\<lambda>sb.
     let bcd = (sb AND 4 = 0) in
     kbind (cmos_stable fuel) (\<lambda>t1.
     let t = (if bcd then \<lparr>rtc_second = bcd_conv (rtc_second t1), rtc_minute = bcd_conv (rtc_minute t1),
                rtc_hour = bcd_conv (rtc_hour t1), rtc_day = bcd_conv (rtc_day t1),
                rtc_month = bcd_conv (rtc_month t1), rtc_year = bcd_conv (rtc_year t1)\<rparr> else t1) in
     ret (t\<lparr>rtc_year := rtc_year t + 2000\<rparr>)))"

section \<open>The serial port\<close>

definition COM1 :: nat where "COM1 = 0x3f8"

text \<open>The wait for the transmitter: at most \<open>k\<close> readings of the line status.\<close>

primrec uart_wait :: "nat \<Rightarrow> ('z devs_scheme, unit) km" where
  "uart_wait 0 = ret ()"
| "uart_wait (Suc k) =
     kbind (inb (COM1 + 5)) (\<lambda>st.
     if st AND 0x20 \<noteq> 0 then ret () else kthen (microdelay 10) (uart_wait k))"

definition uartputc :: "u32 \<Rightarrow> ('z devs_scheme, unit) km" where
  "uartputc c =
     kbind (gets uart) (\<lambda>u. kwhen u (
     kthen (uart_wait 128) (outb (COM1 + 0) (ucast c))))"

definition uartinit :: "('z devs_scheme, unit) km" where
  "uartinit =
     kthen (outbs [(COM1 + 2, 0), (COM1 + 3, 0x80), (COM1 + 0, of_nat (115200 div 9600)), (COM1 + 1, 0),
       (COM1 + 3, 0x03), (COM1 + 4, 0), (COM1 + 1, 0x01)]) (
     kbind (inb (COM1 + 5)) (\<lambda>st.
     if st = 0xFF then ret ()
     else
       kthen (modify (\<lambda>s. s\<lparr>uart := True\<rparr>)) (
       kbind (inb (COM1 + 2)) (\<lambda>_.
       kbind (inb (COM1 + 0)) (\<lambda>_.
       kthen (picenable IRQ_COM1) (
       kthen (ioapicenable IRQ_COM1 0) (
       kfor (''xv6...'' @ [CHR 0x0A]) (\<lambda>c. uartputc (of_char c)))))))))"

definition uartgetc :: "('z devs_scheme, int) km" where
  "uartgetc =
     kbind (gets uart) (\<lambda>u.
     if \<not> u then ret (- 1)
     else kbind (inb (COM1 + 5)) (\<lambda>st.
       if st AND 0x01 = 0 then ret (- 1)
       else kbind (inb (COM1 + 0)) (\<lambda>d. ret (uint d))))"

section \<open>The keyboard\<close>

definition E0ESC :: u32 where "E0ESC = 64"
definition CAPSLOCK :: u32 where "CAPSLOCK = 8"

text \<open>A table of \<open>src/kbd.h\<close>: consecutive entries from 0, then the entries given by their index.\<close>

definition kbd_table :: "nat list \<Rightarrow> (nat \<times> nat) list \<Rightarrow> nat \<Rightarrow> u32" where
  "kbd_table base special i =
     of_nat (case map_of special i of Some c \<Rightarrow> c | None \<Rightarrow> if i < length base then base ! i else 0)"

definition shiftcode :: "nat \<Rightarrow> u32" where
  "shiftcode = kbd_table [] [(0x1D, 2), (0x2A, 1), (0x36, 1), (0x38, 4), (0x9D, 2), (0xB8, 4)]"

definition togglecode :: "nat \<Rightarrow> u32" where
  "togglecode = kbd_table [] [(0x3A, 8), (0x45, 16), (0x46, 32)]"

definition kbd_keys :: "(nat \<times> nat) list" where
  "kbd_keys = [(0xC8, 0xE2), (0xD0, 0xE3), (0xC9, 0xE6), (0xD1, 0xE7), (0xCB, 0xE4), (0xCD, 0xE5),
     (0x97, 0xE0), (0xCF, 0xE1), (0xD2, 0xE8), (0xD3, 0xE9)]"

definition chars :: "string \<Rightarrow> nat list" where
  "chars = map of_char"

definition normalmap :: "nat \<Rightarrow> u32" where
  "normalmap = kbd_table
     ([0, 0x1B] @ chars ''1234567890-='' @ [8, 9] @ chars ''qwertyuiop[]'' @ [10, 0] @
      chars ''asdfghjkl;'' @ [39] @ chars ''`'' @ [0, 92] @ chars ''zxcvbnm,./'' @ [0] @ chars ''*'' @
      [0] @ chars '' '' @ replicate 13 0 @ chars ''789-456+1230.'' @ [0, 0, 0, 0])
     ([(0x9C, 10), (0xB5, 47)] @ kbd_keys)"

definition shiftmap :: "nat \<Rightarrow> u32" where
  "shiftmap = kbd_table
     ([0, 27] @ chars ''!@#$%^&*()_+'' @ [8, 9] @ chars ''QWERTYUIOP{}'' @ [10, 0] @
      chars ''ASDFGHJKL:'' @ [34] @ chars ''~'' @ [0] @ chars ''|ZXCVBNM<>?'' @ [0] @ chars ''*'' @
      [0] @ chars '' '' @ replicate 13 0 @ chars ''789-456+1230.'' @ [0, 0, 0, 0])
     ([(0x9C, 10), (0xB5, 47)] @ kbd_keys)"

text \<open>\<open>C(x)\<close> is \<open>x - '@'\<close> in the \<open>uchar\<close> table.\<close>

definition ctl :: "nat \<Rightarrow> nat" where
  "ctl x = (x + 256 - 64) mod 256"

definition ctlmap :: "nat \<Rightarrow> u32" where
  "ctlmap = kbd_table
     (replicate 16 0 @ map ctl (chars ''QWERTYUIOP'') @ [0, 0, 13, 0] @ map ctl (chars ''ASDFGHJKL'') @
      [0, 0, 0, 0] @ map ctl (92 # chars ''ZXCVBNM'') @ [0, 0, ctl 47, 0, 0])
     ([(0x9C, 13), (0xB5, ctl 47)] @ kbd_keys)"

definition charcode :: "u32 \<Rightarrow> nat \<Rightarrow> u32" where
  "charcode m = (if m = 0 then normalmap else if m = 1 then shiftmap else ctlmap)"

definition kbdgetc :: "('z devs_scheme, int) km" where
  "kbdgetc =
     kbind (inb 0x64) (\<lambda>st.
     if st AND 0x01 = 0 then ret (- 1)
     else kbind (inb 0x60) (\<lambda>d.
     let data = (ucast d :: u32) in
     kbind (gets kbd_shift) (\<lambda>shift.
     if data = 0xE0 then
       kthen (modify (\<lambda>s. s\<lparr>kbd_shift := shift OR E0ESC\<rparr>)) (ret 0)
     else if data AND 0x80 \<noteq> 0 then
       let data = (if shift AND E0ESC \<noteq> 0 then data else data AND 0x7F) in
       kthen (modify (\<lambda>s. s\<lparr>kbd_shift := shift AND NOT (shiftcode (unat data) OR E0ESC)\<rparr>)) (ret 0)
     else
       let esc = (shift AND E0ESC \<noteq> 0);
           data = (if esc then data OR 0x80 else data);
           shift = (if esc then shift AND NOT E0ESC else shift);
           shift = shift OR shiftcode (unat data);
           shift = shift XOR togglecode (unat data);
           c = charcode (shift AND 3) (unat data);
           c = (if shift AND CAPSLOCK \<noteq> 0 then
                  if 97 \<le> c \<and> c \<le> 122 then c + 65 - 97
                  else if 65 \<le> c \<and> c \<le> 90 then c + 97 - 65 else c
                else c) in
       kthen (modify (\<lambda>s. s\<lparr>kbd_shift := shift\<rparr>)) (ret (uint c)))))"

section \<open>A concrete machine\<close>

definition small_devs :: devs where
  "small_devs = logs.extend (small_logs small_log)
     \<lparr>kdata = 0x80108000, gdts = (\<lambda>_ _. \<lparr>lim_15_0 = 0, base_15_0 = 0, base_23_16 = 0, seg_type = 0, seg_s = False,
        seg_dpl = 0, seg_p = False, lim_19_16 = 0, seg_db = False, seg_g = False, base_31_24 = 0\<rparr>),
      port_out = [], port_src = (\<lambda>_ _. 0x20), port_cnt = (\<lambda>_. 0), irqmask = irqmask_init, ismp = True,
      ncpu = 2, bcpu = 0, ioapicid = 0, ioapic_regs = (\<lambda>_. 0), lapic = Some 0xFEE00000, lapic_regs = (\<lambda>_. 0),
      lapic_out = [], uart = True, kbd_shift = 0\<rparr>"

lemma small_devs_boot:
  "quiet small_devs" "curproc small_devs = Some 1" "length (ptable small_devs) = 2" "disksize small_devs = 1000"
  "klog small_devs = small_log" "ptable small_devs = ptable (small_procs RUNNING None)" "cpu_id small_devs = 0"
  "uart small_devs" "port_out small_devs = []" "kbd_shift small_devs = 0" "port_src small_devs = (\<lambda>_ _. 0x20)"
  using small_logs_boot [of small_log]
  by (simp_all add: small_devs_def logs.defs quiet_def mycpu_def curproc_def)
    (simp_all add: small_logs_def caches.defs small_cache_def disks.defs small_disk_def kmems.defs small_kmem_def
      procs.defs small_procs_def)

end
