(* ===== verification/Ring.thy ===== *)
theory Ring
  imports Kernel_Prelude
begin

text \<open>
  Ring buffers as the kernel uses them for pipes and for console input: an array of \<open>n\<close> bytes and two
  32-bit counters that only ever count up and wrap around, a slot being the counter modulo \<open>n\<close>.
  The length \<open>n\<close> divides the range of the counters, so the slots stay consecutive across the
  wrap-around.
\<close>

section \<open>The bytes between two counters\<close>

definition ring_len :: "u32 \<Rightarrow> u32 \<Rightarrow> nat" where
  "ring_len r w = unat (w - r)"

definition ring_q :: "nat \<Rightarrow> 'a list \<Rightarrow> u32 \<Rightarrow> u32 \<Rightarrow> 'a list" where
  "ring_q n d r w = map (\<lambda>i. d ! ((unat r + i) mod n)) [0..<ring_len r w]"

lemma length_ring_q [simp]: "length (ring_q n d r w) = ring_len r w"
  by (simp add: ring_q_def)

lemma ring_len_0 [simp]: "ring_len r w = 0 \<longleftrightarrow> w = r"
  by (simp add: ring_len_def unat_eq_0)

lemma ring_len_same [simp]: "ring_len r r = 0"
  by simp

lemma ring_empty [simp]: "ring_q n d r w = [] \<longleftrightarrow> w = r"
  by (metis length_0_conv length_ring_q ring_len_0)

lemma ring_len_eq: "k < 2 ^ 32 \<Longrightarrow> ring_len r w = k \<longleftrightarrow> w = r + of_nat k"
proof -
  assume k: "k < 2 ^ 32"
  then have u: "unat (of_nat k :: u32) = k" by (simp add: unsigned_of_nat take_bit_nat_eq_self)
  have "ring_len r w = k \<longleftrightarrow> w - r = of_nat k" unfolding ring_len_def by (metis u word_unat_eq_iff)
  also have "\<dots> \<longleftrightarrow> w = r + of_nat k" by (auto simp: algebra_simps)
  finally show ?thesis .
qed

lemma unat_add_nat: "unat (x + of_nat i :: u32) = (unat x + i) mod 2 ^ 32"
  by (simp add: unat_word_ariths unsigned_of_nat take_bit_eq_mod mod_simps)

lemma ring_slot: "n dvd 2 ^ 32 \<Longrightarrow> unat (x + of_nat i :: u32) mod n = (unat x + i) mod n"
  unfolding unat_add_nat by (rule mod_mod_cancel)

lemma ring_write_slot: "n dvd 2 ^ 32 \<Longrightarrow> unat w mod n = (unat r + ring_len r w) mod n"
  using ring_slot [of n r "ring_len r w"] by (simp add: ring_len_def)

lemma mod_shift_inj:
  assumes "i < n" "j < n" "(a + i) mod n = (a + j) mod (n :: nat)"
  shows "i = j"
  using assms
proof (induction i j rule: linorder_wlog)
  case (le i j)
  then have "n dvd (a + j) - (a + i)" by (metis add_left_mono mod_eq_dvd_iff_nat)
  then have "n dvd j - i" by simp
  then have "j - i = 0" using le by (metis dvd_imp_le less_imp_diff_less not_gr_zero not_less)
  then show ?case using le by simp
next
  case (sym i j)
  then show ?case by metis
qed

section \<open>Adding and removing\<close>

lemma ring_len_Suc: "ring_len r w + 1 < 2 ^ 32 \<Longrightarrow> ring_len r (w + 1) = Suc (ring_len r w)"
proof -
  assume a: "ring_len r w + 1 < 2 ^ 32"
  have "w + 1 - r = (w - r) + of_nat 1" by (simp add: algebra_simps)
  then have "ring_len r (w + 1) = (unat (w - r) + 1) mod 2 ^ 32"
    unfolding ring_len_def by (simp only: unat_add_nat)
  then show ?thesis using a by (simp add: ring_len_def)
qed

lemma ring_put:
  assumes n: "n dvd 2 ^ 32" "length d = n" and l: "ring_len r w < n" and m: "n < 2 ^ 32"
  shows "ring_q n (d[unat w mod n := x]) r (w + 1) = ring_q n d r w @ [x]"
proof -
  let ?k = "ring_len r w"
  have k: "ring_len r (w + 1) = Suc ?k" by (rule ring_len_Suc) (use l m in simp)
  have w: "unat w mod n = (unat r + ?k) mod n" by (rule ring_write_slot [OF n(1)])
  have ne: "(unat r + ?k) mod n \<noteq> (unat r + i) mod n" if "i < ?k" for i
    using mod_shift_inj [of i n ?k "unat r"] that l by auto
  have lt: "(unat r + ?k) mod n < length d" using n l by simp
  show ?thesis unfolding ring_q_def k w using ne lt by simp
qed

lemma ring_len_pred: "w \<noteq> r \<Longrightarrow> ring_len r w = Suc (ring_len (r + 1) w)"
proof -
  assume "w \<noteq> r"
  then have "w - r \<noteq> 0" by auto
  then have "Suc (unat (w - r - 1)) = unat (w - r)"
    using unat_minus_one [of "w - r"] unat_eq_0 [of "w - r"] by simp
  then show ?thesis by (simp add: ring_len_def algebra_simps)
qed

lemma ring_get:
  assumes n: "n dvd 2 ^ 32" and e: "w \<noteq> r"
  shows "ring_q n d r w = d ! (unat r mod n) # ring_q n d (r + 1) w"
proof -
  have "(unat (r + 1) + i) mod n = (unat r + Suc i) mod n" for i
  proof -
    have "(unat (r + 1) + i) mod n = (unat (r + 1) mod n + i) mod n" by (simp add: mod_add_left_eq)
    also have "\<dots> = ((unat r + 1) mod n + i) mod n" using ring_slot [OF n, of r 1] by simp
    finally show ?thesis by (simp add: mod_add_left_eq)
  qed
  then show ?thesis
    unfolding ring_q_def ring_len_pred [OF e] by (simp add: map_upt_Suc del: upt_Suc)
qed

text \<open>Taking the newest byte back off the end.\<close>

lemma ring_unput:
  assumes n: "n dvd 2 ^ 32" and e: "w \<noteq> r"
  shows "ring_q n d r w = ring_q n d r (w - 1) @ [d ! (unat (w - 1) mod n)]"
proof -
  have l: "ring_len r (w - 1) + 1 < 2 ^ 32"
  proof -
    have "w - 1 - r \<noteq> - 1" using e by auto
    then have "unat (w - 1 - r) \<noteq> unat (- 1 :: u32)" by (simp only: word_unat_eq_iff not_False_eq_True)
    then have "unat (w - 1 - r) \<noteq> 4294967295" by (simp add: unsigned_minus_1_eq_mask mask_eq_exp_minus_1)
    moreover have "unat (w - 1 - r) < 4294967296" using unsigned_less [of "w - 1 - r"] by simp
    ultimately show ?thesis by (simp add: ring_len_def)
  qed
  have "ring_len r w = Suc (ring_len r (w - 1))" using ring_len_Suc [OF l] by simp
  then show ?thesis using ring_write_slot [OF n, of "w - 1" r] by (simp add: ring_q_def)
qed

lemma ring_len_add: "ring_len r w + ring_len w e < 2 ^ 32 \<Longrightarrow> ring_len r e = ring_len r w + ring_len w e"
proof -
  assume a: "ring_len r w + ring_len w e < 2 ^ 32"
  have "e - r = (w - r) + (e - w)" by simp
  then have "ring_len r e = (unat (w - r) + unat (e - w)) mod 2 ^ 32"
    unfolding ring_len_def by (simp only: unat_word_ariths) simp
  then show ?thesis using a by (simp add: ring_len_def)
qed

lemma ring_q_append:
  assumes n: "n dvd 2 ^ 32" and l: "ring_len r w + ring_len w e < 2 ^ 32"
  shows "ring_q n d r e = ring_q n d r w @ ring_q n d w e"
proof -
  have s: "(unat r + (i + ring_len r w)) mod n = (unat w + i) mod n" for i
  proof -
    have "(unat w + i) mod n = (unat w mod n + i) mod n" by (simp add: mod_add_left_eq)
    also have "\<dots> = ((unat r + ring_len r w) mod n + i) mod n" by (simp add: ring_write_slot [OF n, of w r])
    finally show ?thesis by (simp add: mod_add_left_eq mod_add_right_eq ac_simps)
  qed
  have u: "[0..<a + b] = [0..<a] @ map (\<lambda>i. i + a) [0..<b]" for a b :: nat
    by (simp only: map_add_upt upt_add_eq_append [OF le0] add.commute [of b])
  show ?thesis unfolding ring_q_def ring_len_add [OF l] u by (simp add: s o_def)
qed

text \<open>Storing outside a range leaves it alone.\<close>

lemma ring_q_other:
  assumes n: "n dvd 2 ^ 32" and l: "ring_len r w + ring_len w e < n"
  shows "ring_q n (d[unat e mod n := x]) r w = ring_q n d r w"
proof -
  let ?k = "ring_len r w + ring_len w e"
  have "n \<le> 2 ^ 32" using dvd_imp_le [OF n] by simp
  then have lt: "?k < 2 ^ 32" using l by linarith
  have e: "unat e mod n = (unat r + ?k) mod n" using ring_write_slot [OF n, of e r] ring_len_add [OF lt] by simp
  have "(unat r + ?k) mod n \<noteq> (unat r + i) mod n" if "i < ring_len r w" for i
    using mod_shift_inj [of i n ?k "unat r"] that l by auto
  then show ?thesis unfolding ring_q_def e by simp
qed

end
