(* ===== verification/Digits.thy ===== *)
theory Digits
  imports Kernel_Prelude
begin

text \<open>
  The digits of a number as the kernel's and the user library's \<open>printint\<close> produce them, and the
  signed value of a machine word.
\<close>

text \<open>The digits of a number, least significant first: the \<open>do\<close> loop of the two \<open>printint\<close> functions.\<close>

function print_digits :: "nat \<Rightarrow> nat \<Rightarrow> nat list" where
  "print_digits base x =
     (if base < 2 \<or> x div base = 0 then [x mod base] else x mod base # print_digits base (x div base))"
  by pat_completeness auto
termination
proof (relation "measure snd", goal_cases)
  case (2 base x)
  then have "base \<noteq> 0" "1 < base" "0 < x" by (auto intro: gr0I)
  then show ?case by simp
qed simp

declare print_digits.simps [simp del]

lemma print_digits_Nil [simp]: "print_digits base x \<noteq> []"
  by (subst print_digits.simps) simp

lemma print_digits_length: "2 \<le> base \<Longrightarrow> x < base ^ k \<Longrightarrow> 0 < k \<Longrightarrow> length (print_digits base x) \<le> k"
proof (induction base x arbitrary: k rule: print_digits.induct)
  case (1 base x)
  show ?case
  proof (cases "x div base = 0")
    case True
    then show ?thesis using 1 by (subst print_digits.simps) simp
  next
    case False
    then obtain j where k: "k = Suc j" and j: "0 < j" using 1 by (cases k; cases "k - 1") auto
    have "x div base < base ^ j" using 1 k by (simp add: less_mult_imp_div_less mult.commute)
    then show ?thesis using 1 False j k by (subst print_digits.simps) auto
  qed
qed

lemma sint_u32: "sint (x :: u32) = (if uint x < 2147483648 then uint x else uint x - 4294967296)"
proof -
  have "sint x = (uint x + 2147483648) mod 4294967296 - 2147483648"
    using sint_uint [of x] by (simp add: signed_take_bit_eq_take_bit_shift take_bit_eq_mod)
  moreover have b: "0 \<le> uint x" "uint x < 4294967296" using uint_lt2p [of x] by simp_all
  moreover have "(uint x + 2147483648) mod 4294967296 = uint x - 2147483648" if "\<not> uint x < 2147483648"
  proof -
    have "(uint x + 2147483648) mod 4294967296 = (uint x + 2147483648 - 4294967296) mod 4294967296"
      by (rule minus_mod_self2 [symmetric])
    then show ?thesis using that b by simp
  qed
  ultimately show ?thesis by auto
qed

lemma sint_neg_unat: "sint (x :: u32) < 0 \<Longrightarrow> int (unat (- x)) = - sint x"
proof -
  assume n: "sint x < 0"
  have b: "0 \<le> uint x" "uint x < 4294967296" using uint_lt2p [of x] by simp_all
  have "int (unat (- x)) = uint (- x)" by simp
  also have "\<dots> = (- uint x) mod 4294967296" by (simp add: uint_word_ariths)
  also have "\<dots> = 4294967296 - uint x" using n b by (simp add: sint_u32 zmod_zminus1_eq_if split: if_splits)
  finally show ?thesis using n b by (simp add: sint_u32 split: if_splits)
qed

lemma sint_nonneg_unat: "\<not> sint (x :: u32) < 0 \<Longrightarrow> int (unat x) = sint x"
  using uint_lt2p [of x] by (auto simp: sint_u32 split: if_splits)

end
