(* ===== verification/Console.thy ===== *)
theory Console
  imports Devices Ring Digits
begin

text \<open>
  Console output of \<open>src/console.c\<close>: \<open>printint\<close>, \<open>cprintf\<close>, the screen driver \<open>cgaputc\<close>, \<open>consputc\<close>
  and \<open>panic\<close>; the line editor \<open>consoleintr\<close>; \<open>procdump\<close> of \<open>src/proc.c\<close>; and the
  callers of \<open>cprintf\<close> among the device drivers, \<open>ioapicinit\<close> and \<open>cpunum\<close>. Reading and writing the
  console as a file needs the inode locks and comes after them.
\<close>

unbundle bit_operations_syntax

section \<open>State\<close>

text \<open>
  The screen: its memory and the two cursor registers of the controller. The input line buffer
  with its read, write and edit indices.
\<close>

record consoles = devs +
  cons_locking :: bool
  panicked :: bool
  crt :: "nat \<Rightarrow> u16"
  crt_cursor :: u16
  in_buf :: "u8 list"
  in_r :: u32
  in_w :: u32
  in_e :: u32
  cpunum_n :: nat

lemma crit_consoles [crit_simps]:
  "cons_locking (crit ls s) = cons_locking s" "panicked (crit ls s) = panicked s"
  "crt (crit ls s) = crt s" "crt_cursor (crit ls s) = crt_cursor s" "in_buf (crit ls s) = in_buf s"
  "in_r (crit ls s) = in_r s" "in_w (crit ls s) = in_w s" "in_e (crit ls s) = in_e s"
  "crt_update f1 (crit ls s) = crit ls (crt_update f1 s)"
  "crt_cursor_update f2 (crit ls s) = crit ls (crt_cursor_update f2 s)"
  "in_buf_update f3 (crit ls s) = crit ls (in_buf_update f3 s)"
  "in_r_update f4 (crit ls s) = crit ls (in_r_update f4 s)"
  "in_w_update f4 (crit ls s) = crit ls (in_w_update f4 s)"
  "in_e_update f4 (crit ls s) = crit ls (in_e_update f4 s)"
  by (simp_all add: crit_def mycpu_def)

lemma quiet_consoles [simp]:
  "quiet (crt_update f1 s) = quiet s" "quiet (crt_cursor_update f2 s) = quiet s"
  "quiet (in_buf_update f3 s) = quiet s" "quiet (in_r_update f4 s) = quiet s"
  "quiet (in_w_update f4 s) = quiet s" "quiet (in_e_update f4 s) = quiet s"
  by (simp_all add: quiet_def mycpu_def)

section \<open>The screen\<close>

definition BACKSPACE :: int where "BACKSPACE = 0x100"

text \<open>
  The cursor position is read from and written back to registers 14 and 15. \<open>memset\<close> is called
  with the number of cells left on the screen as its length, which must not be negative.
\<close>

definition cga_char :: "int \<Rightarrow> u16" where
  "cga_char c = (of_int c AND 0xff) OR 0x0700"

definition cga_advance :: "int \<Rightarrow> nat \<Rightarrow> (nat \<Rightarrow> u16) \<Rightarrow> nat \<times> (nat \<Rightarrow> u16)" where
  "cga_advance c pos m =
     (if c = 10 then (pos + (80 - pos mod 80), m)
      else if c = BACKSPACE then (if pos > 0 then pos - 1 else pos, m)
      else (pos + 1, m(pos := cga_char c)))"

definition cga_scroll :: "nat \<Rightarrow> (nat \<Rightarrow> u16) \<Rightarrow> nat \<Rightarrow> u16" where
  "cga_scroll pos m i =
     (if pos \<le> i \<and> i < 24 * 80 then 0 else if i < 23 * 80 then m (i + 80) else m i)"

definition cgaputc :: "int \<Rightarrow> ('z consoles_scheme, unit) km" where
  "cgaputc c =
     kbind (gets (\<lambda>s. cga_advance c (unat (crt_cursor s)) (crt s))) (\<lambda>(pos, m).
     let scroll = (pos div 80 \<ge> 24);
         pos1 = (if scroll then pos - 80 else pos) in
     kthen (fault_if (scroll \<and> pos1 > 24 * 80) ''memset with a negative length'') (
     let m1 = (if scroll then cga_scroll pos1 m else m) in
     modify (\<lambda>s. s\<lparr>crt_cursor := of_nat pos1, crt := m1(pos1 := 0x0720)\<rparr>)))"

definition consputc :: "int \<Rightarrow> ('z consoles_scheme, unit) km" where
  "consputc c =
     kbind (gets panicked) (\<lambda>p.
     if p then kspin
     else
       kthen (if c = BACKSPACE
              then kthen (uartputc 8) (kthen (uartputc 32) (uartputc 8))
              else uartputc (of_int c)) (
       cgaputc c))"

section \<open>Formatted output\<close>

definition digit_char :: "nat \<Rightarrow> int" where
  "digit_char d = (if d < 10 then 48 + int d else 97 + int (d - 10))"

text \<open>The characters \<open>printint\<close> prints: its buffer read backwards.\<close>

definition printint_text :: "u32 \<Rightarrow> nat \<Rightarrow> bool \<Rightarrow> int list" where
  "printint_text xx base sign =
     (let neg = (sign \<and> sint xx < 0);
          x = (if neg then - xx else xx);
          buf = map digit_char (print_digits base (unat x)) @ (if neg then [45] else []) in
      rev buf)"

definition printint :: "u32 \<Rightarrow> nat \<Rightarrow> bool \<Rightarrow> ('z consoles_scheme, unit) km" where
  "printint xx base sign = kfor (printint_text xx base sign) consputc"

text \<open>
  The arguments of \<open>cprintf\<close> after the format: words, and pointers to strings (\<open>None\<close> is the null
  pointer). A directive without a fitting argument reads whatever is on the stack.
\<close>

datatype fmt_arg = ArgW u32 | ArgS "string option"

definition char_int :: "char \<Rightarrow> int" where
  "char_int c = (let n = of_char c in if n < 128 then n else n - 256)"

fun cprintf_loop :: "string \<Rightarrow> fmt_arg list \<Rightarrow> ('z consoles_scheme, unit) km" where
  "cprintf_loop [] args = ret ()"
| "cprintf_loop (c # fmt) args =
     (if c \<noteq> CHR ''%'' then kthen (consputc (of_char c)) (cprintf_loop fmt args)
      else
        case fmt of
          [] \<Rightarrow> ret ()
        | d # rest \<Rightarrow>
            if d = CHR ''d'' then
              (case args of
                 ArgW x # args' \<Rightarrow> kthen (printint x 10 True) (cprintf_loop rest args')
               | _ \<Rightarrow> kfault ''cprintf argument'')
            else if d = CHR ''x'' \<or> d = CHR ''p'' then
              (case args of
                 ArgW x # args' \<Rightarrow> kthen (printint x 16 False) (cprintf_loop rest args')
               | _ \<Rightarrow> kfault ''cprintf argument'')
            else if d = CHR ''s'' then
              (case args of
                 ArgS p # args' \<Rightarrow>
                   kthen (kfor (case p of None \<Rightarrow> ''(null)'' | Some t \<Rightarrow> t) (\<lambda>ch. consputc (char_int ch))) (
                   cprintf_loop rest args')
               | _ \<Rightarrow> kfault ''cprintf argument'')
            else if d = CHR ''%'' then kthen (consputc 37) (cprintf_loop rest args)
            else kthen (consputc 37) (kthen (consputc (of_char d)) (cprintf_loop rest args)))"

definition cprintf :: "string option \<Rightarrow> fmt_arg list \<Rightarrow> ('z consoles_scheme, unit) km" where
  "cprintf fmt args =
     kbind (gets cons_locking) (\<lambda>locking.
     kthen (kwhen locking (acquire ConsLock)) (
     kthen (panic_if (fmt = None) ''null fmt'') (
     kthen (cprintf_loop (the fmt) args) (
     kwhen locking (release ConsLock)))))"

text \<open>Memory words read through kernel addresses, for the stack walk.\<close>

definition kmem_word :: "'z kmems_scheme \<Rightarrow> u32 \<Rightarrow> u32" where
  "kmem_word s a = pmem s (PGROUNDDOWN a) (unat (a mod PGSIZE) div 4)"

text \<open>
  What \<open>panic\<close> prints before it freezes the machine; \<open>frame\<close> is the address of its argument on
  the stack. It never returns: the state is the one the other CPUs see.
\<close>

definition panic_report :: "string \<Rightarrow> u32 \<Rightarrow> ('z consoles_scheme, unit) km" where
  "panic_report msg frame =
     kthen (modify (\<lambda>s. set_mycpu ((mycpu s)\<lparr>eflags_IF := False\<rparr>) s)) (
     kthen (modify (\<lambda>s. s\<lparr>cons_locking := False\<rparr>)) (
     kbind (gets cpu_id) (\<lambda>i.
     kthen (cprintf (Some ''cpu%d: panic: '') [ArgW (of_nat i)]) (
     kthen (cprintf (Some msg) []) (
     kthen (cprintf (Some [CHR 0x0A]) []) (
     kbind (gets (\<lambda>s. getcallerpcs (kmem_word s) frame)) (\<lambda>pcs.
     kthen (kfor pcs (\<lambda>pc. cprintf (Some '' %p'') [ArgW pc])) (
     modify (\<lambda>s. s\<lparr>panicked := True\<rparr>)))))))))"

section \<open>Process listing\<close>

definition state_name :: "procstate \<Rightarrow> string" where
  "state_name st =
     (case st of UNUSED \<Rightarrow> ''unused'' | EMBRYO \<Rightarrow> ''embryo'' | SLEEPING \<Rightarrow> ''sleep ''
      | RUNNABLE \<Rightarrow> ''runble'' | RUNNING \<Rightarrow> ''run   '' | ZOMBIE \<Rightarrow> ''zombie'')"

definition procdump :: "('z consoles_scheme, unit) km" where
  "procdump =
     kfor [0..<NPROC] (\<lambda>i.
       kbind (gets (\<lambda>s. ptable s ! i)) (\<lambda>p.
       kwhen (p_state p \<noteq> UNUSED) (
         kthen (cprintf (Some ''%d %s %s'')
           [ArgW (of_int (p_pid p)), ArgS (Some (state_name (p_state p))), ArgS (Some (p_name p))]) (
         kthen (kwhen (p_state p = SLEEPING) (
           kbind (gets (\<lambda>s. getcallerpcs (kmem_word s) (ctx_ebp (p_context p) + 8))) (\<lambda>pc.
           kfor (takeWhile (\<lambda>x. x \<noteq> 0) pc) (\<lambda>x. cprintf (Some '' %p'') [ArgW x])))) (
         cprintf (Some [CHR 0x0A]) [])))))"

section \<open>The line editor\<close>

definition INPUT_BUF :: nat where "INPUT_BUF = 128"

definition in_slot :: "u32 \<Rightarrow> nat" where
  "in_slot i = unat i mod INPUT_BUF"

text \<open>The loop that erases the current line; it ends when the edit index reaches the write index.\<close>

primrec kill_line :: "nat \<Rightarrow> ('z consoles_scheme, unit) km" where
  "kill_line 0 = ret ()"
| "kill_line (Suc k) =
     kbind (gets (\<lambda>s. in_e s \<noteq> in_w s \<and> in_buf s ! in_slot (in_e s - 1) \<noteq> 10)) (\<lambda>more.
     if more
     then kthen (modify (\<lambda>s. s\<lparr>in_e := in_e s - 1\<rparr>)) (kthen (consputc BACKSPACE) (kill_line k))
     else ret ())"

definition console_char :: "int \<Rightarrow> ('z consoles_scheme, unit) km" where
  "console_char c =
     (if c = 16 then procdump
      else if c = 21 then kbind (gets (\<lambda>s. unat (in_e s - in_w s))) kill_line
      else if c = 8 \<or> c = 127 then
        kbind (gets (\<lambda>s. in_e s \<noteq> in_w s)) (\<lambda>ne.
        kwhen ne (kthen (modify (\<lambda>s. s\<lparr>in_e := in_e s - 1\<rparr>)) (consputc BACKSPACE)))
      else
        kbind (gets (\<lambda>s. in_e s - in_r s < of_nat INPUT_BUF)) (\<lambda>room.
        kwhen (c \<noteq> 0 \<and> room) (
          let c = (if c = 13 then 10 else c) in
          kthen (modify (\<lambda>s. s\<lparr>in_buf := (in_buf s)[in_slot (in_e s) := of_int c], in_e := in_e s + 1\<rparr>)) (
          kthen (consputc c) (
          kbind (gets (\<lambda>s. c = 10 \<or> c = 4 \<or> in_e s = in_r s + of_nat INPUT_BUF)) (\<lambda>flush.
          kwhen flush (
            kthen (modify (\<lambda>s. s\<lparr>in_w := in_e s\<rparr>)) (wakeup ChanInput))))))))"

text \<open>
  The interrupt handler drains the device; \<open>k\<close> bounds the number of characters one interrupt
  delivers.
\<close>

primrec console_drain :: "nat \<Rightarrow> ('z consoles_scheme, int) km \<Rightarrow> ('z consoles_scheme, unit) km" where
  "console_drain 0 getc = kspin"
| "console_drain (Suc k) getc =
     kbind getc (\<lambda>c.
     if c \<ge> 0 then kthen (console_char c) (console_drain k getc) else ret ())"

definition consoleintr :: "nat \<Rightarrow> ('z consoles_scheme, int) km \<Rightarrow> ('z consoles_scheme, unit) km" where
  "consoleintr fuel getc =
     kthen (acquire InputLock) (
     kthen (console_drain fuel getc) (
     release InputLock))"

definition uartintr :: "nat \<Rightarrow> ('z consoles_scheme, unit) km" where
  "uartintr fuel = consoleintr fuel uartgetc"

definition kbdintr :: "nat \<Rightarrow> ('z consoles_scheme, unit) km" where
  "kbdintr fuel = consoleintr fuel kbdgetc"

section \<open>Drivers that print\<close>

definition ioapicinit :: "('z consoles_scheme, unit) km" where
  "ioapicinit =
     kbind (gets ismp) (\<lambda>mp. kwhen mp (
     kbind (ioapicread REG_VER) (\<lambda>ver.
     let maxintr = unat (drop_bit 16 ver AND 0xFF) in
     kbind (ioapicread REG_ID) (\<lambda>idr.
     kbind (gets ioapicid) (\<lambda>ioid.
     kthen (kwhen (drop_bit 24 idr \<noteq> ucast ioid)
       (cprintf (Some (''ioapicinit: id isn'' @ [CHR 39] @ ''t equal to ioapicid; not a MP'' @ [CHR 0x0A])) [])) (
     kfor [0..<Suc maxintr] (\<lambda>i.
       kthen (ioapicwrite (REG_TABLE + 2 * i) (INT_DISABLED OR of_nat (T_IRQ0 + i))) (
       ioapicwrite (REG_TABLE + 2 * i + 1) 0))))))))"

text \<open>\<open>caller\<close> is the return address the message shows.\<close>

definition cpunum :: "u32 \<Rightarrow> ('z consoles_scheme, nat) km" where
  "cpunum caller =
     kbind (gets (\<lambda>s. eflags_IF (mycpu s))) (\<lambda>ie.
     kthen (kwhen ie (
       kbind (gets cpunum_n) (\<lambda>n.
       kthen (modify (\<lambda>s. s\<lparr>cpunum_n := n + 1\<rparr>)) (
       kwhen (n = 0) (cprintf (Some (''cpu called from %x with interrupts enabled'' @ [CHR 0x0A])) [ArgW caller]))))) (
     kbind (gets lapic) (\<lambda>l.
     if l \<noteq> None then gets (\<lambda>s. unat (drop_bit 24 (lapic_regs s LAPIC_ID))) else ret 0)))"

section \<open>A concrete machine\<close>

definition small_consoles :: consoles where
  "small_consoles = devs.extend small_devs
     \<lparr>cons_locking = True, panicked = False, crt = (\<lambda>_. 0), crt_cursor = 0, in_buf = replicate INPUT_BUF 0,
      in_r = 0, in_w = 0, in_e = 0, cpunum_n = 0\<rparr>"

lemma small_consoles_boot:
  "quiet small_consoles" "curproc small_consoles = Some 1" "length (ptable small_consoles) = 2" "disksize small_consoles = 1000"
  "klog small_consoles = small_log" "ptable small_consoles = ptable small_devs" "cpu_id small_consoles = 0"
  "uart small_consoles" "port_out small_consoles = []" "kbd_shift small_consoles = 0" "port_src small_consoles = (\<lambda>_ _. 0x20)"
  "cons_locking small_consoles" "\<not> panicked small_consoles" "crt_cursor small_consoles = 0"
  "in_buf small_consoles = replicate INPUT_BUF 0" "in_r small_consoles = 0" "in_w small_consoles = 0" "in_e small_consoles = 0"
  using small_devs_boot
  by (simp_all add: small_consoles_def devs.defs quiet_def mycpu_def curproc_def)

section \<open>Printing numbers\<close>

text \<open>Reading a printed number back.\<close>

definition char_digit :: "int \<Rightarrow> nat" where
  "char_digit c = (if c < 97 then nat (c - 48) else nat (c - 97) + 10)"

definition scan_digits :: "nat \<Rightarrow> int list \<Rightarrow> nat" where
  "scan_digits base cs = foldl (\<lambda>v c. v * base + char_digit c) 0 cs"

definition scan_number :: "nat \<Rightarrow> int list \<Rightarrow> int" where
  "scan_number base cs =
     (case cs of c # ds \<Rightarrow> if c = 45 then - int (scan_digits base ds) else int (scan_digits base cs)
      | [] \<Rightarrow> 0)"

lemma char_digit_char [simp]: "d < 16 \<Longrightarrow> char_digit (digit_char d) = d"
  by (auto simp: char_digit_def digit_char_def)

lemma digit_char_minus: "digit_char d \<noteq> 45"
  by (simp add: digit_char_def)

lemma scan_print_digits:
  assumes "2 \<le> base" "base \<le> 16"
  shows "scan_digits base (rev (map digit_char (print_digits base x))) = x"
  using assms
proof (induction base x rule: print_digits.induct)
  case (1 base x)
  have m: "char_digit (digit_char (x mod base)) = x mod base" using 1 by (simp add: order_less_le_trans [of _ base])
  show ?case
  proof (cases "x div base = 0")
    case True
    then show ?thesis using 1 m by (subst print_digits.simps) (simp add: scan_digits_def div_eq_0_iff)
  next
    case False
    have "scan_digits base (rev (map digit_char (print_digits base (x div base)))) = x div base"
      using 1 False by auto
    then show ?thesis using False 1 m by (subst print_digits.simps) (simp add: scan_digits_def)
  qed
qed

lemma printint_text_cases:
  "printint_text xx base sign =
     (if sign \<and> sint xx < 0 then 45 # rev (map digit_char (print_digits base (unat (- xx))))
      else rev (map digit_char (print_digits base (unat xx))))"
  by (simp add: printint_text_def Let_def)



text \<open>
  C21 (bounds): a number in base 10 or more needs at most eleven characters with its sign, so
  \<open>printint\<close> never overruns its sixteen-byte buffer.
\<close>

theorem printint_fits:
  assumes "10 \<le> base"
  shows "length (printint_text x base sign) \<le> 11"
proof -
  have "(4294967296 :: nat) \<le> 10 ^ 10" by simp
  also have "\<dots> \<le> base ^ 10" using assms by (rule power_mono) simp
  finally have b: "unat y < base ^ 10" for y :: u32 using unsigned_less [of y, where ?'a = nat] by simp
  have l: "length (print_digits base (unat y)) \<le> 10" for y :: u32
    by (rule print_digits_length) (use assms b in auto)
  show ?thesis using l [of x] l [of "- x"] by (simp add: printint_text_cases)
qed

theorem printint_fits_witness:
  "length (printint_text 0xFFFFFFFF 10 True) \<le> 11 \<and> (10 :: nat) \<le> 10"
  using printint_fits [of 10 "0xFFFFFFFF" True] by simp


section \<open>Printing text\<close>

text \<open>The text a format and its arguments stand for; \<open>None\<close> when an argument does not fit.\<close>

fun fmt_text :: "string \<Rightarrow> fmt_arg list \<Rightarrow> int list option" where
  "fmt_text [] args = Some []"
| "fmt_text [c] args = Some (if c = CHR ''%'' then [] else [of_char c])"
| "fmt_text (c # d # fmt) args =
     (if c \<noteq> CHR ''%'' then map_option (Cons (of_char c)) (fmt_text (d # fmt) args)
      else if d = CHR ''d'' \<or> d = CHR ''x'' \<or> d = CHR ''p'' then
        (case args of
           ArgW x # rest \<Rightarrow>
             map_option (append (if d = CHR ''d'' then printint_text x 10 True else printint_text x 16 False))
               (fmt_text fmt rest)
         | _ \<Rightarrow> None)
      else if d = CHR ''s'' then
        (case args of
           ArgS p # rest \<Rightarrow>
             map_option (append (map char_int (case p of None \<Rightarrow> ''(null)'' | Some t \<Rightarrow> t))) (fmt_text fmt rest)
         | _ \<Rightarrow> None)
      else map_option (append (if d = CHR ''%'' then [37] else [37, of_char d])) (fmt_text fmt args))"

text \<open>What has gone out on the serial line, and what printing may change.\<close>

definition serial :: "'z devs_scheme \<Rightarrow> u8 list" where
  "serial s = map snd (filter (\<lambda>x. fst x = COM1) (port_out s))"

definition cons_frame :: "'z consoles_scheme \<Rightarrow> 'z consoles_scheme \<Rightarrow> bool" where
  "cons_frame s t \<longleftrightarrow>
     (\<exists>po pc m cur. t = s\<lparr>port_out := po, port_cnt := pc, crt := m, crt_cursor := cur\<rparr>)"

definition can_print :: "'z consoles_scheme \<Rightarrow> bool" where
  "can_print s \<longleftrightarrow> \<not> panicked s \<and> uart s \<and> unat (crt_cursor s) < 24 * 80"

definition char_bytes :: "int \<Rightarrow> u8 list" where
  "char_bytes c = (if c = BACKSPACE then [8, 32, 8] else [of_int c])"

definition prints :: "int list \<Rightarrow> 'z consoles_scheme \<Rightarrow> 'z consoles_scheme \<Rightarrow> bool" where
  "prints cs s t \<longleftrightarrow> cons_frame s t \<and> can_print t \<and> serial t = serial s @ concat (map char_bytes cs)"

lemma cons_frameI: "cons_frame s (s\<lparr>port_out := po, port_cnt := pc, crt := m, crt_cursor := cur\<rparr>)"
  unfolding cons_frame_def
  by (rule exI [of _ po], rule exI [of _ pc], rule exI [of _ m], rule exI [of _ cur]) simp

lemma cons_frame_refl [simp]: "cons_frame s s"
  using cons_frameI [of s "crt_cursor s" "crt s" "port_cnt s" "port_out s"] by simp

lemma cons_frame_trans: "cons_frame s t \<Longrightarrow> cons_frame t u \<Longrightarrow> cons_frame s u"
proof -
  assume "cons_frame s t" "cons_frame t u"
  then obtain a b c d a' b' c' d' where
    "t = s\<lparr>port_out := a, port_cnt := b, crt := c, crt_cursor := d\<rparr>"
    "u = t\<lparr>port_out := a', port_cnt := b', crt := c', crt_cursor := d'\<rparr>"
    unfolding cons_frame_def by blast
  then have "u = s\<lparr>port_out := a', port_cnt := b', crt := c', crt_cursor := d'\<rparr>" by simp
  then show ?thesis by (simp only: cons_frameI)
qed

lemma cons_frame_upds:
  "cons_frame s (s\<lparr>port_cnt := pc\<rparr>)" "cons_frame s (s\<lparr>port_out := po\<rparr>)"
  "cons_frame s (s\<lparr>crt := m, crt_cursor := cur\<rparr>)"
  using cons_frameI [of s "crt_cursor s" "crt s" pc "port_out s"]
    cons_frameI [of s "crt_cursor s" "crt s" "port_cnt s" po] cons_frameI [of s cur m "port_cnt s" "port_out s"]
  by simp_all

lemma cons_frame_same:
  "cons_frame s t \<Longrightarrow> quiet t = quiet s \<and> panicked t = panicked s \<and> uart t = uart s \<and> cons_locking t = cons_locking s \<and>
     in_buf t = in_buf s \<and> in_r t = in_r s \<and> in_w t = in_w s \<and> in_e t = in_e s \<and> ptable t = ptable s"
  by (auto simp: cons_frame_def)

lemma cons_frame_crit: "cons_frame (crit ls s) t \<Longrightarrow> \<exists>u. t = crit ls u \<and> cons_frame s u"
proof -
  assume "cons_frame (crit ls s) t"
  then obtain po pc m cur where t: "t = (crit ls s)\<lparr>port_out := po, port_cnt := pc, crt := m, crt_cursor := cur\<rparr>"
    by (auto simp: cons_frame_def)
  let ?u = "s\<lparr>port_out := po, port_cnt := pc, crt := m, crt_cursor := cur\<rparr>"
  have "cons_frame s ?u" by (rule cons_frameI)
  moreover have "t = crit ls ?u" using t by (simp add: crit_simps)
  ultimately show ?thesis by blast
qed

lemma prints_Nil [simp]: "can_print s \<Longrightarrow> prints [] s s"
  by (simp add: prints_def)

lemma prints_trans: "prints cs s t \<Longrightarrow> prints ds t u \<Longrightarrow> prints (cs @ ds) s u"
  by (auto simp: prints_def intro: cons_frame_trans)

lemma prints_can: "prints cs s t \<Longrightarrow> can_print t"
  by (simp add: prints_def)

definition set_cnt :: "(nat \<Rightarrow> nat) \<Rightarrow> 'z devs_scheme \<Rightarrow> 'z devs_scheme" where
  "set_cnt pc s = s\<lparr>port_cnt := pc\<rparr>"

lemma uart_wait_run: "\<exists>pc. uart_wait k s = Done () (s\<lparr>port_cnt := pc\<rparr>)"
proof (induction k arbitrary: s)
  case 0
  show ?case by (rule exI [of _ "port_cnt s"]) (simp add: run_simps)
next
  case (Suc k)
  let ?pc = "(port_cnt s)(COM1 + 5 := Suc (port_cnt s (COM1 + 5)))"
  show ?case
    using Suc.IH [of "s\<lparr>port_cnt := ?pc\<rparr>"]
    by (auto simp: inb_def microdelay_def run_simps)
qed

lemma uartputc_run:
  "uart s \<Longrightarrow> \<exists>pc. uartputc c s = Done () (s\<lparr>port_cnt := pc, port_out := port_out s @ [(COM1, ucast c)]\<rparr>)"
proof -
  assume "uart s"
  moreover obtain pc where "uart_wait 128 s = Done () (s\<lparr>port_cnt := pc\<rparr>)" using uart_wait_run by blast
  ultimately have "uartputc c s = Done () (s\<lparr>port_cnt := pc, port_out := port_out s @ [(COM1, ucast c)]\<rparr>)"
    by (simp add: uartputc_def run_simps outb_def)
  then show ?thesis by blast
qed

lemma cga_advance_pos: "pos < 1920 \<Longrightarrow> fst (cga_advance c pos m) \<le> 1920"
proof -
  assume p: "pos < 1920"
  have "pos + (80 - pos mod 80) \<le> 1920"
  proof -
    have "pos = 80 * (pos div 80) + pos mod 80" by simp
    moreover have "pos div 80 < 24" using p by simp
    moreover have "pos mod 80 < 80" by simp
    ultimately show ?thesis by linarith
  qed
  then show ?thesis using p by (auto simp: cga_advance_def)
qed

lemma cgaputc_run:
  assumes "unat (crt_cursor s) < 1920"
  shows "\<exists>m cur. cgaputc c s = Done () (s\<lparr>crt := m, crt_cursor := cur\<rparr>) \<and> unat cur < 1920"
proof -
  obtain pos m where pm: "cga_advance c (unat (crt_cursor s)) (crt s) = (pos, m)" by fastforce
  have pos: "pos \<le> 1920" using cga_advance_pos [OF assms, of c "crt s"] pm by simp
  show ?thesis
  proof (cases "pos div 80 \<ge> 24")
    case True
    then have p: "pos = 1920" using pos by simp
    show ?thesis
      by (rule exI [of _ "(cga_scroll 1840 m)(1840 := 0x0720)"], rule exI [of _ 1840])
        (simp add: cgaputc_def run_simps pm p Let_def)
  next
    case False
    then have p: "pos < 1920" by simp
    have "unat (of_nat pos :: u16) = pos" using p by (simp add: unsigned_of_nat take_bit_nat_eq_self)
    then show ?thesis
      by (intro exI [of _ "m(pos := 0x0720)"] exI [of _ "of_nat pos"])
        (use False p in \<open>simp add: cgaputc_def run_simps pm Let_def\<close>)
  qed
qed

lemma ucast_of_int: "ucast (of_int c :: u32) = (of_int c :: u8)"
  by transfer simp

lemma consputc_prints:
  assumes "can_print s"
  shows "wp (consputc c) (\<lambda>_ t. prints [c] s t) s"
proof -
  have a: "\<not> panicked s" "uart s" "unat (crt_cursor s) < 1920" using assms by (auto simp: can_print_def)
  obtain pc po where u: "(if c = BACKSPACE then kthen (uartputc 8) (kthen (uartputc 32) (uartputc 8))
      else uartputc (of_int c)) s = Done () (s\<lparr>port_cnt := pc, port_out := po\<rparr>)"
    and po: "map snd (filter (\<lambda>x. fst x = COM1) po) = serial s @ char_bytes c"
  proof (cases "c = BACKSPACE")
    case False
    obtain pc where "uartputc (of_int c) s = Done () (s\<lparr>port_cnt := pc, port_out := port_out s @ [(COM1, of_int c)]\<rparr>)"
      using uartputc_run [OF a(2), of "of_int c"] by (auto simp: ucast_of_int)
    with False show ?thesis by (intro that [of "port_out s @ [(COM1, of_int c)]" pc]) (simp_all add: serial_def char_bytes_def)
  next
    case True
    obtain p1 where 1: "uartputc 8 s = Done () (s\<lparr>port_cnt := p1, port_out := port_out s @ [(COM1, 8)]\<rparr>)"
      using uartputc_run [OF a(2), of 8] by auto
    let ?s1 = "s\<lparr>port_cnt := p1, port_out := port_out s @ [(COM1, 8)]\<rparr>"
    obtain p2 where 2: "uartputc 32 ?s1 = Done () (?s1\<lparr>port_cnt := p2, port_out := port_out ?s1 @ [(COM1, 32)]\<rparr>)"
      using uartputc_run [of ?s1 32] a by auto
    let ?s2 = "?s1\<lparr>port_cnt := p2, port_out := port_out ?s1 @ [(COM1, 32)]\<rparr>"
    obtain p3 where 3: "uartputc 8 ?s2 = Done () (?s2\<lparr>port_cnt := p3, port_out := port_out ?s2 @ [(COM1, 8)]\<rparr>)"
      using uartputc_run [of ?s2 8] a by auto
    have "kthen (uartputc 8) (kthen (uartputc 32) (uartputc 8)) s =
      Done () (s\<lparr>port_cnt := p3, port_out := port_out s @ [(COM1, 8), (COM1, 32), (COM1, 8)]\<rparr>)"
      using 1 2 3 by (simp add: run_simps)
    then show ?thesis using that True by (simp add: serial_def char_bytes_def)
  qed
  let ?t = "s\<lparr>port_cnt := pc, port_out := po\<rparr>"
  obtain m cur where g: "cgaputc c ?t = Done () (?t\<lparr>crt := m, crt_cursor := cur\<rparr>)" "unat cur < 1920"
    using cgaputc_run [of ?t c] a by auto
  let ?u = "?t\<lparr>crt := m, crt_cursor := cur\<rparr>"
  have f: "cons_frame s ?u"
    by (rule cons_frame_trans [OF cons_frame_trans [of s "s\<lparr>port_cnt := pc\<rparr>" ?t]]) (simp_all add: cons_frame_upds)
  have "consputc c s = Done () ?u" using a(1) u g(1) by (simp add: consputc_def run_simps)
  moreover have "prints [c] s ?u" using f g(2) a po by (simp add: prints_def can_print_def serial_def)
  ultimately show ?thesis by (simp add: wp_def)
qed

lemma kfor_prints:
  assumes "\<And>x s. can_print s \<Longrightarrow> wp (f x) (\<lambda>_ t. prints (g x) s t) s" "can_print s"
  shows "wp (kfor xs f) (\<lambda>_ t. prints (concat (map g xs)) s t) s"
  using assms(2)
proof (induction xs arbitrary: s)
  case (Cons x xs)
  have "wp (kfor xs f) (\<lambda>_ u. prints (g x @ concat (map g xs)) s u) t" if t: "prints (g x) s t" for t
    by (rule wp_mono [OF Cons.IH [OF prints_can [OF t]]]) (rule prints_trans [OF t])
  then show ?case by (auto simp: wp_simps intro: wp_mono [OF assms(1) [OF Cons.prems, of x]])
qed (simp add: wp_simps)

lemma consputs_prints: "can_print s \<Longrightarrow> wp (kfor cs consputc) (\<lambda>_ t. prints cs s t) s"
  using kfor_prints [where f = consputc and g = "\<lambda>c. [c]", OF consputc_prints, of s cs]
  by (simp add: concat_map_singleton)

lemma printint_prints: "can_print s \<Longrightarrow> wp (printint x base sign) (\<lambda>_ t. prints (printint_text x base sign) s t) s"
  unfolding printint_def by (rule consputs_prints)

lemma prints_then:
  assumes "wp m (\<lambda>_ t. prints cs s t) s" "\<And>t. can_print t \<Longrightarrow> wp k (\<lambda>_ u. prints ds t u) t"
  shows "wp (kthen m k) (\<lambda>_ u. prints (cs @ ds) s u) s"
  unfolding wp_kthen
  by (rule wp_mono [OF assms(1)], rule wp_mono [OF assms(2)]) (auto intro: prints_trans dest: prints_can)


lemma wp_ret_eq: "wp (ret a) Q = Q a"
  by (rule ext) (simp add: wp_ret)

lemma cprintf_loop_prints:
  fixes s :: "'a consoles_scheme"
  shows "can_print s \<Longrightarrow> fmt_text fmt args = Some cs \<Longrightarrow> wp (cprintf_loop fmt args) (\<lambda>_ t. prints cs s t) s"
proof (induction fmt args arbitrary: s cs rule: fmt_text.induct)
  case (1 args)
  then show ?case by (simp add: wp_simps)
next
  case (2 c args)
  then show ?case using consputc_prints [of s "of_char c"] by (auto simp: wp_kthen wp_ret_eq)
next
  case (3 c d fmt args)
  show ?case
  proof (cases "c = CHR ''%''")
    case False
    then obtain ds where ds: "fmt_text (d # fmt) args = Some ds" "cs = of_char c # ds" using "3.prems" by auto
    have "wp (kthen (consputc (of_char c)) (cprintf_loop (d # fmt) args)) (\<lambda>_ u. prints ([of_char c] @ ds) s u) s"
      by (rule prints_then [OF consputc_prints [OF "3.prems"(1)]], rule "3.IH"(1)) (use False ds in auto)
    then show ?thesis using False ds by simp
  next
    case True
    consider "d = CHR ''d'' \<or> d = CHR ''x'' \<or> d = CHR ''p''" | "d = CHR ''s''" | "d \<notin> {CHR ''d'', CHR ''x'', CHR ''p'', CHR ''s''}"
      by auto
    then show ?thesis
    proof cases
      case 1
      then obtain x rest ds where a: "args = ArgW x # rest" "fmt_text fmt rest = Some ds"
        "cs = (if d = CHR ''d'' then printint_text x 10 True else printint_text x 16 False) @ ds"
        using "3.prems"(2) True by (auto split: list.splits fmt_arg.splits)
      have ih: "wp (cprintf_loop fmt rest) (\<lambda>_ u. prints ds t u) t" if "can_print t" for t :: "'a consoles_scheme"
        using "3.IH"(2) [of "ArgW x" rest x t ds] True 1 a that by auto
      show ?thesis
        using 1 True a prints_then [OF printint_prints [OF "3.prems"(1)] ih] by auto
    next
      case 2
      then obtain p rest ds where a: "args = ArgS p # rest" "fmt_text fmt rest = Some ds"
        "cs = map char_int (case p of None \<Rightarrow> ''(null)'' | Some t \<Rightarrow> t) @ ds"
        using "3.prems"(2) True by (auto split: list.splits fmt_arg.splits)
      have ih: "wp (cprintf_loop fmt rest) (\<lambda>_ u. prints ds t u) t" if "can_print t" for t :: "'a consoles_scheme"
        using "3.IH"(3) [of "ArgS p" rest p t ds] True 2 a that by auto
      have k: "wp (kfor q (\<lambda>ch. consputc (char_int ch))) (\<lambda>_ t. prints (map char_int q) s t) s" for q
        using kfor_prints [where f = "\<lambda>ch. consputc (char_int ch)" and g = "\<lambda>c. [char_int c]", OF consputc_prints "3.prems"(1), of q]
        by simp
      show ?thesis using 2 True a prints_then [OF k ih] by auto
    next
      case 3
      then obtain ds where a: "fmt_text fmt args = Some ds" "cs = (if d = CHR ''%'' then [37] else [37, of_char d]) @ ds"
        using "3.prems"(2) True by auto
      have ih: "wp (cprintf_loop fmt args) (\<lambda>_ u. prints ds t u) t" if "can_print t" for t :: "'a consoles_scheme"
        using "3.IH"(4) [of t ds] True 3 a that by auto
      have two: "wp (kthen (consputc 37) (kthen (consputc (of_char d)) (cprintf_loop fmt args))) (\<lambda>_ u. prints ([37] @ [of_char d] @ ds) s u) s"
        by (rule prints_then [OF consputc_prints [OF "3.prems"(1)]], rule prints_then [OF consputc_prints], assumption, rule ih)
      show ?thesis using 3 True a prints_then [OF consputc_prints [OF "3.prems"(1)] ih] two by auto
    qed
  qed
qed

lemma prints_crit:
  "prints cs (crit ls s) t \<Longrightarrow> \<exists>u. t = crit ls u \<and> prints cs s u" "can_print (crit ls s) = can_print s"
proof -
  assume p: "prints cs (crit ls s) t"
  then obtain u where u: "t = crit ls u" "cons_frame s u" using cons_frame_crit [of ls s t] by (auto simp: prints_def)
  show "\<exists>u. t = crit ls u \<and> prints cs s u"
    using p u by (intro exI [of _ u]) (simp add: prints_def can_print_def serial_def crit_simps)
qed (simp add: can_print_def crit_simps)

lemma cprintf_prints:
  assumes q: "quiet s" "distinct ls" "ConsLock \<notin> set ls" and c: "can_print s" and t: "fmt_text fmt args = Some cs"
  shows "wp (cprintf (Some fmt) args) (\<lambda>_ t. \<exists>u. t = crit ls u \<and> prints cs s u) (crit ls s)"
proof (cases "cons_locking s")
  case True
  have "wp (cprintf_loop fmt args) (\<lambda>_ t. \<exists>u. t = crit (ConsLock # ls) u \<and> prints cs s u) (crit (ConsLock # ls) s)"
    by (rule wp_mono [OF cprintf_loop_prints [OF _ t]]) (use c in \<open>auto simp: prints_crit(2) intro: prints_crit(1)\<close>)
  then obtain u where u: "cprintf_loop fmt args (crit (ConsLock # ls) s) = Done () (crit (ConsLock # ls) u)" "prints cs s u"
    by (auto simp: wp_iff)
  have "quiet u" using u(2) q cons_frame_same by (auto simp: prints_def)
  then show ?thesis
    using u True q by (auto simp: wp_iff cprintf_def run_simps crit_simps acquire_crit release_crit_hd)
next
  case False
  have "wp (cprintf_loop fmt args) (\<lambda>_ t. \<exists>u. t = crit ls u \<and> prints cs s u) (crit ls s)"
    by (rule wp_mono [OF cprintf_loop_prints [OF _ t]]) (use c in \<open>auto simp: prints_crit(2) intro: prints_crit(1)\<close>)
  then show ?thesis using False by (auto simp: wp_iff cprintf_def run_simps crit_simps)
qed

text \<open>
  C19 (equivalence): \<open>cprintf\<close> sends exactly the text its format stands for to the serial line, with
  numbers, strings and unknown directives as the reference rendering has them; it holds the console
  lock only while it prints, and leaves the cursor on the screen.
\<close>

theorem cprintf_renders:
  assumes "quiet s" "can_print s" "fmt_text fmt args = Some cs"
  shows "\<exists>t. cprintf (Some fmt) args s = Done () t \<and> serial t = serial s @ concat (map char_bytes cs) \<and>
     quiet t \<and> unat (crt_cursor t) < 24 * 80"
  using cprintf_prints [of s "[]", OF assms(1) _ _ assms(2,3)] assms(1) cons_frame_same
  by (fastforce simp: crit_Nil wp_iff prints_def can_print_def)

theorem cprintf_renders_witness:
  "quiet small_consoles \<and> can_print small_consoles \<and>
   (\<exists>t. cprintf (Some ''cpu%d: %s'') [ArgW 1, ArgS None] small_consoles = Done () t \<and>
     serial t = map of_int (map of_char ''cpu1: (null)''))"
proof -
  have s: "quiet small_consoles" "can_print small_consoles" "serial small_consoles = []"
    using small_consoles_boot by (simp_all add: can_print_def serial_def)
  have f: "fmt_text ''cpu%d: %s'' [ArgW 1, ArgS None] = Some (map of_char ''cpu1: (null)'')"
    by (simp add: printint_text_cases sint_u32 print_digits.simps digit_char_def char_int_def)
  show ?thesis using cprintf_renders [OF s(1,2) f] s by (auto simp: char_bytes_def BACKSPACE_def)
qed

section \<open>The line editor\<close>

text \<open>
  What the editor promises: \<open>d\<close> are the bytes readers can have, \<open>l\<close> the line being edited. Newline,
  end-of-file and a full buffer hand the line over.
\<close>

definition edit :: "int \<Rightarrow> u8 list \<times> u8 list \<Rightarrow> u8 list \<times> u8 list" where
  "edit c = (\<lambda>(d, l).
     if c = 16 then (d, l)
     else if c = 21 then (d, [])
     else if c = 8 \<or> c = 127 then (d, butlast l)
     else if c = 0 \<or> length d + length l \<ge> INPUT_BUF then (d, l)
     else
       let b = (if c = 13 then 10 else of_int c); l' = l @ [b] in
       if b = 10 \<or> b = 4 \<or> length d + length l' = INPUT_BUF then (d @ l', []) else (d, l'))"

definition line_done :: "'z consoles_scheme \<Rightarrow> u8 list" where
  "line_done s = ring_q INPUT_BUF (in_buf s) (in_r s) (in_w s)"

definition line_cur :: "'z consoles_scheme \<Rightarrow> u8 list" where
  "line_cur s = ring_q INPUT_BUF (in_buf s) (in_w s) (in_e s)"

definition input_inv :: "'z consoles_scheme \<Rightarrow> bool" where
  "input_inv s \<longleftrightarrow> length (in_buf s) = INPUT_BUF \<and>
     length (line_done s) + length (line_cur s) \<le> INPUT_BUF \<and> 10 \<notin> set (line_cur s)"

lemma INPUT_BUF_dvd: "INPUT_BUF dvd 2 ^ 32" "INPUT_BUF < 2 ^ 32"
  by (simp_all add: INPUT_BUF_def)

lemma line_lengths:
  "length (line_done s) = ring_len (in_r s) (in_w s)" "length (line_cur s) = ring_len (in_w s) (in_e s)"
  by (simp_all add: line_done_def line_cur_def)

lemma line_total: "input_inv s \<Longrightarrow> ring_len (in_r s) (in_e s) = length (line_done s) + length (line_cur s)"
  unfolding line_lengths by (rule ring_len_add) (simp add: input_inv_def line_lengths INPUT_BUF_def)

lemma lines_cong:
  "in_buf t = in_buf s \<Longrightarrow> in_r t = in_r s \<Longrightarrow> in_w t = in_w s \<Longrightarrow> in_e t = in_e s \<Longrightarrow>
     line_done t = line_done s \<and> line_cur t = line_cur s \<and> input_inv t = input_inv s"
  by (simp add: line_done_def line_cur_def input_inv_def)

text \<open>Taking back the last byte of the line.\<close>

lemma erase_char:
  assumes i: "input_inv s" and e: "in_e s \<noteq> in_w s"
  shows "input_inv (s\<lparr>in_e := in_e s - 1\<rparr>)" "line_done (s\<lparr>in_e := in_e s - 1\<rparr>) = line_done s"
    "line_cur s = line_cur (s\<lparr>in_e := in_e s - 1\<rparr>) @ [in_buf s ! in_slot (in_e s - 1)]"
proof -
  show d: "line_done (s\<lparr>in_e := in_e s - 1\<rparr>) = line_done s" by (simp add: line_done_def)
  show c: "line_cur s = line_cur (s\<lparr>in_e := in_e s - 1\<rparr>) @ [in_buf s ! in_slot (in_e s - 1)]"
    using ring_unput [OF INPUT_BUF_dvd(1) e, of "in_buf s"] by (simp add: line_cur_def in_slot_def)
  have "set (line_cur (s\<lparr>in_e := in_e s - 1\<rparr>)) \<subseteq> set (line_cur s)" by (subst c) auto
  moreover have "length (line_cur (s\<lparr>in_e := in_e s - 1\<rparr>)) \<le> length (line_cur s)" by (subst c) simp
  ultimately show "input_inv (s\<lparr>in_e := in_e s - 1\<rparr>)" using i d by (auto simp: input_inv_def)
qed

text \<open>Appending a byte to the line.\<close>

definition type_char :: "u8 \<Rightarrow> 'z consoles_scheme \<Rightarrow> 'z consoles_scheme" where
  "type_char b s = s\<lparr>in_buf := (in_buf s)[in_slot (in_e s) := b], in_e := in_e s + 1\<rparr>"

lemma type_char_lines:
  assumes i: "input_inv s" and l: "length (line_done s) + length (line_cur s) < INPUT_BUF"
  shows "line_done (type_char b s) = line_done s" "line_cur (type_char b s) = line_cur s @ [b]"
    "in_r (type_char b s) = in_r s" "length (in_buf (type_char b s)) = INPUT_BUF"
proof -
  have n: "length (in_buf s) = INPUT_BUF" using i by (simp add: input_inv_def)
  show "line_done (type_char b s) = line_done s"
    using ring_q_other [OF INPUT_BUF_dvd(1), of "in_r s" "in_w s" "in_e s" "in_buf s" b] l
    by (simp add: line_done_def type_char_def line_lengths [unfolded line_done_def line_cur_def] line_cur_def in_slot_def)
  show "line_cur (type_char b s) = line_cur s @ [b]"
    using ring_put [OF INPUT_BUF_dvd(1) n _ INPUT_BUF_dvd(2), of "in_w s" "in_e s" b] l
    by (simp add: line_cur_def type_char_def line_done_def in_slot_def)
  show "in_r (type_char b s) = in_r s" "length (in_buf (type_char b s)) = INPUT_BUF"
    using n by (simp_all add: type_char_def)
qed

text \<open>Handing the line over.\<close>

lemma flush_line:
  assumes n: "length (in_buf s) = INPUT_BUF" and l: "length (line_done s) + length (line_cur s) \<le> INPUT_BUF"
  shows "line_done (s\<lparr>in_w := in_e s\<rparr>) = line_done s @ line_cur s" "line_cur (s\<lparr>in_w := in_e s\<rparr>) = []"
    "input_inv (s\<lparr>in_w := in_e s\<rparr>)"
proof -
  have k: "ring_len (in_r s) (in_w s) + ring_len (in_w s) (in_e s) < 2 ^ 32"
    using l by (simp add: line_lengths INPUT_BUF_def)
  show d: "line_done (s\<lparr>in_w := in_e s\<rparr>) = line_done s @ line_cur s"
    using ring_q_append [OF INPUT_BUF_dvd(1) k, of "in_buf s"] by (simp add: line_done_def line_cur_def)
  show c: "line_cur (s\<lparr>in_w := in_e s\<rparr>) = []" by (simp add: line_cur_def)
  show "input_inv (s\<lparr>in_w := in_e s\<rparr>)" unfolding input_inv_def c d using n l by simp
qed

lemma can_print_crit: "can_print (crit ls s) = can_print s"
  by (simp add: can_print_def crit_simps)

lemma consputc_step:
  assumes "can_print s"
  obtains u where "consputc c (crit ls s) = Done () (crit ls u)" "cons_frame s u" "can_print u"
proof -
  have "wp (consputc c) (\<lambda>_ t. prints [c] (crit ls s) t) (crit ls s)"
    by (rule consputc_prints) (simp only: can_print_crit assms)
  then obtain t where t: "consputc c (crit ls s) = Done () t" "prints [c] (crit ls s) t" by (auto simp: wp_iff)
  obtain u where "t = crit ls u" "prints [c] s u" using prints_crit(1) [OF t(2)] by blast
  then show ?thesis using t(1) that [of u] by (simp add: prints_def)
qed

lemma cons_frame_lines:
  "cons_frame s u \<Longrightarrow> line_done u = line_done s \<and> line_cur u = line_cur s \<and> input_inv u = input_inv s \<and> quiet u = quiet s"
  using cons_frame_same [of s u] lines_cong [of u s] by simp

lemma in_e_simps [simp]:
  "can_print (in_e_update f s) = can_print s" "can_print (in_w_update f s) = can_print s"
  "can_print (in_buf_update g s) = can_print s"
  by (simp_all add: can_print_def)

lemma kill_line_run:
  assumes "quiet s" "can_print s" "input_inv s" "length (line_cur s) \<le> k"
  shows "\<exists>u. kill_line k (crit ls s) = Done () (crit ls u) \<and> quiet u \<and> can_print u \<and> input_inv u \<and>
     line_done u = line_done s \<and> line_cur u = []"
  using assms
proof (induction k arbitrary: s)
  case 0
  then show ?case by (auto simp: run_simps)
next
  case (Suc k)
  show ?case
  proof (cases "in_e s = in_w s")
    case True
    then have "line_cur s = []" by (simp add: line_cur_def)
    then show ?thesis using Suc.prems True by (intro exI [of _ s]) (simp add: run_simps crit_simps)
  next
    case False
    let ?s = "s\<lparr>in_e := in_e s - 1\<rparr>"
    note er = erase_char [OF Suc.prems(3) False]
    have nl: "in_buf s ! in_slot (in_e s - 1) \<noteq> 10"
    proof
      assume "in_buf s ! in_slot (in_e s - 1) = 10"
      then have "10 \<in> set (line_cur s)" by (subst er(3)) simp
      then show False using Suc.prems(3) by (simp add: input_inv_def)
    qed
    have c: "can_print ?s" using Suc.prems by simp
    obtain t where t: "consputc BACKSPACE (crit ls ?s) = Done () (crit ls t)" "cons_frame ?s t" "can_print t"
      using consputc_step [OF c] by blast
    have l: "line_done t = line_done ?s" "line_cur t = line_cur ?s" "input_inv t" "quiet t"
      using cons_frame_lines [OF t(2)] er(1) Suc.prems(1) by simp_all
    have len: "length (line_cur t) \<le> k"
      using Suc.prems(4) l(2) arg_cong [OF er(3), of length] by simp
    obtain u where u: "kill_line k (crit ls t) = Done () (crit ls u)" "quiet u" "can_print u" "input_inv u"
      "line_done u = line_done t" "line_cur u = []"
      using Suc.IH [OF l(4) t(3) l(3) len] by blast
    show ?thesis using u t l er(2) nl False by (intro exI [of _ u]) (simp add: run_simps crit_simps)
  qed
qed

text \<open>Listing the processes only prints.\<close>

lemma procdump_prints:
  assumes "quiet s" "can_print s" "distinct ls" "ConsLock \<notin> set ls"
  shows "wp procdump (\<lambda>_ t. \<exists>u. t = crit ls u \<and> cons_frame s u \<and> can_print u) (crit ls s)"
proof -
  let ?I = "\<lambda>t. \<exists>u. t = crit ls u \<and> cons_frame s u \<and> can_print u"
  have pr: "wp (cprintf (Some fmt) args) (\<lambda>_. ?I) t" if I: "?I t" and f: "fmt_text fmt args \<noteq> None" for fmt args t
  proof -
    obtain u where u: "t = crit ls u" "cons_frame s u" "can_print u" using I by blast
    obtain cs where cs: "fmt_text fmt args = Some cs" using f by blast
    have "quiet u" using cons_frame_lines [OF u(2)] assms(1) by simp
    from cprintf_prints [OF this assms(3,4) u(3) cs] show ?thesis
      unfolding u(1) by (rule wp_mono) (use u(2) in \<open>auto simp: prints_def intro: cons_frame_trans\<close>)
  qed
  have one: "wp (kbind (gets (\<lambda>s. ptable s ! i)) (\<lambda>p. kwhen (p_state p \<noteq> UNUSED) (
      kthen (cprintf (Some ''%d %s %s'') [ArgW (of_int (p_pid p)), ArgS (Some (state_name (p_state p))), ArgS (Some (p_name p))]) (
      kthen (kwhen (p_state p = SLEEPING) (
        kbind (gets (\<lambda>s. getcallerpcs (kmem_word s) (ctx_ebp (p_context p) + 8))) (\<lambda>pc.
        kfor (takeWhile (\<lambda>x. x \<noteq> 0) pc) (\<lambda>x. cprintf (Some '' %p'') [ArgW x])))) (
      cprintf (Some [CHR 0x0A]) []))))) (\<lambda>_. ?I) t" if I: "?I t" for i t
  proof -
    define p where "p = ptable t ! i"
    have pcs: "wp (kfor (takeWhile (\<lambda>x. x \<noteq> 0) pc) (\<lambda>x. cprintf (Some '' %p'') [ArgW x])) (\<lambda>_. ?I) t" if "?I t" for pc t
      by (rule kfor_keeps [OF pr]) (use that in auto)
    have nl: "wp (cprintf (Some [CHR 0x0A]) []) (\<lambda>_. ?I) t" if "?I t" for t
      by (rule pr [OF that]) simp
    have w: "wp (kwhen (p_state p = SLEEPING) (
        kbind (gets (\<lambda>s. getcallerpcs (kmem_word s) (ctx_ebp (p_context p) + 8))) (\<lambda>pc.
        kfor (takeWhile (\<lambda>x. x \<noteq> 0) pc) (\<lambda>x. cprintf (Some '' %p'') [ArgW x])))) (\<lambda>_. ?I) t" if "?I t" for t
      by (rule kwhen_keeps [where I = ?I, OF that]) (simp only: wp_kbind wp_gets pcs [OF that])
    have h: "wp (cprintf (Some ''%d %s %s'') [ArgW (of_int (p_pid p)), ArgS (Some (state_name (p_state p))), ArgS (Some (p_name p))]) (\<lambda>_. ?I) t"
      by (rule pr [OF I]) simp
    show ?thesis
      unfolding wp_kbind [of "gets (\<lambda>s. ptable s ! i)"] wp_gets p_def [symmetric]
      by (rule kwhen_keeps [where I = ?I, OF I]) (rule kthen_keeps [where I = ?I, OF h kthen_keeps [where I = ?I, OF w nl]])
  qed
  show ?thesis
    unfolding procdump_def by (rule kfor_keeps [where I = ?I, OF one]) (use assms in auto)
qed

text \<open>
  The interrupt handler's step on one character. Each case of the switch is one function of the
  line read so far.
\<close>

lemma typed_run:
  assumes q: "quiet s" and c: "can_print s" and i: "input_inv s" and r: "0 \<le> c" "c < 256"
    and n: "c \<noteq> 16" "c \<noteq> 21" "c \<noteq> 8" "c \<noteq> 127"
  shows "\<exists>u. console_char c (crit [InputLock] s) = Done () (crit [InputLock] u) \<and> quiet u \<and> can_print u \<and>
     input_inv u \<and> (line_done u, line_cur u) = edit c (line_done s, line_cur s)"
proof (cases "c = 0 \<or> length (line_done s) + length (line_cur s) \<ge> INPUT_BUF")
  case True
  have "\<not> in_e s - in_r s < of_nat INPUT_BUF" if "length (line_done s) + length (line_cur s) \<ge> INPUT_BUF"
    using that line_total [OF i] by (simp add: ring_len_def word_less_nat_alt INPUT_BUF_def)
  then have "console_char c (crit [InputLock] s) = Done () (crit [InputLock] s)"
    using True n by (auto simp: console_char_def run_simps crit_simps)
  then show ?thesis using True n q c i by (intro exI [of _ s]) (auto simp: edit_def)
next
  case False
  define b where "b = (if c = 13 then 10 else c)"
  have room: "in_e s - in_r s < of_nat INPUT_BUF" "length (line_done s) + length (line_cur s) < INPUT_BUF" "c \<noteq> 0"
    using False line_total [OF i] by (simp_all add: ring_len_def word_less_nat_alt INPUT_BUF_def)
  define v where "v = type_char (of_int b) s"
  note ty = type_char_lines [OF i room(2), of "of_int b", folded v_def]
  have cv: "can_print v" "quiet v" using c q by (simp_all add: v_def type_char_def)
  obtain t where t: "consputc b (crit [InputLock] v) = Done () (crit [InputLock] t)" "cons_frame v t" "can_print t"
    using consputc_step [OF cv(1)] by blast
  have ft: "line_done t = line_done s" "line_cur t = line_cur s @ [of_int b]" "quiet t" "in_r t = in_r s"
    "length (in_buf t) = INPUT_BUF"
    using cons_frame_lines [OF t(2)] cons_frame_same [OF t(2)] ty cv by simp_all
  have tot: "ring_len (in_r t) (in_e t) = length (line_done t) + length (line_cur t)"
    unfolding line_lengths
    by (rule ring_len_add) (simp only: line_lengths [symmetric], use room ft in \<open>simp add: INPUT_BUF_def\<close>)
  have "uint (of_int b :: u8) = b" using r by (simp add: b_def uint_word_of_int)
  then have b: "of_int b = (10 :: u8) \<longleftrightarrow> b = 10" "of_int b = (4 :: u8) \<longleftrightarrow> b = 4"
    "of_int b = (if c = 13 then 10 else of_int c :: u8)"
    by (auto simp: word_uint_eq_iff b_def)
  have full: "in_e t = in_r t + of_nat INPUT_BUF \<longleftrightarrow> length (line_done s) + length (line_cur s @ [of_int b]) = INPUT_BUF"
  proof -
    have "in_e t = in_r t + of_nat INPUT_BUF \<longleftrightarrow> in_e t - in_r t = 128" by (auto simp: INPUT_BUF_def algebra_simps)
    also have "\<dots> \<longleftrightarrow> ring_len (in_r t) (in_e t) = 128" by (simp add: ring_len_def word_unat_eq_iff)
    finally show ?thesis using tot ft by (simp add: INPUT_BUF_def)
  qed
  let ?fl = "b = 10 \<or> b = 4 \<or> in_e t = in_r t + of_nat INPUT_BUF"
  let ?w = "woken ChanInput (t\<lparr>in_w := in_e t\<rparr>)"
  have run: "console_char c (crit [InputLock] s) = Done () (crit [InputLock] (if ?fl then ?w else t))"
    using n room t(1) ft(3) unfolding v_def type_char_def b_def
    by (simp add: console_char_def run_simps crit_simps wakeup_run Let_def)
  have ed: "edit c (line_done s, line_cur s) = (if ?fl then (line_done t @ line_cur t, []) else (line_done t, line_cur t))"
    using n room b full ft by (simp add: edit_def Let_def)
  have le: "length (line_done t) + length (line_cur t) \<le> INPUT_BUF" using room ft by simp
  show ?thesis
  proof (cases ?fl)
    case True
    note fl = flush_line [OF ft(5) le]
    have same: "line_done ?w = line_done (t\<lparr>in_w := in_e t\<rparr>)" "line_cur ?w = line_cur (t\<lparr>in_w := in_e t\<rparr>)"
      "input_inv ?w = input_inv (t\<lparr>in_w := in_e t\<rparr>)"
      using lines_cong [of ?w "t\<lparr>in_w := in_e t\<rparr>"] by (simp_all add: woken_def)
    have "can_print ?w" "quiet ?w" using t(3) ft(3) by (simp_all add: can_print_def woken_def)
    then show ?thesis using run ed True fl same by (intro exI [of _ ?w]) simp
  next
    case False
    have "input_inv t" using False ft le i b(1) by (simp add: input_inv_def)
    then show ?thesis using run ed False t(3) ft(3) by (intro exI [of _ t]) simp
  qed
qed

lemma erased_run:
  assumes q: "quiet s" and c: "can_print s" and i: "input_inv s" and n: "c = 8 \<or> c = 127"
  shows "\<exists>u. console_char c (crit [InputLock] s) = Done () (crit [InputLock] u) \<and> quiet u \<and> can_print u \<and>
     input_inv u \<and> (line_done u, line_cur u) = edit c (line_done s, line_cur s)"
proof (cases "in_e s = in_w s")
  case True
  then have "line_cur s = []" by (simp add: line_cur_def)
  then show ?thesis using True n q c i
    by (intro exI [of _ s]) (auto simp: edit_def console_char_def run_simps crit_simps)
next
  case False
  let ?s = "s\<lparr>in_e := in_e s - 1\<rparr>"
  note er = erase_char [OF i False]
  have cs: "can_print ?s" using c by simp
  obtain t where t: "consputc BACKSPACE (crit [InputLock] ?s) = Done () (crit [InputLock] t)" "cons_frame ?s t" "can_print t"
    using consputc_step [OF cs] by blast
  have "butlast (line_cur s) = line_cur ?s" by (subst er(3)) simp
  then have ed: "edit c (line_done s, line_cur s) = (line_done t, line_cur t)"
    using cons_frame_lines [OF t(2)] er(2) n by (auto simp: edit_def)
  have run: "console_char c (crit [InputLock] s) = Done () (crit [InputLock] t)"
    using t(1) False n by (auto simp: console_char_def run_simps crit_simps)
  show ?thesis using run ed t(3) cons_frame_lines [OF t(2)] er(1) q by (intro exI [of _ t]) simp
qed

text \<open>
  C9 (refinement): handling one received character under the input lock edits the line the way
  the abstract editor does: printable bytes are appended, backspace and kill-line erase, end of line,
  end of file and a full buffer hand the line to the readers; a character that does not fit is
  dropped. The indices wrap around at 32 bits, and the bytes already handed over are never touched.
\<close>

theorem console_editor_refines:
  assumes "quiet s" "can_print s" "input_inv s" "0 \<le> c" "c < 256"
  shows "\<exists>u. console_char c (crit [InputLock] s) = Done () (crit [InputLock] u) \<and> quiet u \<and> can_print u \<and>
     input_inv u \<and> (line_done u, line_cur u) = edit c (line_done s, line_cur s)"
proof -
  consider "c = 16" | "c = 21" | "c = 8 \<or> c = 127" | "c \<noteq> 16" "c \<noteq> 21" "c \<noteq> 8" "c \<noteq> 127" by blast
  then show ?thesis
  proof cases
    case 1
    obtain u where "procdump (crit [InputLock] s) = Done () (crit [InputLock] u)" "cons_frame s u" "can_print u"
      using procdump_prints [OF assms(1,2), of "[InputLock]"] by (auto simp: wp_iff)
    then show ?thesis using 1 assms cons_frame_lines [of s u] by (intro exI [of _ u]) (simp add: console_char_def edit_def)
  next
    case 2
    obtain u where u: "kill_line (length (line_cur s)) (crit [InputLock] s) = Done () (crit [InputLock] u)" "quiet u"
      "can_print u" "input_inv u" "line_done u = line_done s" "line_cur u = []"
      using kill_line_run [OF assms(1-3) order_refl, of "[InputLock]"] by blast
    have "console_char c (crit [InputLock] s) = Done () (crit [InputLock] u)"
      using u(1) 2 unfolding line_lengths ring_len_def by (simp add: console_char_def run_simps crit_simps)
    then show ?thesis using u 2 by (intro exI [of _ u]) (simp add: edit_def)
  qed (use assms erased_run typed_run in blast)+
qed

theorem console_editor_refines_witness:
  "\<exists>u. console_char 97 (crit [InputLock] small_consoles) = Done () (crit [InputLock] u) \<and>
     line_done u = [] \<and> line_cur u = [97]"
proof -
  have s: "quiet small_consoles" "can_print small_consoles" "line_done small_consoles = []" "line_cur small_consoles = []"
    using small_consoles_boot by (simp_all add: can_print_def line_done_def line_cur_def ring_q_def ring_len_def)
  then have i: "input_inv small_consoles" using small_consoles_boot(15) by (simp add: input_inv_def INPUT_BUF_def)
  show ?thesis using console_editor_refines [OF s(1,2) i, of 97] s by (auto simp: edit_def INPUT_BUF_def)
qed

end
