(* ===== verification/Inode.thy ===== *)
theory Inode
  imports Console
begin

text \<open>
  The lower half of \<open>src/fs.c\<close>: the block allocator (\<open>bzero\<close>, \<open>balloc\<close>, \<open>bfree\<close>), the inode
  cache (\<open>iget\<close>, \<open>idup\<close>, \<open>ilock\<close>, \<open>iunlock\<close>, \<open>iput\<close>), inode allocation and update, and the
  block map of a file (\<open>bmap\<close>, \<open>itrunc\<close>). An inode pointer is an index into the cache.
\<close>

unbundle bit_operations_syntax

section \<open>State\<close>

definition NINODE :: nat where "NINODE = 50"
definition NINDIRECT :: nat where "NINDIRECT = 128"
definition MAXFILE :: nat where "MAXFILE = 140"
definition IPB :: nat where "IPB = 8"
definition BPB :: nat where "BPB = 4096"
definition ROOTDEV :: nat where "ROOTDEV = 1"
definition ROOTINO :: nat where "ROOTINO = 1"
definition T_DIR :: nat where "T_DIR = 1"
definition T_FILE :: nat where "T_FILE = 2"
definition T_DEV :: nat where "T_DEV = 3"

text \<open>
  \<open>struct inode\<close>; the two bits of \<open>flags\<close> are two fields, and the copy of the disk inode is one
  field, whose \<open>short\<close> members are kept as their 16-bit patterns.
\<close>

record inode =
  i_dev :: nat
  i_inum :: nat
  i_ref :: int
  i_busy :: bool
  i_valid :: bool
  i_din :: dinode

record inodes = consoles +
  sb :: superblock
  icache :: "inode list"

lemma crit_inodes [crit_simps]:
  "sb (crit ls s) = sb s" "icache (crit ls s) = icache s"
  "sb_update f (crit ls s) = crit ls (sb_update f s)"
  "icache_update g (crit ls s) = crit ls (icache_update g s)"
  by (simp_all add: crit_def mycpu_def)

lemma quiet_inodes [simp]:
  "quiet (sb_update f s) = quiet s" "quiet (icache_update g s) = quiet s"
  by (simp_all add: quiet_def mycpu_def)

definition upd_inode :: "nat \<Rightarrow> (inode \<Rightarrow> inode) \<Rightarrow> 'z inodes_scheme \<Rightarrow> 'z inodes_scheme" where
  "upd_inode ip f s = s\<lparr>icache := (icache s)[ip := f (icache s ! ip)]\<rparr>"

definition upd_din :: "nat \<Rightarrow> (dinode \<Rightarrow> dinode) \<Rightarrow> 'z inodes_scheme \<Rightarrow> 'z inodes_scheme" where
  "upd_din ip f = upd_inode ip (\<lambda>i. i\<lparr>i_din := f (i_din i)\<rparr>)"

definition din :: "nat \<Rightarrow> 'z inodes_scheme \<Rightarrow> dinode" where
  "din ip s = i_din (icache s ! ip)"

definition IBLOCK :: "nat \<Rightarrow> superblock \<Rightarrow> nat" where
  "IBLOCK i b = uint32 (int (i div IPB + sb_inodestart b))"

definition BBLOCK :: "nat \<Rightarrow> superblock \<Rightarrow> nat" where
  "BBLOCK b k = uint32 (int (b div BPB + sb_bmapstart k))"

text \<open>Byte offset of inode \<open>i\<close> in its block.\<close>

definition ioff :: "nat \<Rightarrow> nat" where
  "ioff i = 64 * (i mod IPB)"

section \<open>Blocks\<close>

definition bzero :: "nat \<Rightarrow> nat \<Rightarrow> ('z inodes_scheme, unit) km" where
  "bzero dev bno =
     kbind (bread dev bno) (\<lambda>bp.
     kthen (modify (bstore bp (\<lambda>_. replicate BSIZE 0))) (
     kthen (log_write bp) (brelse bp)))"

definition bmask :: "nat \<Rightarrow> u8" where
  "bmask bi = push_bit (bi mod 8) 1"

definition bit_free :: "block \<Rightarrow> nat \<Rightarrow> bool" where
  "bit_free d bi \<longleftrightarrow> d ! (bi div 8) AND bmask bi = 0"

definition bit_set :: "nat \<Rightarrow> block \<Rightarrow> block" where
  "bit_set bi d = d[bi div 8 := d ! (bi div 8) OR bmask bi]"

definition bit_clear :: "nat \<Rightarrow> block \<Rightarrow> block" where
  "bit_clear bi d = d[bi div 8 := d ! (bi div 8) AND NOT (bmask bi)]"

text \<open>One round of the outer loop of \<open>balloc\<close>, for the bitmap block of disk block \<open>b\<close>.\<close>

definition balloc_round :: "nat \<Rightarrow> superblock \<Rightarrow> nat \<Rightarrow> ('z inodes_scheme, nat option) km" where
  "balloc_round dev sblk b =
     kbind (bread dev (BBLOCK b sblk)) (\<lambda>bp.
     kbind (gets (bdata bp)) (\<lambda>d.
     case first_index (bit_free d) [0..<min BPB (sb_size sblk - b)] of
       Some bi \<Rightarrow>
         kthen (modify (bstore bp (bit_set bi))) (
         kthen (log_write bp) (
         kthen (brelse bp) (
         kthen (bzero dev (b + bi)) (
         ret (Some (b + bi))))))
     | None \<Rightarrow> kthen (brelse bp) (ret None)))"

definition balloc :: "nat \<Rightarrow> ('z inodes_scheme, nat) km" where
  "balloc dev =
     kbind (gets sb) (\<lambda>sb.
     kbind (kfind (map ((*) BPB) [0..<(sb_size sb + BPB - 1) div BPB]) (balloc_round dev sb)) (\<lambda>r.
     case r of Some b \<Rightarrow> ret b | None \<Rightarrow> kpanic ''balloc: out of blocks''))"

definition bfree :: "nat \<Rightarrow> nat \<Rightarrow> ('z inodes_scheme, unit) km" where
  "bfree dev b =
     kbind (readsb (int dev)) (\<lambda>sb.
     kthen (modify (\<lambda>s. s\<lparr>sb := sb\<rparr>)) (
     kbind (bread dev (BBLOCK b sb)) (\<lambda>bp.
     let bi = b mod BPB in
     kbind (gets (bdata bp)) (\<lambda>d.
     kthen (panic_if (bit_free d bi) ''freeing free block'') (
     kthen (modify (bstore bp (bit_clear bi))) (
     kthen (log_write bp) (brelse bp)))))))"

section \<open>Inodes\<close>

definition iinit :: "int \<Rightarrow> ('z inodes_scheme, unit) km" where
  "iinit dev =
     kthen (initlock IcacheLock) (
     kbind (readsb dev) (\<lambda>b.
     kthen (modify (\<lambda>s. s\<lparr>sb := b\<rparr>)) (
     cprintf (Some (''sb: size %d nblocks %d ninodes %d nlog %d logstart %d inodestart %d bmap start %d'' @ [CHR 0x0A]))
       (map (\<lambda>x. ArgW (of_nat x)) [sb_size b, sb_nblocks b, sb_ninodes b, sb_nlog b, sb_logstart b,
          sb_inodestart b, sb_bmapstart b]))))"

text \<open>The cache entry \<open>iget\<close> uses: the one that holds the inode, else the first unused one.\<close>

definition iget :: "nat \<Rightarrow> nat \<Rightarrow> ('z inodes_scheme, nat) km" where
  "iget dev inum =
     kthen (acquire IcacheLock) (
     kbind (gets icache) (\<lambda>ic.
     case first_index (\<lambda>i. i_ref i > 0 \<and> i_dev i = dev \<and> i_inum i = inum) ic of
       Some ip \<Rightarrow>
         kthen (modify (upd_inode ip (\<lambda>i. i\<lparr>i_ref := i_ref i + 1\<rparr>))) (
         kthen (release IcacheLock) (ret ip))
     | None \<Rightarrow>
         (case first_index (\<lambda>i. i_ref i = 0) ic of
            None \<Rightarrow> kpanic ''iget: no inodes''
          | Some ip \<Rightarrow>
              kthen (modify (upd_inode ip (\<lambda>i. i\<lparr>i_dev := dev, i_inum := inum, i_ref := 1,
                i_busy := False, i_valid := False\<rparr>))) (
              kthen (release IcacheLock) (ret ip)))))"

definition ialloc_round :: "nat \<Rightarrow> nat \<Rightarrow> superblock \<Rightarrow> nat \<Rightarrow> ('z inodes_scheme, nat option) km" where
  "ialloc_round dev type sblk inum =
     kbind (bread dev (IBLOCK inum sblk)) (\<lambda>bp.
     kbind (gets (bdata bp)) (\<lambda>d.
     if di_type (get_dinode (ioff inum) d) = 0 then
       kthen (modify (bstore bp (put_dinode (ioff inum)
         \<lparr>di_type = type, di_major = 0, di_minor = 0, di_nlink = 0, di_size = 0,
          di_addrs = replicate (NDIRECT + 1) 0\<rparr>))) (
       kthen (log_write bp) (
       kthen (brelse bp) (
       kbind (iget dev inum) (\<lambda>ip. ret (Some ip)))))
     else kthen (brelse bp) (ret None)))"

definition ialloc :: "nat \<Rightarrow> nat \<Rightarrow> ('z inodes_scheme, nat) km" where
  "ialloc dev type =
     kbind (gets sb) (\<lambda>sb.
     kbind (kfind [1..<sb_ninodes sb] (ialloc_round dev type sb)) (\<lambda>r.
     case r of Some ip \<Rightarrow> ret ip | None \<Rightarrow> kpanic ''ialloc: no inodes''))"

definition iupdate :: "nat \<Rightarrow> ('z inodes_scheme, unit) km" where
  "iupdate ip =
     kbind (gets (\<lambda>s. icache s ! ip)) (\<lambda>i.
     kbind (gets sb) (\<lambda>sb.
     kbind (bread (i_dev i) (IBLOCK (i_inum i) sb)) (\<lambda>bp.
     kthen (modify (bstore bp (put_dinode (ioff (i_inum i)) (i_din i)))) (
     kthen (log_write bp) (brelse bp)))))"

definition idup :: "nat \<Rightarrow> ('z inodes_scheme, nat) km" where
  "idup ip =
     kthen (acquire IcacheLock) (
     kthen (modify (upd_inode ip (\<lambda>i. i\<lparr>i_ref := i_ref i + 1\<rparr>))) (
     kthen (release IcacheLock) (ret ip)))"

text \<open>The part of \<open>ilock\<close> that runs once the inode is marked busy: reading it from the disk.\<close>

definition ilock_load :: "nat \<Rightarrow> ('z inodes_scheme, unit) km" where
  "ilock_load ip =
     kbind (gets (\<lambda>s. icache s ! ip)) (\<lambda>i.
     kwhen (\<not> i_valid i) (
       kbind (gets sb) (\<lambda>sb.
       kbind (bread (i_dev i) (IBLOCK (i_inum i) sb)) (\<lambda>bp.
       kbind (gets (bdata bp)) (\<lambda>d.
       kthen (modify (upd_din ip (\<lambda>_. get_dinode (ioff (i_inum i)) d))) (
       kthen (brelse bp) (
       kthen (modify (upd_inode ip (\<lambda>i. i\<lparr>i_valid := True\<rparr>))) (
       kbind (gets (\<lambda>s. di_type (din ip s))) (\<lambda>t.
       panic_if (t = 0) ''ilock: no type'')))))))))"

definition ilock_loop :: "nat \<Rightarrow> ('z inodes_scheme, unit) km" where
  "ilock_loop ip =
     kbind (gets (\<lambda>s. i_busy (icache s ! ip))) (\<lambda>b.
     if b then sleep (Some (ChanInode ip)) (Some IcacheLock)
     else
       kthen (modify (upd_inode ip (\<lambda>i. i\<lparr>i_busy := True\<rparr>))) (
       kthen (release IcacheLock) (ilock_load ip)))"

definition ilock :: "nat option \<Rightarrow> ('z inodes_scheme, unit) km" where
  "ilock p =
     kbind (gets (\<lambda>s. p = None \<or> i_ref (icache s ! the p) < 1)) (\<lambda>bad.
     kthen (panic_if bad ''ilock'') (
     kthen (acquire IcacheLock) (
     ilock_loop (the p))))"

definition ilock_resume :: "bool \<Rightarrow> nat \<Rightarrow> ('z inodes_scheme, unit) km" where
  "ilock_resume saved ip = kthen (sleep_resume saved IcacheLock) (ilock_loop ip)"

definition iunlock :: "nat option \<Rightarrow> ('z inodes_scheme, unit) km" where
  "iunlock p =
     kbind (gets (\<lambda>s. p = None \<or> \<not> i_busy (icache s ! the p) \<or> i_ref (icache s ! the p) < 1)) (\<lambda>bad.
     kthen (panic_if bad ''iunlock'') (
     kthen (acquire IcacheLock) (
     kthen (modify (upd_inode (the p) (\<lambda>i. i\<lparr>i_busy := False\<rparr>))) (
     kthen (wakeup (ChanInode (the p))) (
     release IcacheLock)))))"

section \<open>The block map of a file\<close>

definition addr_slot :: "nat \<Rightarrow> nat \<Rightarrow> ('z inodes_scheme, nat) km" where
  "addr_slot ip k =
     kbind (gets (\<lambda>s. di_addrs (din ip s) ! k)) (\<lambda>addr.
     if addr = 0 then
       kbind (gets (\<lambda>s. i_dev (icache s ! ip))) (\<lambda>dev.
       kbind (balloc dev) (\<lambda>a.
       kthen (modify (upd_din ip (\<lambda>d. d\<lparr>di_addrs := (di_addrs d)[k := a]\<rparr>))) (
       ret a)))
     else ret addr)"

definition bmap :: "nat \<Rightarrow> nat \<Rightarrow> ('z inodes_scheme, nat) km" where
  "bmap ip bn =
     (if bn < NDIRECT then addr_slot ip bn
      else if bn - NDIRECT < NINDIRECT then
        let k = bn - NDIRECT in
        kbind (addr_slot ip NDIRECT) (\<lambda>ind.
        kbind (gets (\<lambda>s. i_dev (icache s ! ip))) (\<lambda>dev.
        kbind (bread dev ind) (\<lambda>bp.
        kbind (gets (\<lambda>s. getle 4 (4 * k) (bdata bp s))) (\<lambda>addr.
        kbind (if addr = 0 then
                 kbind (balloc dev) (\<lambda>a.
                 kthen (modify (bstore bp (putle 4 (4 * k) a))) (
                 kthen (log_write bp) (ret a)))
               else ret addr) (\<lambda>a.
        kthen (brelse bp) (ret a))))))
      else kpanic ''bmap: out of range'')"

definition itrunc_direct :: "nat \<Rightarrow> nat \<Rightarrow> ('z inodes_scheme, unit) km" where
  "itrunc_direct ip i =
     kbind (gets (\<lambda>s. di_addrs (din ip s) ! i)) (\<lambda>a.
     kwhen (a \<noteq> 0) (
       kbind (gets (\<lambda>s. i_dev (icache s ! ip))) (\<lambda>dev.
       kthen (bfree dev a) (
       modify (upd_din ip (\<lambda>d. d\<lparr>di_addrs := (di_addrs d)[i := 0]\<rparr>))))))"

definition itrunc :: "nat \<Rightarrow> ('z inodes_scheme, unit) km" where
  "itrunc ip =
     kthen (kfor [0..<NDIRECT] (itrunc_direct ip)) (
     kbind (gets (\<lambda>s. di_addrs (din ip s) ! NDIRECT)) (\<lambda>ind.
     kthen (kwhen (ind \<noteq> 0) (
       kbind (gets (\<lambda>s. i_dev (icache s ! ip))) (\<lambda>dev.
       kbind (bread dev ind) (\<lambda>bp.
       kthen (kfor [0..<NINDIRECT] (\<lambda>j.
         kbind (gets (\<lambda>s. getle 4 (4 * j) (bdata bp s))) (\<lambda>a. kwhen (a \<noteq> 0) (bfree dev a)))) (
       kthen (brelse bp) (
       kthen (bfree dev ind) (
       modify (upd_din ip (\<lambda>d. d\<lparr>di_addrs := (di_addrs d)[NDIRECT := 0]\<rparr>))))))))) (
     kthen (modify (upd_din ip (\<lambda>d. d\<lparr>di_size := 0\<rparr>))) (
     iupdate ip))))"

definition iput :: "nat \<Rightarrow> ('z inodes_scheme, unit) km" where
  "iput ip =
     kthen (acquire IcacheLock) (
     kbind (gets (\<lambda>s. icache s ! ip)) (\<lambda>i.
     kthen (kwhen (i_ref i = 1 \<and> i_valid i \<and> di_nlink (i_din i) = 0) (
       kthen (panic_if (i_busy i) ''iput busy'') (
       kthen (modify (upd_inode ip (\<lambda>i. i\<lparr>i_busy := True\<rparr>))) (
       kthen (release IcacheLock) (
       kthen (itrunc ip) (
       kthen (modify (upd_din ip (\<lambda>d. d\<lparr>di_type := 0\<rparr>))) (
       kthen (iupdate ip) (
       kthen (acquire IcacheLock) (
       kthen (modify (upd_inode ip (\<lambda>i. i\<lparr>i_busy := False, i_valid := False\<rparr>))) (
       wakeup (ChanInode ip))))))))))) (
     kthen (modify (upd_inode ip (\<lambda>i. i\<lparr>i_ref := i_ref i - 1\<rparr>))) (
     release IcacheLock))))"

definition iunlockput :: "nat \<Rightarrow> ('z inodes_scheme, unit) km" where
  "iunlockput ip = kthen (iunlock (Some ip)) (iput ip)"

record stat =
  st_type :: nat
  st_dev :: int
  st_ino :: nat
  st_nlink :: nat
  st_size :: nat

definition stati :: "nat \<Rightarrow> ('z inodes_scheme, stat) km" where
  "stati ip =
     kbind (gets (\<lambda>s. icache s ! ip)) (\<lambda>i.
     ret \<lparr>st_type = di_type (i_din i), st_dev = to_int32 (i_dev i), st_ino = i_inum i,
        st_nlink = di_nlink (i_din i), st_size = di_size (i_din i)\<rparr>)"

section \<open>A concrete machine\<close>

definition zero_dinode :: dinode where
  "zero_dinode = \<lparr>di_type = 0, di_major = 0, di_minor = 0, di_nlink = 0, di_size = 0,
     di_addrs = replicate (NDIRECT + 1) 0\<rparr>"

definition zero_inode :: inode where
  "zero_inode = \<lparr>i_dev = 0, i_inum = 0, i_ref = 0, i_busy = False, i_valid = False, i_din = zero_dinode\<rparr>"

definition small_sb :: superblock where
  "small_sb = \<lparr>sb_size = 1000, sb_nblocks = 941, sb_ninodes = 200, sb_nlog = 30, sb_logstart = 2,
     sb_inodestart = 32, sb_bmapstart = 58\<rparr>"

definition small_inodes :: inodes where
  "small_inodes = consoles.extend small_consoles \<lparr>sb = small_sb, icache = replicate NINODE zero_inode\<rparr>"

lemma small_inodes_boot:
  "quiet small_inodes" "curproc small_inodes = Some 1" "length (ptable small_inodes) = 2" "disksize small_inodes = 1000"
  "klog small_inodes = small_log" "ptable small_inodes = ptable small_consoles" "cpu_id small_inodes = 0"
  "sb small_inodes = small_sb" "icache small_inodes = replicate NINODE zero_inode"
  using small_consoles_boot
  by (simp_all add: small_inodes_def consoles.defs quiet_def mycpu_def curproc_def)

end
