(* ===== verification/Cstring.thy ===== *)
theory Cstring
  imports Kernel_Prelude "HOL-Library.Signed_Division"
begin

text \<open>
  The kernel's memory and string routines of \<open>src/string.c\<close>, with the string instructions of
  \<open>src/x86.h\<close> they use, on a flat memory of bytes under 32-bit addresses. An address is a \<open>u32\<close>, so
  pointer arithmetic wraps the way the machine's does. The list versions of these routines that
  the other components use are shown to be what the routines leave in memory.
\<close>

unbundle bit_operations_syntax

section \<open>The routines\<close>

type_synonym bytemem = "u32 \<Rightarrow> u8"

text \<open>The repeated string stores: \<open>rep stosb\<close> and \<open>rep stosl\<close>, the latter in little-endian order.\<close>

primrec stosb :: "bytemem \<Rightarrow> u32 \<Rightarrow> u32 \<Rightarrow> nat \<Rightarrow> bytemem" where
  "stosb m addr data 0 = m"
| "stosb m addr data (Suc cnt) = stosb (m(addr := ucast data)) (addr + 1) data cnt"

primrec stosl :: "bytemem \<Rightarrow> u32 \<Rightarrow> u32 \<Rightarrow> nat \<Rightarrow> bytemem" where
  "stosl m addr data 0 = m"
| "stosl m addr data (Suc cnt) =
     stosl (m(addr := ucast data, addr + 1 := ucast (drop_bit 8 data), addr + 2 := ucast (drop_bit 16 data),
       addr + 3 := ucast (drop_bit 24 data))) (addr + 4) data cnt"

definition memset :: "bytemem \<Rightarrow> u32 \<Rightarrow> u32 \<Rightarrow> u32 \<Rightarrow> bytemem" where
  "memset m dst c n =
     (if sint dst smod 4 = 0 \<and> unat n mod 4 = 0 then
        let c = c AND 0xFF in
        stosl m dst (push_bit 24 c OR push_bit 16 c OR push_bit 8 c OR c) (unat n div 4)
      else stosb m dst c (unat n))"

primrec memcmp :: "bytemem \<Rightarrow> u32 \<Rightarrow> u32 \<Rightarrow> nat \<Rightarrow> int" where
  "memcmp m s1 s2 0 = 0"
| "memcmp m s1 s2 (Suc n) = (if m s1 \<noteq> m s2 then uint (m s1) - uint (m s2) else memcmp m (s1 + 1) (s2 + 1) n)"

text \<open>The two loops of \<open>memmove\<close>.\<close>

primrec copy_up :: "bytemem \<Rightarrow> u32 \<Rightarrow> u32 \<Rightarrow> nat \<Rightarrow> bytemem" where
  "copy_up m d s 0 = m"
| "copy_up m d s (Suc n) = copy_up (m(d := m s)) (d + 1) (s + 1) n"

primrec copy_down :: "bytemem \<Rightarrow> u32 \<Rightarrow> u32 \<Rightarrow> nat \<Rightarrow> bytemem" where
  "copy_down m d s 0 = m"
| "copy_down m d s (Suc n) = copy_down (m(d - 1 := m (s - 1))) (d - 1) (s - 1) n"

definition memmove :: "bytemem \<Rightarrow> u32 \<Rightarrow> u32 \<Rightarrow> u32 \<Rightarrow> bytemem" where
  "memmove m dst src n =
     (if src < dst \<and> src + n > dst then copy_down m (dst + n) (src + n) (unat n)
      else copy_up m dst src (unat n))"

definition memcpy :: "bytemem \<Rightarrow> u32 \<Rightarrow> u32 \<Rightarrow> u32 \<Rightarrow> bytemem" where
  "memcpy m dst src n = memmove m dst src n"

primrec strncmp :: "bytemem \<Rightarrow> u32 \<Rightarrow> u32 \<Rightarrow> nat \<Rightarrow> int" where
  "strncmp m p q 0 = 0"
| "strncmp m p q (Suc n) =
     (if m p \<noteq> 0 \<and> m p = m q then strncmp m (p + 1) (q + 1) n else uint (m p) - uint (m q))"

text \<open>
  The copying loop of \<open>strncpy\<close> and \<open>safestrcpy\<close>: at most \<open>n\<close> bytes, the last one a zero if one is
  met. The result is the memory, where the destination pointer stands and how many bytes are left.
\<close>

primrec copy_str :: "bytemem \<Rightarrow> u32 \<Rightarrow> u32 \<Rightarrow> nat \<Rightarrow> bytemem \<times> u32 \<times> nat" where
  "copy_str m s t 0 = (m, s, 0)"
| "copy_str m s t (Suc n) =
     (let m' = m(s := m t) in if m t \<noteq> 0 then copy_str m' (s + 1) (t + 1) n else (m', s + 1, n))"

definition strncpy :: "bytemem \<Rightarrow> u32 \<Rightarrow> u32 \<Rightarrow> int \<Rightarrow> bytemem" where
  "strncpy m s t n = (let (m', s', k) = copy_str m s t (nat n) in stosb m' s' 0 k)"

definition safestrcpy :: "bytemem \<Rightarrow> u32 \<Rightarrow> u32 \<Rightarrow> int \<Rightarrow> bytemem" where
  "safestrcpy m s t n =
     (if n \<le> 0 then m
      else let (m', s', k) = copy_str m s t (nat (n - 1)) in m'(s' := 0))"

partial_function (option) strlen_from :: "bytemem \<Rightarrow> u32 \<Rightarrow> nat \<Rightarrow> nat option" where
  "strlen_from m s n = (if m (s + of_nat n) = 0 then Some n else strlen_from m s (n + 1))"

definition strlen :: "bytemem \<Rightarrow> u32 \<Rightarrow> nat option" where
  "strlen m s = strlen_from m s 0"

section \<open>The same on lists\<close>

text \<open>The comparison and the padded copy on strings as lists, without their terminating zero.\<close>

fun cstrncmp :: "u8 list \<Rightarrow> u8 list \<Rightarrow> nat \<Rightarrow> int" where
  "cstrncmp p q 0 = 0"
| "cstrncmp [] [] (Suc n) = 0"
| "cstrncmp [] (b # q) (Suc n) = - uint b"
| "cstrncmp (a # p) [] (Suc n) = uint a"
| "cstrncmp (a # p) (b # q) (Suc n) = (if a = b then cstrncmp p q n else uint a - uint b)"

definition cstrncpy :: "u8 list \<Rightarrow> nat \<Rightarrow> u8 list" where
  "cstrncpy t n = take n (t @ replicate n 0)"

text \<open>The string stored in a range: up to its first zero byte, all of it if there is none.\<close>

definition cstr :: "u8 list \<Rightarrow> u8 list" where
  "cstr bs = takeWhile (\<lambda>b. b \<noteq> 0) bs"

section \<open>What they leave in memory\<close>

text \<open>The \<open>n\<close> bytes from an address on, going round at the end of the address space.\<close>

definition mbytes :: "bytemem \<Rightarrow> u32 \<Rightarrow> nat \<Rightarrow> u8 list" where
  "mbytes m a n = map (\<lambda>i. m (a + of_nat i)) [0..<n]"

lemma unat_pred: "x \<noteq> (0 :: u32) \<Longrightarrow> unat (x - 1) = unat x - 1"
  by (simp add: unat_minus_one)

lemma unat_diff_Suc: "(x :: u32) \<noteq> d \<Longrightarrow> unat (x - d) = Suc (unat (x - (d + 1)))"
proof -
  assume "x \<noteq> d"
  then have "x - d \<noteq> 0" by simp
  then have "unat (x - d - 1) = unat (x - d) - 1" "unat (x - d) \<noteq> 0" by (simp_all add: unat_pred unat_eq_0)
  moreover have "x - d - 1 = x - (d + 1)" by simp
  ultimately show ?thesis by simp
qed

lemma unat_minus_1 [simp]: "unat (- 1 :: u32) = 4294967295"
  by (simp add: unsigned_minus_1_eq_mask mask_eq_exp_minus_1)

lemma stosb_spec:
  "n < 2 ^ 32 \<Longrightarrow> stosb m d c n = (\<lambda>x. if unat (x - d) < n then ucast c else m x)"
proof (induction n arbitrary: m d)
  case (Suc n)
  show ?case
  proof
    fix x
    show "stosb m d c (Suc n) x = (if unat (x - d) < Suc n then ucast c else m x)"
    proof (cases "x = d")
      case True
      then show ?thesis using Suc by simp
    next
      case False
      then show ?thesis using Suc unat_diff_Suc [OF False] by simp
    qed
  qed
qed simp

lemma copy_up_spec:
  "n < 2 ^ 32 \<Longrightarrow> \<not> (0 < unat (d - s) \<and> unat (d - s) < n) \<Longrightarrow>
    copy_up m d s n = (\<lambda>x. if unat (x - d) < n then m (s + (x - d)) else m x)"
proof (induction n arbitrary: m d s)
  case (Suc n)
  have c: "\<not> (0 < unat (d + 1 - (s + 1)) \<and> unat (d + 1 - (s + 1)) < n)" using Suc.prems by auto
  have n: "n < 2 ^ 32" using Suc.prems by simp
  note step = copy_up.simps(2) [of m d s n, unfolded Suc.IH [OF n c]]
  show ?case
  proof
    fix x
    show "copy_up m d s (Suc n) x = (if unat (x - d) < Suc n then m (s + (x - d)) else m x)"
    proof (cases "x = d")
      case True
      then show ?thesis using Suc.prems by (simp add: step del: copy_up.simps)
    next
      case False
      have "s + (x - d) \<noteq> d" if "unat (x - d) < Suc n"
      proof
        assume "s + (x - d) = d"
        then have "x - d = d - s" by (simp add: algebra_simps)
        then show False using Suc.prems(2) that False by (auto simp: unat_gt_0)
      qed
      then show ?thesis using unat_diff_Suc [OF False] False by (simp add: step algebra_simps del: copy_up.simps)
    qed
  qed
qed simp

lemma copy_down_spec:
  "n < 2 ^ 32 \<Longrightarrow> \<not> (0 < unat (s - d) \<and> unat (s - d) < n) \<Longrightarrow>
    copy_down m (d + of_nat n) (s + of_nat n) n = (\<lambda>x. if unat (x - d) < n then m (s + (x - d)) else m x)"
proof (induction n arbitrary: m)
  case (Suc n)
  have c: "\<not> (0 < unat (s - d) \<and> unat (s - d) < n)" using Suc.prems by auto
  have n: "n < 2 ^ 32" using Suc.prems by simp
  have step: "copy_down m (d + of_nat (Suc n)) (s + of_nat (Suc n)) (Suc n) =
      copy_down (m(d + of_nat n := m (s + of_nat n))) (d + of_nat n) (s + of_nat n) n"
    by (simp add: algebra_simps)
  show ?case
  proof
    fix x
    have e: "unat (x - d) = n \<longleftrightarrow> x = d + of_nat n"
    proof
      assume "unat (x - d) = n"
      then have "of_nat n = x - d" by auto
      then show "x = d + of_nat n" by simp
    qed (use n in \<open>simp add: unsigned_of_nat take_bit_nat_eq_self\<close>)
    have "s + (x - d) \<noteq> d + of_nat n" if b: "unat (x - d) < n"
    proof
      assume "s + (x - d) = d + of_nat n"
      then have "s - d = of_nat n - of_nat (unat (x - d))" by (simp add: algebra_simps)
      also have "\<dots> = of_nat (n - unat (x - d))" using b by (simp add: of_nat_diff)
      finally have "unat (s - d) = n - unat (x - d)" using Suc.prems(1) by (simp add: unsigned_of_nat take_bit_nat_eq_self)
      then show False using Suc.prems(2) b by simp
    qed
    then show "copy_down m (d + of_nat (Suc n)) (s + of_nat (Suc n)) (Suc n) x =
        (if unat (x - d) < Suc n then m (s + (x - d)) else m x)"
      unfolding step Suc.IH [OF n c] using e by (auto simp: less_Suc_eq)
  qed
qed simp

text \<open>
  C10 (equivalence): \<open>memmove\<close> moves as if through a copy of its source: every destination byte gets
  what its source byte held before the call, and no other byte changes, however the two ranges
  overlap. The ranges must not go round the end of the address space.
\<close>

theorem memmove_moves:
  assumes "unat src + unat n < 2 ^ 32" "unat dst + unat n \<le> 2 ^ 32"
  shows "memmove m dst src n = (\<lambda>x. if unat (x - dst) < unat n then m (src + (x - dst)) else m x)"
proof (cases "src < dst \<and> src + n > dst")
  case True
  have "unat (src - dst) = 2 ^ 32 - (unat dst - unat src)"
    using True by (simp add: unat_sub_if_size word_less_nat_alt size_word_def)
  then have "unat n \<le> unat (src - dst)" using assms True by simp
  then show ?thesis using True copy_down_spec [of "unat n" src dst m] unsigned_less [of n, where ?'a = nat] by (simp add: memmove_def)
next
  case False
  have "unat (dst - src) = (if src \<le> dst then unat dst - unat src else unat dst + 4294967296 - unat src)"
    by (simp add: unat_sub_if_size word_le_nat_alt size_word_def del: One_nat_def)
  moreover have "unat (src + n) = unat src + unat n" using assms by (simp add: unat_plus_if_size size_word_def)
  ultimately have "\<not> (0 < unat (dst - src) \<and> unat (dst - src) < unat n)"
    using False assms by (auto simp: word_less_nat_alt word_le_nat_alt split: if_splits)
  then show ?thesis using False copy_up_spec [of "unat n" dst src m] unsigned_less [of n, where ?'a = nat] by (auto simp: memmove_def)
qed

theorem memmove_moves_witness:
  "memmove (\<lambda>a. ucast a) 0x1001 0x1000 4 = (\<lambda>x. if unat (x - 0x1001) < 4 then ucast (0x1000 + (x - 0x1001)) else ucast x)"
  using memmove_moves [of "0x1000" 4 "0x1001" "\<lambda>a. ucast a"] by simp

text \<open>\<open>memset\<close> fills its range, word by word when the range is aligned, byte by byte otherwise.\<close>

lemma stosl_stosb:
  assumes "ucast d = (ucast c :: u8)" "ucast (drop_bit 8 d) = (ucast c :: u8)" "ucast (drop_bit 16 d) = (ucast c :: u8)"
    "ucast (drop_bit 24 d) = (ucast c :: u8)"
  shows "stosl m a d k = stosb m a c (4 * k)"
proof (induction k arbitrary: m a)
  case (Suc k)
  have "4 * Suc k = Suc (Suc (Suc (Suc (4 * k))))" by simp
  then have "stosb m a c (4 * Suc k) =
      stosb (m(a := ucast c, a + 1 := ucast c, a + 2 := ucast c, a + 3 := ucast c)) (a + 4) c (4 * k)"
    by (simp only: stosb.simps) (simp add: add.assoc)
  then show ?case using assms by (simp only: stosl.simps Suc.IH)
qed simp

lemma memset_fills: "memset m dst c n = (\<lambda>x. if unat (x - dst) < unat n then ucast c else m x)"
proof -
  define b where "b = c AND 0xFF"
  define d where "d = push_bit 24 b OR push_bit 16 b OR push_bit 8 b OR b"
  have ff: "(0xFF :: u32) = mask 8" by (simp add: mask_eq_exp_minus_1)
  have "ucast d = (ucast c :: u8)" "ucast (drop_bit 8 d) = (ucast c :: u8)" "ucast (drop_bit 16 d) = (ucast c :: u8)"
    "ucast (drop_bit 24 d) = (ucast c :: u8)"
    unfolding d_def b_def ff by (rule bit_word_eqI; auto simp: bit_simps)+
  then have "stosl m dst d (unat n div 4) = stosb m dst c (4 * (unat n div 4))" by (rule stosl_stosb)
  then have "memset m dst c n = stosb m dst c (unat n)" by (auto simp: memset_def Let_def b_def d_def)
  then show ?thesis using stosb_spec [of "unat n" m dst c] unsigned_less [of n, where ?'a = nat] by simp
qed

text \<open>The byte comparison is zero exactly on equal ranges.\<close>

lemma length_mbytes [simp]: "length (mbytes m a n) = n"
  by (simp add: mbytes_def)

lemma mbytes_Suc: "mbytes m a (Suc n) = m a # mbytes m (a + 1) n"
  by (simp add: mbytes_def upt_conv_Cons map_Suc_upt [symmetric] algebra_simps del: upt_Suc)

lemma memcmp_zero: "memcmp m a b n = 0 \<longleftrightarrow> mbytes m a n = mbytes m b n"
  by (induction n arbitrary: a b) (auto simp: mbytes_Suc word_uint_eq_iff, simp add: mbytes_def)

text \<open>The string comparison on memory is the one on the strings stored there.\<close>

lemma strncmp_cstr: "strncmp m p q n = cstrncmp (cstr (mbytes m p n)) (cstr (mbytes m q n)) n"
  by (induction n arbitrary: p q) (auto simp: mbytes_Suc cstr_def)

text \<open>
  The copying loop copies up to and including the first zero byte. The condition is the one
  of an upward copy: the destination does not start inside the part of the source still to be read.
\<close>

definition str_span :: "bytemem \<Rightarrow> u32 \<Rightarrow> nat \<Rightarrow> nat" where
  "str_span m t n = min n (Suc (length (cstr (mbytes m t n))))"

lemma str_span_Suc: "str_span m t (Suc n) = (if m t = 0 then 1 else Suc (str_span m (t + 1) n))"
  by (simp add: str_span_def mbytes_Suc cstr_def)

lemma mbytes_upd: "(\<And>i. i < n \<Longrightarrow> a + of_nat i \<noteq> x) \<Longrightarrow> mbytes (m(x := b)) a n = mbytes m a n"
  by (simp add: mbytes_def)

lemma copy_str_spec:
  "n < 2 ^ 32 \<Longrightarrow> \<not> (0 < unat (s - t) \<and> unat (s - t) < n) \<Longrightarrow>
    copy_str m s t n = (let j = str_span m t n in (copy_up m s t j, s + of_nat j, n - j))"
proof (induction n arbitrary: m s t)
  case (Suc n)
  have ne: "t + 1 + of_nat i \<noteq> s" if "i < n" for i
  proof
    assume "t + 1 + of_nat i = s"
    then have "s - t = of_nat (Suc i)" by (auto simp: algebra_simps)
    then have "unat (s - t) = Suc i" using Suc.prems(1) that by (simp add: unsigned_of_nat take_bit_nat_eq_self del: of_nat_Suc)
    then show False using Suc.prems(2) that by simp
  qed
  have "mbytes (m(s := m t)) (t + 1) n = mbytes m (t + 1) n" by (rule mbytes_upd) (rule ne)
  then have sp: "str_span (m(s := m t)) (t + 1) n = str_span m (t + 1) n" by (simp add: str_span_def)
  show ?case
  proof (cases "m t = 0")
    case False
    have "copy_str (m(s := m t)) (s + 1) (t + 1) n =
        (let j = str_span m (t + 1) n in (copy_up (m(s := m t)) (s + 1) (t + 1) j, s + 1 + of_nat j, n - j))"
      unfolding sp [symmetric] by (rule Suc.IH) (use Suc.prems in auto)
    then show ?thesis using False by (simp add: str_span_Suc Let_def algebra_simps)
  qed (simp add: str_span_Suc)
qed (simp add: str_span_def)

lemma nth_mbytes: "i < n \<Longrightarrow> mbytes m a n ! i = m (a + of_nat i)"
  by (simp add: mbytes_def)

lemma str_span_le: "str_span m t n \<le> n"
  by (simp add: str_span_def)

lemma cstrncpy_nth:
  assumes "i < n"
  shows "cstrncpy (cstr (mbytes m t n)) n ! i = (if i < str_span m t n then m (t + of_nat i) else 0)"
proof -
  let ?c = "cstr (mbytes m t n)"
  have len: "length ?c \<le> n" unfolding cstr_def using length_takeWhile_le [of "\<lambda>b. b \<noteq> 0" "mbytes m t n"] by simp
  have pre: "?c ! i = m (t + of_nat i)" if "i < length ?c"
    using that assms takeWhile_nth [of i "\<lambda>b. b \<noteq> 0" "mbytes m t n"] by (simp add: cstr_def nth_mbytes)
  have stop: "m (t + of_nat i) = 0" if "i = length ?c"
    using that assms nth_length_takeWhile [of "\<lambda>b. b \<noteq> 0" "mbytes m t n"] by (simp add: cstr_def nth_mbytes)
  show ?thesis
    using assms pre stop len by (cases "i < length ?c"; cases "i = length ?c") (auto simp: cstrncpy_def nth_append str_span_def)
qed

lemma strncpy_copies:
  assumes n: "0 \<le> n" "n < 2 ^ 31" and d: "\<not> (0 < unat (s - t) \<and> unat (s - t) < nat n)"
  shows "strncpy m s t n = (\<lambda>x. if unat (x - s) < nat n then cstrncpy (cstr (mbytes m t (nat n))) (nat n) ! unat (x - s) else m x)"
proof -
  let ?j = "str_span m t (nat n)"
  have j: "?j \<le> nat n" "nat n < 2 ^ 32" using n str_span_le by auto
  have up: "copy_up m s t ?j = (\<lambda>x. if unat (x - s) < ?j then m (t + (x - s)) else m x)"
    by (rule copy_up_spec) (use j d in auto)
  have un: "strncpy m s t n = stosb (copy_up m s t ?j) (s + of_nat ?j) 0 (nat n - ?j)"
    using copy_str_spec [OF j(2) d, of m] by (simp add: strncpy_def Let_def)
  show ?thesis
  proof
    fix x
    have shift: "unat (x - (s + of_nat ?j)) = (if ?j \<le> unat (x - s) then unat (x - s) - ?j else unat (x - s) + 4294967296 - ?j)"
    proof -
      have e: "x - (s + of_nat ?j) = (x - s) - of_nat ?j" by (simp add: algebra_simps)
      have "unat (of_nat ?j :: u32) = ?j" using j by (simp add: unsigned_of_nat take_bit_nat_eq_self)
      then show ?thesis unfolding e by (simp add: unat_sub_if_size size_word_def)
    qed
    have "stosb (copy_up m s t ?j) (s + of_nat ?j) 0 (nat n - ?j) x =
        (if unat (x - (s + of_nat ?j)) < nat n - ?j then 0 else if unat (x - s) < ?j then m (t + (x - s)) else m x)"
      using j by (simp add: stosb_spec up)
    also have "\<dots> = (if unat (x - s) < nat n then cstrncpy (cstr (mbytes m t (nat n))) (nat n) ! unat (x - s) else m x)"
      using j cstrncpy_nth [of "unat (x - s)" "nat n" m t] unsigned_less [of "x - s", where ?'a = nat] by (auto simp: shift)
    finally show "strncpy m s t n x = (if unat (x - s) < nat n then cstrncpy (cstr (mbytes m t (nat n))) (nat n) ! unat (x - s) else m x)"
      unfolding un .
  qed
qed

text \<open>What \<open>safestrcpy\<close> leaves is always terminated: the source string, cut to fit.\<close>

lemma cstr_eqI:
  "length c < length xs \<Longrightarrow> (\<And>i. i < length c \<Longrightarrow> xs ! i = c ! i) \<Longrightarrow> xs ! length c = 0 \<Longrightarrow> 0 \<notin> set c \<Longrightarrow> cstr xs = c"
proof -
  assume l: "length c < length xs" and e: "\<And>i. i < length c \<Longrightarrow> xs ! i = c ! i" and z: "xs ! length c = 0" "0 \<notin> set c"
  have "takeWhile (\<lambda>b. b \<noteq> 0) xs = take (length c) xs"
    by (rule takeWhile_eq_take_P_nth) (use e z in \<open>auto simp: in_set_conv_nth\<close>)
  also have "\<dots> = c" using l e by (intro nth_equalityI) auto
  finally show ?thesis by (simp add: cstr_def)
qed

lemma safestrcpy_terminates:
  assumes n: "0 < n" "n < 2 ^ 31" and d: "\<not> (0 < unat (s - t) \<and> unat (s - t) < nat n)"
  shows "cstr (mbytes (safestrcpy m s t n) s (nat n)) = cstr (mbytes m t (nat n - 1))"
    "nat n \<le> unat (x - s) \<Longrightarrow> safestrcpy m s t n x = m x"
proof -
  define k where "k = nat n - 1"
  define j where "j = str_span m t k"
  let ?c = "cstr (mbytes m t k)"
  have nk: "nat n = Suc k" "nat (n - 1) = k" "k < 2 ^ 31" using n by (auto simp: k_def)
  have j: "j \<le> k" using str_span_le by (simp add: j_def)
  have dk: "\<not> (0 < unat (s - t) \<and> unat (s - t) < k)" using d nk by auto
  have up: "copy_up m s t j = (\<lambda>x. if unat (x - s) < j then m (t + (x - s)) else m x)"
    by (rule copy_up_spec) (use j d nk in auto)
  have un: "safestrcpy m s t n = (copy_up m s t j)(s + of_nat j := 0)"
    using copy_str_spec [OF _ dk, of m] n nk by (simp add: safestrcpy_def Let_def j_def)
  have un_s: "unat (of_nat i :: u32) = i" if "i \<le> k" for i using that nk by (simp add: unsigned_of_nat take_bit_nat_eq_self)
  have at: "mbytes (safestrcpy m s t n) s (Suc k) ! i = (if i < j then m (t + of_nat i) else if i = j then 0 else m (s + of_nat i))"
    if "i \<le> k" for i
    using that j un_s by (auto simp: nth_mbytes un up dest: arg_cong [where f = unat])
  have len: "length ?c \<le> k" unfolding cstr_def using length_takeWhile_le [of "\<lambda>b. b \<noteq> 0" "mbytes m t k"] by simp
  have pre: "i < length ?c \<Longrightarrow> ?c ! i = m (t + of_nat i)" for i
    using len takeWhile_nth [of i "\<lambda>b. b \<noteq> 0" "mbytes m t k"] by (simp add: cstr_def nth_mbytes)
  have stop: "length ?c < k \<Longrightarrow> m (t + of_nat (length ?c)) = 0"
    using nth_length_takeWhile [of "\<lambda>b. b \<noteq> 0" "mbytes m t k"] by (simp add: cstr_def nth_mbytes)
  have jc: "j = (if length ?c < k then Suc (length ?c) else k)" using len by (auto simp: j_def str_span_def)
  show "cstr (mbytes (safestrcpy m s t n) s (nat n)) = cstr (mbytes m t (nat n - 1))"
    unfolding nk(1) diff_Suc_1
  proof (rule cstr_eqI)
    show "0 \<notin> set ?c" unfolding cstr_def by (auto dest: set_takeWhileD)
    show "mbytes (safestrcpy m s t n) s (Suc k) ! length ?c = 0" using at [OF len] stop len jc by auto
    show "mbytes (safestrcpy m s t n) s (Suc k) ! i = ?c ! i" if "i < length ?c" for i
      using at [of i] pre [OF that] that len jc by auto
  qed (use len in simp)
  show "safestrcpy m s t n x = m x" if "nat n \<le> unat (x - s)"
  proof -
    have "x \<noteq> s + of_nat j"
    proof
      assume "x = s + of_nat j"
      then have "unat (x - s) = j" using un_s [OF j] by simp
      then show False using that j nk by simp
    qed
    then show ?thesis using that j nk by (simp add: un up)
  qed
qed

text \<open>\<open>strlen\<close> returns whenever the string ends.\<close>

lemma strlen_from_ends:
  "(\<And>i. i < n \<Longrightarrow> m (s + of_nat i) \<noteq> 0) \<Longrightarrow> m (s + of_nat n) = 0 \<Longrightarrow> i \<le> n \<Longrightarrow> strlen_from m s i = Some n"
proof (induction "n - i" arbitrary: i)
  case (Suc k)
  then show ?case using Suc.hyps(1) [of "Suc i"] by (subst strlen_from.simps) simp
qed (simp add: strlen_from.simps)

lemma strlen_ends: "0 \<in> set (mbytes m s k) \<Longrightarrow> strlen m s = Some (length (cstr (mbytes m s k)))"
proof -
  assume z: "0 \<in> set (mbytes m s k)"
  let ?n = "length (cstr (mbytes m s k))"
  obtain i where i: "i < k" "mbytes m s k ! i = 0" using z by (auto simp: in_set_conv_nth)
  have l: "?n < k"
  proof (rule ccontr)
    assume "\<not> ?n < k"
    then have "cstr (mbytes m s k) ! i = 0" "i < ?n"
      using i takeWhile_nth [of i "\<lambda>b. b \<noteq> 0" "mbytes m s k"] by (simp_all add: cstr_def)
    then show False using nth_mem [of i "cstr (mbytes m s k)"] by (auto simp: cstr_def dest: set_takeWhileD)
  qed
  have "m (s + of_nat i) \<noteq> 0" if "i < ?n" for i
    using that l nth_mem [OF that] takeWhile_nth [of i "\<lambda>b. b \<noteq> 0" "mbytes m s k"]
    by (auto simp: cstr_def nth_mbytes dest: set_takeWhileD)
  moreover have "m (s + of_nat ?n) = 0"
    using l nth_length_takeWhile [of "\<lambda>b. b \<noteq> 0" "mbytes m s k"] by (simp add: cstr_def nth_mbytes)
  ultimately show ?thesis unfolding strlen_def by (rule strlen_from_ends) simp_all
qed

end
