(* ===== verification/Dir.thy ===== *)
theory Dir
  imports Inode Cstring
begin

text \<open>
  The upper half of \<open>src/fs.c\<close>: reading and writing the contents of an inode, directories and path
  names; and the console as a device file (\<open>consoleread\<close>, \<open>consolewrite\<close>, \<open>consoleinit\<close> of
  \<open>src/console.c\<close>), which \<open>readi\<close> and \<open>writei\<close> reach through the device switch. A buffer the
  callee fills is returned as the bytes stored into it; a buffer it reads is a list of bytes. A path
  is the bytes before its terminating zero.
\<close>

section \<open>State\<close>

definition NDEV :: nat where "NDEV = 10"
definition CONSOLE :: nat where "CONSOLE = 1"

text \<open>The functions a device switch entry can point to.\<close>

datatype devfn = ConsoleFn

record devsw_entry =
  dev_read :: "devfn option"
  dev_write :: "devfn option"

record devsws = inodes +
  devsw :: "nat \<Rightarrow> devsw_entry"

lemma crit_devsws [crit_simps]:
  "devsw (crit ls s) = devsw s" "devsw_update f (crit ls s) = crit ls (devsw_update f s)"
  by (simp_all add: crit_def mycpu_def)

lemma quiet_devsws [simp]: "quiet (devsw_update f s) = quiet s"
  by (simp add: quiet_def mycpu_def)

section \<open>The console as a file\<close>

definition consoleread_end :: "nat \<Rightarrow> int \<Rightarrow> u8 list \<Rightarrow> ('z devsws_scheme, int \<times> u8 list) km" where
  "consoleread_end ip r bs =
     kthen (release InputLock) (
     kthen (ilock (Some ip)) (
     ret (r, bs)))"

text \<open>The loop of \<open>consoleread\<close> with \<open>n\<close> bytes still wanted out of \<open>target\<close> and \<open>bs\<close> stored so far.\<close>

primrec consoleread_loop :: "nat \<Rightarrow> nat \<Rightarrow> u8 list \<Rightarrow> nat \<Rightarrow> ('z devsws_scheme, int \<times> u8 list) km" where
  "consoleread_loop ip target bs 0 = consoleread_end ip (int target) bs"
| "consoleread_loop ip target bs (Suc n) =
     kbind (gets (\<lambda>s. in_r s = in_w s)) (\<lambda>empty.
     if empty then
       kbind myproc (\<lambda>me.
       kbind (gets (\<lambda>s. p_killed (ptable s ! me))) (\<lambda>k.
       if k then consoleread_end ip (- 1) bs
       else sleep (Some ChanInput) (Some InputLock)))
     else
       kbind (gets (\<lambda>s. in_buf s ! in_slot (in_r s))) (\<lambda>c.
       kthen (modify (\<lambda>s. s\<lparr>in_r := in_r s + 1\<rparr>)) (
       if c = 4 then
         kthen (kwhen (Suc n < target) (modify (\<lambda>s. s\<lparr>in_r := in_r s - 1\<rparr>))) (
         consoleread_end ip (int target - int (Suc n)) bs)
       else if c = 10 then consoleread_end ip (int target - int n) (bs @ [c])
       else consoleread_loop ip target (bs @ [c]) n)))"

definition consoleread :: "nat \<Rightarrow> int \<Rightarrow> ('z devsws_scheme, int \<times> u8 list) km" where
  "consoleread ip n =
     kthen (iunlock (Some ip)) (
     kthen (acquire InputLock) (
     if n \<le> 0 then consoleread_end ip 0 []
     else consoleread_loop ip (nat n) [] (nat n)))"

definition consoleread_resume ::
    "bool \<Rightarrow> nat \<Rightarrow> nat \<Rightarrow> u8 list \<Rightarrow> nat \<Rightarrow> ('z devsws_scheme, int \<times> u8 list) km" where
  "consoleread_resume saved ip target bs n =
     kthen (sleep_resume saved InputLock) (consoleread_loop ip target bs n)"

definition consolewrite :: "nat \<Rightarrow> u8 list \<Rightarrow> int \<Rightarrow> ('z devsws_scheme, int) km" where
  "consolewrite ip src n =
     kthen (iunlock (Some ip)) (
     kthen (acquire ConsLock) (
     kthen (kfor (take (nat n) src) (\<lambda>c. consputc (uint c))) (
     kthen (release ConsLock) (
     kthen (ilock (Some ip)) (
     ret n)))))"

definition consoleinit :: "('z devsws_scheme, unit) km" where
  "consoleinit =
     kthen (initlock ConsLock) (
     kthen (initlock InputLock) (
     kthen (modify (\<lambda>s. s\<lparr>devsw := (devsw s)(CONSOLE := \<lparr>dev_read = Some ConsoleFn, dev_write = Some ConsoleFn\<rparr>)\<rparr>)) (
     kthen (modify (\<lambda>s. s\<lparr>cons_locking := True\<rparr>)) (
     kthen (picenable IRQ_KBD) (
     ioapicenable IRQ_KBD 0)))))"

section \<open>Contents of an inode\<close>

text \<open>The \<open>major\<close> number is a signed \<open>short\<close>: patterns from 32768 on are negative.\<close>

definition dev_bad :: "nat \<Rightarrow> bool" where
  "dev_bad major \<longleftrightarrow> major \<ge> 32768 \<or> major \<ge> NDEV"

text \<open>Every round of the loop copies at least one byte, so \<open>n\<close> rounds are enough for \<open>n\<close> bytes.\<close>

primrec readi_loop :: "nat \<Rightarrow> nat \<Rightarrow> nat \<Rightarrow> nat \<Rightarrow> ('z devsws_scheme, u8 list) km" where
  "readi_loop 0 ip off n = ret []"
| "readi_loop (Suc k) ip off n =
     (if n = 0 then ret []
      else
        kbind (gets (\<lambda>s. i_dev (icache s ! ip))) (\<lambda>dev.
        kbind (bmap ip (off div BSIZE)) (\<lambda>addr.
        kbind (bread dev addr) (\<lambda>bp.
        let m = min n (BSIZE - off mod BSIZE) in
        kbind (gets (\<lambda>s. bslice (off mod BSIZE) m (bdata bp s))) (\<lambda>part.
        kthen (brelse bp) (
        kbind (readi_loop k ip (off + m) (n - m)) (\<lambda>rest.
        ret (part @ rest))))))))"

definition readi :: "nat \<Rightarrow> nat \<Rightarrow> nat \<Rightarrow> ('z devsws_scheme, int \<times> u8 list) km" where
  "readi ip off n =
     kbind (gets (din ip)) (\<lambda>d.
     if di_type d = T_DEV then
       if dev_bad (di_major d) then ret (- 1, [])
       else kbind (gets (\<lambda>s. dev_read (devsw s (di_major d)))) (\<lambda>f.
         case f of None \<Rightarrow> ret (- 1, []) | Some ConsoleFn \<Rightarrow> consoleread ip (to_int32 n))
     else if off > di_size d \<or> uint32 (int off + int n) < off then ret (- 1, [])
     else
       let n = (if uint32 (int off + int n) > di_size d then di_size d - off else n) in
       kbind (readi_loop n ip off n) (\<lambda>bs. ret (to_int32 n, bs)))"

primrec writei_loop :: "nat \<Rightarrow> nat \<Rightarrow> u8 list \<Rightarrow> nat \<Rightarrow> nat \<Rightarrow> ('z devsws_scheme, unit) km" where
  "writei_loop 0 ip src off n = ret ()"
| "writei_loop (Suc k) ip src off n =
     (if n = 0 then ret ()
      else
        kbind (gets (\<lambda>s. i_dev (icache s ! ip))) (\<lambda>dev.
        kbind (bmap ip (off div BSIZE)) (\<lambda>addr.
        kbind (bread dev addr) (\<lambda>bp.
        let m = min n (BSIZE - off mod BSIZE) in
        kthen (modify (bstore bp (overwrite (off mod BSIZE) (take m src)))) (
        kthen (log_write bp) (
        kthen (brelse bp) (
        writei_loop k ip (drop m src) (off + m) (n - m))))))))"

definition writei :: "nat \<Rightarrow> u8 list \<Rightarrow> nat \<Rightarrow> nat \<Rightarrow> ('z devsws_scheme, int) km" where
  "writei ip src off n =
     kbind (gets (din ip)) (\<lambda>d.
     if di_type d = T_DEV then
       if dev_bad (di_major d) then ret (- 1)
       else kbind (gets (\<lambda>s. dev_write (devsw s (di_major d)))) (\<lambda>f.
         case f of None \<Rightarrow> ret (- 1) | Some ConsoleFn \<Rightarrow> consolewrite ip src (to_int32 n))
     else if off > di_size d \<or> uint32 (int off + int n) < off then ret (- 1)
     else if uint32 (int off + int n) > MAXFILE * BSIZE then ret (- 1)
     else
       kthen (writei_loop n ip src off n) (
       kbind (gets (\<lambda>s. di_size (din ip s))) (\<lambda>sz.
       kthen (kwhen (n > 0 \<and> off + n > sz) (
         kthen (modify (upd_din ip (\<lambda>d. d\<lparr>di_size := off + n\<rparr>))) (
         iupdate ip))) (
       ret (to_int32 n)))))"

section \<open>Directories\<close>

text \<open>Names are compared as the bytes before their terminating zero.\<close>

definition namecmp :: "u8 list \<Rightarrow> u8 list \<Rightarrow> int" where
  "namecmp s t = cstrncmp s t DIRSIZ"

definition de_size :: nat where "de_size = 16"

definition dir_offsets :: "nat \<Rightarrow> nat list" where
  "dir_offsets n = map ((*) de_size) [0..<(n + de_size - 1) div de_size]"

definition read_dirent :: "nat \<Rightarrow> nat \<Rightarrow> string \<Rightarrow> ('z devsws_scheme, dirent) km" where
  "read_dirent dp off msg =
     kbind (readi dp off de_size) (\<lambda>(r, bs).
     kthen (panic_if (r \<noteq> int de_size) msg) (
     ret (get_dirent bs)))"

definition dirlookup :: "nat \<Rightarrow> u8 list \<Rightarrow> ('z devsws_scheme, (nat \<times> nat) option) km" where
  "dirlookup dp name =
     kbind (gets (din dp)) (\<lambda>d.
     kthen (panic_if (di_type d \<noteq> T_DIR) ''dirlookup not DIR'') (
     kfind (dir_offsets (di_size d)) (\<lambda>off.
       kbind (read_dirent dp off ''dirlink read'') (\<lambda>de.
       if de_inum de \<noteq> 0 \<and> namecmp name (cstr (de_name de)) = 0 then
         kbind (gets (\<lambda>s. i_dev (icache s ! dp))) (\<lambda>dev.
         kbind (iget dev (de_inum de)) (\<lambda>ip.
         ret (Some (ip, off))))
       else ret None))))"

definition dirlink :: "nat \<Rightarrow> u8 list \<Rightarrow> nat \<Rightarrow> ('z devsws_scheme, int) km" where
  "dirlink dp name inum =
     kbind (dirlookup dp name) (\<lambda>r.
     case r of
       Some (ip, _) \<Rightarrow> kthen (iput ip) (ret (- 1))
     | None \<Rightarrow>
         kbind (gets (\<lambda>s. di_size (din dp s))) (\<lambda>size.
         kbind (kfind (dir_offsets size) (\<lambda>off.
           kbind (read_dirent dp off ''dirlink read'') (\<lambda>de.
           ret (if de_inum de = 0 then Some off else None)))) (\<lambda>hole.
         let off = (case hole of Some off \<Rightarrow> off | None \<Rightarrow> de_size * ((size + de_size - 1) div de_size));
             de = \<lparr>de_inum = inum mod 65536, de_name = cstrncpy name DIRSIZ\<rparr> in
         kbind (writei dp (put_dirent de) off de_size) (\<lambda>w.
         kthen (panic_if (w \<noteq> int de_size) ''dirlink'') (
         ret 0)))))"

section \<open>Path names\<close>

definition slash :: u8 where "slash = 47"

definition skipelem :: "u8 list \<Rightarrow> (u8 list \<times> u8 list) option" where
  "skipelem path =
     (let p = dropWhile (\<lambda>c. c = slash) path in
      if p = [] then None
      else
        let elem = takeWhile (\<lambda>c. c \<noteq> slash) p;
            rest = dropWhile (\<lambda>c. c \<noteq> slash) p in
        Some (take DIRSIZ elem, dropWhile (\<lambda>c. c = slash) rest))"

text \<open>
  The loop of \<open>namex\<close>: every round takes at least one byte off the path, so one round more than
  its length is enough.
\<close>

primrec namex_loop :: "nat \<Rightarrow> nat \<Rightarrow> u8 list \<Rightarrow> u8 list \<Rightarrow> bool \<Rightarrow> ('z devsws_scheme, (nat \<times> u8 list) option) km" where
  "namex_loop 0 ip path name parent = kspin"
| "namex_loop (Suc k) ip path name parent =
     (case skipelem path of
        None \<Rightarrow>
          if parent then kthen (iput ip) (ret None) else ret (Some (ip, name))
      | Some (name, path) \<Rightarrow>
          kthen (ilock (Some ip)) (
          kbind (gets (\<lambda>s. di_type (din ip s))) (\<lambda>t.
          if t \<noteq> T_DIR then kthen (iunlockput ip) (ret None)
          else if parent \<and> path = [] then kthen (iunlock (Some ip)) (ret (Some (ip, name)))
          else
            kbind (dirlookup ip name) (\<lambda>r.
            case r of
              None \<Rightarrow> kthen (iunlockput ip) (ret None)
            | Some (next, _) \<Rightarrow>
                kthen (iunlockput ip) (namex_loop k next path name parent)))))"

definition namex :: "u8 list \<Rightarrow> bool \<Rightarrow> ('z devsws_scheme, (nat \<times> u8 list) option) km" where
  "namex path parent =
     kbind (if path \<noteq> [] \<and> hd path = slash then iget ROOTDEV ROOTINO
            else
              kbind myproc (\<lambda>me.
              kbind (gets (\<lambda>s. p_cwd (ptable s ! me))) (\<lambda>cwd.
              case cwd of None \<Rightarrow> kfault ''cwd is null'' | Some c \<Rightarrow> idup c))) (\<lambda>ip.
     namex_loop (Suc (length path)) ip path [] parent)"

definition namei :: "u8 list \<Rightarrow> ('z devsws_scheme, nat option) km" where
  "namei path = kbind (namex path False) (\<lambda>r. ret (map_option fst r))"

definition nameiparent :: "u8 list \<Rightarrow> ('z devsws_scheme, (nat \<times> u8 list) option) km" where
  "nameiparent path = namex path True"

section \<open>A concrete machine\<close>

definition small_devsws :: devsws where
  "small_devsws = inodes.extend small_inodes \<lparr>devsw = (\<lambda>_. \<lparr>dev_read = None, dev_write = None\<rparr>)\<rparr>"

lemma small_devsws_boot:
  "quiet small_devsws" "curproc small_devsws = Some 1" "length (ptable small_devsws) = 2" "disksize small_devsws = 1000"
  "klog small_devsws = small_log" "ptable small_devsws = ptable small_inodes" "cpu_id small_devsws = 0"
  "sb small_devsws = small_sb" "icache small_devsws = replicate NINODE zero_inode"
  using small_inodes_boot
  by (simp_all add: small_devsws_def inodes.defs quiet_def mycpu_def curproc_def)

section \<open>Paths are walked component by component\<close>

text \<open>
  The components of a path: the non-empty pieces between its slashes, cut to the length of a
  directory entry's name.
\<close>

primrec pieces :: "u8 list \<Rightarrow> u8 list list" where
  "pieces [] = [[]]"
| "pieces (c # s) = (if c = slash then [] # pieces s else (c # hd (pieces s)) # tl (pieces s))"

definition path_names :: "u8 list \<Rightarrow> u8 list list" where
  "path_names path = map (take DIRSIZ) (filter (\<lambda>n. n \<noteq> []) (pieces path))"

text \<open>The walk \<open>namex\<close> is meant to make, along a list of names.\<close>

primrec walk :: "nat \<Rightarrow> u8 list list \<Rightarrow> u8 list \<Rightarrow> bool \<Rightarrow> ('z devsws_scheme, (nat \<times> u8 list) option) km" where
  "walk ip [] name parent = (if parent then kthen (iput ip) (ret None) else ret (Some (ip, name)))"
| "walk ip (n # ns) name parent =
     kthen (ilock (Some ip)) (
     kbind (gets (\<lambda>s. di_type (din ip s))) (\<lambda>t.
     if t \<noteq> T_DIR then kthen (iunlockput ip) (ret None)
     else if parent \<and> ns = [] then kthen (iunlock (Some ip)) (ret (Some (ip, n)))
     else
       kbind (dirlookup ip n) (\<lambda>r.
       case r of
         None \<Rightarrow> kthen (iunlockput ip) (ret None)
       | Some (next, _) \<Rightarrow> kthen (iunlockput ip) (walk next ns n parent))))"

lemma pieces_slashes: "filter (\<lambda>n. n \<noteq> []) (pieces (dropWhile (\<lambda>c. c = slash) p)) = filter (\<lambda>n. n \<noteq> []) (pieces p)"
  by (induction p) auto

lemma pieces_ne: "pieces p \<noteq> []"
  by (induction p) auto

lemma pieces_elem:
  "pieces p = takeWhile (\<lambda>c. c \<noteq> slash) p # (case dropWhile (\<lambda>c. c \<noteq> slash) p of [] \<Rightarrow> [] | _ # r \<Rightarrow> pieces r)"
  by (induction p) auto

lemma path_names_slashes: "path_names (dropWhile (\<lambda>c. c = slash) p) = path_names p"
  by (simp add: path_names_def pieces_slashes)

lemma path_names_elem:
  assumes "p \<noteq> []" "hd p \<noteq> slash"
  shows "path_names p = take DIRSIZ (takeWhile (\<lambda>c. c \<noteq> slash) p) # path_names (dropWhile (\<lambda>c. c \<noteq> slash) p)"
proof -
  have t: "takeWhile (\<lambda>c. c \<noteq> slash) p \<noteq> []" using assms by (cases p) auto
  show ?thesis
  proof (cases "dropWhile (\<lambda>c. c \<noteq> slash) p")
    case Nil
    show ?thesis unfolding path_names_def pieces_elem [of p] Nil using t by simp
  next
    case (Cons x r)
    then have "x = slash" using hd_dropWhile [of "\<lambda>c. c \<noteq> slash" p] by simp
    then show ?thesis unfolding path_names_def pieces_elem [of p] Cons using t by simp
  qed
qed

lemma path_names_Nil: "p = [] \<or> hd p \<noteq> slash \<Longrightarrow> path_names p = [] \<longleftrightarrow> p = []"
  using path_names_elem [of p] by (cases "p = []") (simp_all add: path_names_def)

text \<open>One step of the path scanner.\<close>

lemma skipelem_names:
  "path_names path = (case skipelem path of None \<Rightarrow> [] | Some (n, r) \<Rightarrow> n # path_names r)"
  "skipelem path = Some (n, r) \<Longrightarrow> length r < length path \<and> (r = [] \<longleftrightarrow> path_names r = [])"
proof -
  let ?p = "dropWhile (\<lambda>c. c = slash) path"
  have h: "?p \<noteq> [] \<Longrightarrow> hd ?p \<noteq> slash" using hd_dropWhile [of "\<lambda>c. c = slash" path] by blast
  show "path_names path = (case skipelem path of None \<Rightarrow> [] | Some (n, r) \<Rightarrow> n # path_names r)"
  proof (cases "?p = []")
    case True
    have "path_names path = path_names []" using path_names_slashes [of path] unfolding True by (rule sym)
    then show ?thesis using True by (simp add: skipelem_def path_names_def)
  next
    case False
    then show ?thesis
      using path_names_elem [OF False h] path_names_slashes [of path] path_names_slashes [of "dropWhile (\<lambda>c. c \<noteq> slash) ?p"]
      by (simp add: skipelem_def Let_def)
  qed
  assume "skipelem path = Some (n, r)"
  then have ne: "?p \<noteq> []" and r: "r = dropWhile (\<lambda>c. c = slash) (dropWhile (\<lambda>c. c \<noteq> slash) ?p)"
    by (auto simp: skipelem_def Let_def split: if_splits)
  have "length (dropWhile (\<lambda>c. c \<noteq> slash) ?p) < length ?p"
    using ne h length_dropWhile_le [of "\<lambda>c. c \<noteq> slash" "tl ?p"] by (cases ?p) auto
  then have "length r < length path"
    using length_dropWhile_le [of "\<lambda>c. c = slash" path] length_dropWhile_le [of "\<lambda>c. c = slash" "dropWhile (\<lambda>c. c \<noteq> slash) ?p"]
    unfolding r by linarith
  moreover have "r = [] \<or> hd r \<noteq> slash" unfolding r using hd_dropWhile [of "\<lambda>c. c = slash" "dropWhile (\<lambda>c. c \<noteq> slash) ?p"] by blast
  ultimately show "length r < length path \<and> (r = [] \<longleftrightarrow> path_names r = [])" using path_names_Nil by blast
qed

lemma namex_loop_walk: "length path < k \<Longrightarrow> namex_loop k ip path name parent = walk ip (path_names path) name parent"
proof (induction k arbitrary: ip path name)
  case (Suc k)
  show ?case
  proof (cases "skipelem path")
    case None
    then show ?thesis using skipelem_names(1) [of path] by simp
  next
    case (Some nr)
    obtain n r where nr: "skipelem path = Some (n, r)" using Some by (cases nr) auto
    note s = skipelem_names(2) [OF nr]
    have "length r < k" using s Suc.prems by linarith
    note IH = Suc.IH [OF this]
    have e: "path_names path = n # path_names r" and c: "(r = []) = (path_names r = [])" using skipelem_names(1) [of path] nr s by simp_all
    show ?thesis unfolding namex_loop.simps nr option.case prod.case IH e walk.simps c by (rule refl)
  qed
qed simp

text \<open>
  C1 (equivalence). \<open>namex\<close> resolves a path by looking up its components in turn: the non-empty
  pieces between slashes, each cut to fourteen characters, starting at the root for a path that
  begins with a slash and at the current directory otherwise; for \<open>nameiparent\<close> it stops before
  the last one. In particular its loop ends for every path.
\<close>

theorem namex_walks:
  "namex path parent =
     kbind (if path \<noteq> [] \<and> hd path = slash then iget ROOTDEV ROOTINO
            else
              kbind myproc (\<lambda>me.
              kbind (gets (\<lambda>s. p_cwd (ptable s ! me))) (\<lambda>cwd.
              case cwd of None \<Rightarrow> kfault ''cwd is null'' | Some c \<Rightarrow> idup c))) (\<lambda>ip.
     walk ip (path_names path) [] parent)"
  unfolding namex_def by (simp only: namex_loop_walk [OF lessI])

end
