(* ===== verification/Vm.thy ===== *)
theory Vm
  imports Dir
begin

text \<open>
  Virtual memory: \<open>src/vm.c\<close>. Page directories and page tables are pages of the allocator's
  memory; a pointer to a page-table entry is the page it lies in and its index there. Addresses and
  entries are 32-bit words, as in the code.
\<close>

unbundle bit_operations_syntax

section \<open>Addresses and entries\<close>

definition PDX :: "u32 \<Rightarrow> nat" where "PDX va = unat (drop_bit 22 va AND 0x3FF)"
definition PTX :: "u32 \<Rightarrow> nat" where "PTX va = unat (drop_bit 12 va AND 0x3FF)"
definition PTE_P :: u32 where "PTE_P = 1"
definition PTE_W :: u32 where "PTE_W = 2"
definition PTE_U :: u32 where "PTE_U = 4"
definition PTE_ADDR :: "u32 \<Rightarrow> u32" where "PTE_ADDR pte = pte AND NOT 0xFFF"
definition PTE_FLAGS :: "u32 \<Rightarrow> u32" where "PTE_FLAGS pte = pte AND 0xFFF"
definition NPDENTRIES :: nat where "NPDENTRIES = 1024"
definition NPTENTRIES :: nat where "NPTENTRIES = 1024"
definition EXTMEM :: u32 where "EXTMEM = 0x100000"
definition DEVSPACE :: u32 where "DEVSPACE = 0xFE000000"
definition KERNLINK :: u32 where "KERNLINK = KERNBASE + EXTMEM"

definition pte_at :: "(u32 \<times> nat) \<Rightarrow> 'z kmems_scheme \<Rightarrow> u32" where
  "pte_at p s = pmem s (fst p) (snd p)"

definition set_pte :: "(u32 \<times> nat) \<Rightarrow> u32 \<Rightarrow> 'z kmems_scheme \<Rightarrow> 'z kmems_scheme" where
  "set_pte p v s = s\<lparr>pmem := (pmem s)(fst p := (pmem s (fst p))(snd p := v))\<rparr>"

definition zero_page :: "u32 \<Rightarrow> 'z kmems_scheme \<Rightarrow> 'z kmems_scheme" where
  "zero_page v s = s\<lparr>pmem := (pmem s)(v := (\<lambda>_. 0))\<rparr>"

text \<open>Bytes of memory at kernel addresses.\<close>

definition byte_of :: "u32 \<Rightarrow> nat \<Rightarrow> u8" where
  "byte_of w k = ucast (drop_bit (8 * k) w)"

definition set_byte :: "nat \<Rightarrow> u8 \<Rightarrow> u32 \<Rightarrow> u32" where
  "set_byte k b w = (w AND NOT (push_bit (8 * k) 0xFF)) OR push_bit (8 * k) (ucast b)"

definition kpeek :: "u32 \<Rightarrow> 'z kmems_scheme \<Rightarrow> u8" where
  "kpeek a s = (let off = unat (a AND (PGSIZE - 1)) in
     byte_of (pmem s (PGROUNDDOWN a) (off div 4)) (off mod 4))"

definition kpoke :: "u32 \<Rightarrow> u8 \<Rightarrow> 'z kmems_scheme \<Rightarrow> 'z kmems_scheme" where
  "kpoke a b s = (let pg = PGROUNDDOWN a; off = unat (a AND (PGSIZE - 1)) in
     s\<lparr>pmem := (pmem s)(pg := (pmem s pg)(off div 4 := set_byte (off mod 4) b (pmem s pg (off div 4))))\<rparr>)"

primrec kpokes :: "u32 \<Rightarrow> u8 list \<Rightarrow> 'z kmems_scheme \<Rightarrow> 'z kmems_scheme" where
  "kpokes a [] s = s"
| "kpokes a (b # bs) s = kpokes (a + 1) bs (kpoke a b s)"

section \<open>Segments\<close>

definition SEG :: "u8 \<Rightarrow> u32 \<Rightarrow> u32 \<Rightarrow> u8 \<Rightarrow> segdesc" where
  "SEG type base lim dpl =
     \<lparr>lim_15_0 = ucast (drop_bit 12 lim AND 0xffff), base_15_0 = ucast (base AND 0xffff),
      base_23_16 = ucast (drop_bit 16 base AND 0xff), seg_type = type, seg_s = True, seg_dpl = dpl,
      seg_p = True, lim_19_16 = ucast (drop_bit 28 lim), seg_db = True, seg_g = True,
      base_31_24 = ucast (drop_bit 24 base)\<rparr>"

definition SEG_KCODE :: nat where "SEG_KCODE = 1"
definition SEG_KDATA :: nat where "SEG_KDATA = 2"
definition SEG_KCPU :: nat where "SEG_KCPU = 3"
definition SEG_UCODE :: nat where "SEG_UCODE = 4"
definition SEG_UDATA :: nat where "SEG_UDATA = 5"
definition DPL_USER :: u8 where "DPL_USER = 3"

text \<open>
  \<open>seginit\<close>; \<open>cpu_field c\<close> is the address of the \<open>cpu\<close> member of \<open>cpus[c]\<close>. Loading \<open>%gs\<close> with the
  descriptor of that address makes \<open>c\<close> the CPU the code runs on.
\<close>

definition seginit :: "(nat \<Rightarrow> u32) \<Rightarrow> u32 \<Rightarrow> ('z consoles_scheme, unit) km" where
  "seginit cpu_field caller =
     kbind (cpunum caller) (\<lambda>c.
     kthen (modify (\<lambda>s. s\<lparr>gdts := (gdts s)(c := (gdts s c)(
        SEG_KCODE := SEG (0x8 OR 0x2) 0 0xffffffff 0, SEG_KDATA := SEG 0x2 0 0xffffffff 0,
        SEG_UCODE := SEG (0x8 OR 0x2) 0 0xffffffff DPL_USER, SEG_UDATA := SEG 0x2 0 0xffffffff DPL_USER,
        SEG_KCPU := SEG 0x2 (cpu_field c) 8 0))\<rparr>)) (
     kthen (modify (\<lambda>s. s\<lparr>cpu_id := c\<rparr>)) (
     set_cproc None)))"

section \<open>Page tables\<close>

definition walkpgdir :: "u32 \<Rightarrow> u32 \<Rightarrow> bool \<Rightarrow> ('z kmems_scheme, (u32 \<times> nat) option) km" where
  "walkpgdir pgdir va alloc =
     kbind (gets (pte_at (pgdir, PDX va))) (\<lambda>pde.
     if pde AND PTE_P \<noteq> 0 then ret (Some (p2v (PTE_ADDR pde), PTX va))
     else if \<not> alloc then ret None
     else
       kbind kalloc (\<lambda>pgtab.
       if pgtab = 0 then ret None
       else
         kthen (modify (zero_page pgtab)) (
         kthen (modify (set_pte (pgdir, PDX va) (v2p pgtab OR PTE_P OR PTE_W OR PTE_U))) (
         ret (Some (pgtab, PTX va))))))"

text \<open>The loop of \<open>mappages\<close>; the number of pages from \<open>a\<close> to \<open>lst\<close> bounds its rounds.\<close>

primrec mappages_loop :: "nat \<Rightarrow> u32 \<Rightarrow> u32 \<Rightarrow> u32 \<Rightarrow> u32 \<Rightarrow> u32 \<Rightarrow> ('z kmems_scheme, int) km" where
  "mappages_loop 0 pgdir a lst pa perm = kspin"
| "mappages_loop (Suc k) pgdir a lst pa perm =
     kbind (walkpgdir pgdir a True) (\<lambda>r.
     case r of
       None \<Rightarrow> ret (- 1)
     | Some pte \<Rightarrow>
         kbind (gets (pte_at pte)) (\<lambda>v.
         kthen (panic_if (v AND PTE_P \<noteq> 0) ''remap'') (
         kthen (modify (set_pte pte (pa OR perm OR PTE_P))) (
         if a = lst then ret 0
         else mappages_loop k pgdir (a + PGSIZE) lst (pa + PGSIZE) perm))))"

definition mappages :: "u32 \<Rightarrow> u32 \<Rightarrow> u32 \<Rightarrow> u32 \<Rightarrow> u32 \<Rightarrow> ('z kmems_scheme, int) km" where
  "mappages pgdir va sz pa perm =
     (let a = PGROUNDDOWN va; lst = PGROUNDDOWN (va + sz - 1) in
      mappages_loop (Suc (unat (lst - a) div 4096)) pgdir a lst pa perm)"

text \<open>The table \<open>kmap\<close>: virtual start, physical start and end, permissions.\<close>

definition kmap :: "u32 \<Rightarrow> (u32 \<times> u32 \<times> u32 \<times> u32) list" where
  "kmap data =
     [(KERNBASE, 0, EXTMEM, PTE_W), (KERNLINK, v2p KERNLINK, v2p data, 0),
      (data, v2p data, PHYSTOP, PTE_W), (DEVSPACE, DEVSPACE, 0, PTE_W)]"

definition setupkvm :: "('z devs_scheme, u32) km" where
  "setupkvm =
     kbind kalloc (\<lambda>pgdir.
     if pgdir = 0 then ret 0
     else
       kthen (modify (zero_page pgdir)) (
       kthen (panic_if (p2v PHYSTOP > DEVSPACE) ''PHYSTOP too high'') (
       kbind (gets (\<lambda>s. kmap (kdata s))) (\<lambda>km.
       kbind (kfind km (\<lambda>(virt, phys_start, phys_end, perm).
         kbind (mappages pgdir virt (phys_end - phys_start) phys_start perm) (\<lambda>r.
         ret (if r < 0 then Some () else None)))) (\<lambda>failed.
       ret (if failed = None then pgdir else 0)))))) "

definition kvmalloc :: "('z devs_scheme, unit) km" where
  "kvmalloc =
     kbind setupkvm (\<lambda>d.
     kthen (modify (\<lambda>s. s\<lparr>kpgdir := d\<rparr>)) switchkvm)"

section \<open>User memory\<close>

text \<open>A null page from \<open>kalloc\<close> is not checked: \<open>memset\<close> then writes through the null pointer.\<close>

definition inituvm :: "u32 \<Rightarrow> u8 list \<Rightarrow> ('z kmems_scheme, unit) km" where
  "inituvm pgdir init =
     kthen (panic_if (length init \<ge> 4096) ''inituvm: more than a page'') (
     kbind kalloc (\<lambda>mem.
     kthen (fault_if (mem = 0) ''memset of the null page'') (
     kthen (modify (zero_page mem)) (
     kbind (mappages pgdir 0 PGSIZE (v2p mem) (PTE_W OR PTE_U)) (\<lambda>_.
     modify (kpokes mem init))))))"

text \<open>One page after the other, \<open>sz\<close> bytes in all; the file may end early.\<close>

primrec loaduvm_loop :: "nat \<Rightarrow> u32 \<Rightarrow> u32 \<Rightarrow> nat \<Rightarrow> nat \<Rightarrow> nat \<Rightarrow> nat \<Rightarrow> ('z devsws_scheme, int) km" where
  "loaduvm_loop 0 pgdir addr ip offset sz i = kspin"
| "loaduvm_loop (Suc k) pgdir addr ip offset sz i =
     (if i \<ge> sz then ret 0
      else
        kbind (walkpgdir pgdir (addr + of_nat i) False) (\<lambda>r.
        case r of
          None \<Rightarrow> kpanic ''loaduvm: address should exist''
        | Some pte \<Rightarrow>
            kbind (gets (pte_at pte)) (\<lambda>v.
            let pa = PTE_ADDR v; n = (if sz - i < 4096 then sz - i else 4096) in
            kbind (readi ip (uint32 (int offset + int i)) n) (\<lambda>(got, bs).
            kthen (modify (kpokes (p2v pa) bs)) (
            if got \<noteq> int n then ret (- 1)
            else loaduvm_loop k pgdir addr ip offset sz (i + 4096))))))"

definition loaduvm :: "u32 \<Rightarrow> u32 \<Rightarrow> nat \<Rightarrow> nat \<Rightarrow> nat \<Rightarrow> ('z devsws_scheme, int) km" where
  "loaduvm pgdir addr ip offset sz =
     kthen (panic_if (addr mod PGSIZE \<noteq> 0) ''loaduvm: addr must be page aligned'') (
     loaduvm_loop (sz div 4096 + 2) pgdir addr ip offset sz 0)"

text \<open>The loop of \<open>deallocuvm\<close>: a missing page table is skipped as a whole.\<close>

primrec deallocuvm_loop :: "nat \<Rightarrow> u32 \<Rightarrow> u32 \<Rightarrow> u32 \<Rightarrow> ('z kmems_scheme, unit) km" where
  "deallocuvm_loop 0 pgdir a oldsz = kspin"
| "deallocuvm_loop (Suc k) pgdir a oldsz =
     (if \<not> a < oldsz then ret ()
      else
        kbind (walkpgdir pgdir a False) (\<lambda>r.
        case r of
          None \<Rightarrow> deallocuvm_loop k pgdir (a + of_nat (NPTENTRIES - 1) * PGSIZE + PGSIZE) oldsz
        | Some pte \<Rightarrow>
            kbind (gets (pte_at pte)) (\<lambda>v.
            kthen (kwhen (v AND PTE_P \<noteq> 0) (
              kthen (panic_if (PTE_ADDR v = 0) ''kfree'') (
              kthen (kfree (p2v (PTE_ADDR v))) (
              modify (set_pte pte 0))))) (
            deallocuvm_loop k pgdir (a + PGSIZE) oldsz))))"

definition deallocuvm :: "u32 \<Rightarrow> u32 \<Rightarrow> u32 \<Rightarrow> ('z kmems_scheme, u32) km" where
  "deallocuvm pgdir oldsz newsz =
     (if newsz \<ge> oldsz then ret oldsz
      else
        let a = PGROUNDUP newsz in
        kthen (deallocuvm_loop (unat (oldsz - a) div 4096 + 2) pgdir a oldsz) (
        ret newsz))"

primrec allocuvm_loop :: "nat \<Rightarrow> u32 \<Rightarrow> u32 \<Rightarrow> u32 \<Rightarrow> u32 \<Rightarrow> ('z consoles_scheme, u32) km" where
  "allocuvm_loop 0 pgdir a oldsz newsz = kspin"
| "allocuvm_loop (Suc k) pgdir a oldsz newsz =
     (if \<not> a < newsz then ret newsz
      else
        kbind kalloc (\<lambda>mem.
        if mem = 0 then
          kthen (cprintf (Some (''allocuvm out of memory'' @ [CHR 0x0A])) []) (
          kbind (deallocuvm pgdir newsz oldsz) (\<lambda>_. ret 0))
        else
          kthen (modify (zero_page mem)) (
          kbind (mappages pgdir a PGSIZE (v2p mem) (PTE_W OR PTE_U)) (\<lambda>_.
          allocuvm_loop k pgdir (a + PGSIZE) oldsz newsz))))"

definition allocuvm :: "u32 \<Rightarrow> u32 \<Rightarrow> u32 \<Rightarrow> ('z consoles_scheme, u32) km" where
  "allocuvm pgdir oldsz newsz =
     (if newsz \<ge> KERNBASE then ret 0
      else if newsz < oldsz then ret oldsz
      else
        let a = PGROUNDUP oldsz in
        allocuvm_loop (unat (newsz - a) div 4096 + 2) pgdir a oldsz newsz)"

definition freevm :: "u32 \<Rightarrow> ('z kmems_scheme, unit) km" where
  "freevm pgdir =
     kthen (panic_if (pgdir = 0) ''freevm: no pgdir'') (
     kbind (deallocuvm pgdir KERNBASE 0) (\<lambda>_.
     kthen (kfor [0..<NPDENTRIES] (\<lambda>i.
       kbind (gets (pte_at (pgdir, i))) (\<lambda>pde.
       kwhen (pde AND PTE_P \<noteq> 0) (kfree (p2v (PTE_ADDR pde)))))) (
     kfree pgdir)))"

definition clearpteu :: "u32 \<Rightarrow> u32 \<Rightarrow> ('z kmems_scheme, unit) km" where
  "clearpteu pgdir uva =
     kbind (walkpgdir pgdir uva False) (\<lambda>r.
     case r of
       None \<Rightarrow> kpanic ''clearpteu''
     | Some pte \<Rightarrow> modify (\<lambda>s. set_pte pte (pte_at pte s AND NOT PTE_U) s))"

definition copy_page :: "u32 \<Rightarrow> u32 \<Rightarrow> 'z kmems_scheme \<Rightarrow> 'z kmems_scheme" where
  "copy_page dst src s = s\<lparr>pmem := (pmem s)(dst := pmem s src)\<rparr>"

text \<open>The loop of \<open>copyuvm\<close>; \<open>None\<close> is the jump to its label \<open>bad\<close>.\<close>

primrec copyuvm_loop :: "nat \<Rightarrow> u32 \<Rightarrow> u32 \<Rightarrow> u32 \<Rightarrow> u32 \<Rightarrow> ('z kmems_scheme, unit option) km" where
  "copyuvm_loop 0 d pgdir sz i = kspin"
| "copyuvm_loop (Suc k) d pgdir sz i =
     (if \<not> i < sz then ret (Some ())
      else
        kbind (walkpgdir pgdir i False) (\<lambda>r.
        case r of
          None \<Rightarrow> kpanic ''copyuvm: pte should exist''
        | Some pte \<Rightarrow>
            kbind (gets (pte_at pte)) (\<lambda>v.
            kthen (panic_if (v AND PTE_P = 0) ''copyuvm: page not present'') (
            kbind kalloc (\<lambda>mem.
            if mem = 0 then ret None
            else
              kthen (modify (copy_page mem (p2v (PTE_ADDR v)))) (
              kbind (mappages d i PGSIZE (v2p mem) (PTE_FLAGS v)) (\<lambda>r.
              if r < 0 then ret None
              else copyuvm_loop k d pgdir sz (i + PGSIZE))))))))"

definition copyuvm :: "u32 \<Rightarrow> u32 \<Rightarrow> ('z devs_scheme, u32) km" where
  "copyuvm pgdir sz =
     kbind setupkvm (\<lambda>d.
     if d = 0 then ret 0
     else
       kbind (copyuvm_loop (unat sz div 4096 + 2) d pgdir sz 0) (\<lambda>r.
       case r of
         Some _ \<Rightarrow> ret d
       | None \<Rightarrow> kthen (freevm d) (ret 0)))"

text \<open>\<open>uva2ka\<close> reads the entry without checking that there is a page table.\<close>

definition uva2ka :: "u32 \<Rightarrow> u32 \<Rightarrow> ('z kmems_scheme, u32) km" where
  "uva2ka pgdir uva =
     kbind (walkpgdir pgdir uva False) (\<lambda>r.
     case r of
       None \<Rightarrow> kfault ''uva2ka: no page table''
     | Some pte \<Rightarrow>
         kbind (gets (pte_at pte)) (\<lambda>v.
         if v AND PTE_P = 0 then ret 0
         else if v AND PTE_U = 0 then ret 0
         else ret (p2v (PTE_ADDR v))))"

text \<open>Every round of \<open>copyout\<close> copies at least one byte.\<close>

primrec copyout_loop :: "nat \<Rightarrow> u32 \<Rightarrow> u32 \<Rightarrow> u8 list \<Rightarrow> ('z kmems_scheme, int) km" where
  "copyout_loop 0 pgdir va bs = (if bs = [] then ret 0 else kspin)"
| "copyout_loop (Suc k) pgdir va bs =
     (if bs = [] then ret 0
      else
        let va0 = PGROUNDDOWN va in
        kbind (uva2ka pgdir va0) (\<lambda>pa0.
        if pa0 = 0 then ret (- 1)
        else
          let n = min (4096 - unat (va - va0)) (length bs) in
          kthen (modify (kpokes (pa0 + (va - va0)) (take n bs))) (
          copyout_loop k pgdir (va0 + PGSIZE) (drop n bs))))"

definition copyout :: "u32 \<Rightarrow> u32 \<Rightarrow> u8 list \<Rightarrow> ('z kmems_scheme, int) km" where
  "copyout pgdir va bs = copyout_loop (length bs) pgdir va bs"

end
