(* ===== verification/File.thy ===== *)
theory File
  imports Vm Ring
begin

text \<open>
  Open files and pipes: \<open>src/file.c\<close> and \<open>src/pipe.c\<close>. A pipe is named by the address of the page
  that holds it, a file by its index in the table.
\<close>

section \<open>State\<close>

definition NFILE :: nat where "NFILE = 100"
definition PIPESIZE :: nat where "PIPESIZE = 512"

datatype ftype = FD_NONE | FD_PIPE | FD_INODE

record kfile =
  f_type :: ftype
  f_ref :: int
  f_readable :: bool
  f_writable :: bool
  f_pipe :: u32
  f_ip :: nat
  f_off :: nat

record pipe =
  pi_data :: "u8 list"
  pi_nread :: u32
  pi_nwrite :: u32
  pi_readopen :: bool
  pi_writeopen :: bool

record files = devsws +
  ftable :: "kfile list"
  pipes :: "u32 \<Rightarrow> pipe"

lemma crit_files [crit_simps]:
  "ftable (crit ls s) = ftable s" "pipes (crit ls s) = pipes s"
  "ftable_update f (crit ls s) = crit ls (ftable_update f s)"
  "pipes_update g (crit ls s) = crit ls (pipes_update g s)"
  by (simp_all add: crit_def mycpu_def)

lemma quiet_files [simp]:
  "quiet (ftable_update f s) = quiet s" "quiet (pipes_update g s) = quiet s"
  by (simp_all add: quiet_def mycpu_def)

definition upd_file :: "nat \<Rightarrow> (kfile \<Rightarrow> kfile) \<Rightarrow> 'z files_scheme \<Rightarrow> 'z files_scheme" where
  "upd_file f g s = s\<lparr>ftable := (ftable s)[f := g (ftable s ! f)]\<rparr>"

definition upd_pipe :: "u32 \<Rightarrow> (pipe \<Rightarrow> pipe) \<Rightarrow> 'z files_scheme \<Rightarrow> 'z files_scheme" where
  "upd_pipe p g s = s\<lparr>pipes := (pipes s)(p := g (pipes s p))\<rparr>"

definition plock :: "u32 \<Rightarrow> lockid" where "plock p = PipeLock (unat p)"
definition pread_chan :: "u32 \<Rightarrow> chan" where "pread_chan p = ChanPipeRead (unat p)"
definition pwrite_chan :: "u32 \<Rightarrow> chan" where "pwrite_chan p = ChanPipeWrite (unat p)"

section \<open>Pipes\<close>

definition pipeclose :: "u32 \<Rightarrow> bool \<Rightarrow> ('z files_scheme, unit) km" where
  "pipeclose p writable =
     kthen (acquire (plock p)) (
     kthen (if writable
            then kthen (modify (upd_pipe p (\<lambda>q. q\<lparr>pi_writeopen := False\<rparr>))) (wakeup (pread_chan p))
            else kthen (modify (upd_pipe p (\<lambda>q. q\<lparr>pi_readopen := False\<rparr>))) (wakeup (pwrite_chan p))) (
     kbind (gets (\<lambda>s. pipes s p)) (\<lambda>q.
     if \<not> pi_readopen q \<and> \<not> pi_writeopen q
     then kthen (release (plock p)) (kfree p)
     else release (plock p))))"

definition pipe_full :: "pipe \<Rightarrow> bool" where
  "pipe_full q \<longleftrightarrow> pi_nwrite q = pi_nread q + of_nat PIPESIZE"

definition pipe_put :: "u8 \<Rightarrow> pipe \<Rightarrow> pipe" where
  "pipe_put x q = q\<lparr>pi_data := (pi_data q)[unat (pi_nwrite q) mod PIPESIZE := x], pi_nwrite := pi_nwrite q + 1\<rparr>"

definition pipe_get :: "pipe \<Rightarrow> u8" where
  "pipe_get q = pi_data q ! (unat (pi_nread q) mod PIPESIZE)"

definition cur_killed :: "('z procs_scheme, bool) km" where
  "cur_killed = kbind myproc (\<lambda>me. gets (\<lambda>s. p_killed (ptable s ! me)))"

text \<open>The loop of \<open>pipewrite\<close> with the bytes still to be written; \<open>n\<close> is the length of the request.\<close>

primrec pipewrite_loop :: "u32 \<Rightarrow> int \<Rightarrow> u8 list \<Rightarrow> ('z files_scheme, int) km" where
  "pipewrite_loop p n [] =
     kthen (wakeup (pread_chan p)) (kthen (release (plock p)) (ret n))"
| "pipewrite_loop p n (x # xs) =
     kbind (gets (\<lambda>s. pipes s p)) (\<lambda>q.
     if pipe_full q then
       kbind (if \<not> pi_readopen q then ret True else cur_killed) (\<lambda>stop.
       if stop then kthen (release (plock p)) (ret (- 1))
       else kthen (wakeup (pread_chan p)) (sleep (Some (pwrite_chan p)) (Some (plock p))))
     else
       kthen (modify (upd_pipe p (pipe_put x))) (pipewrite_loop p n xs))"

definition pipewrite :: "u32 \<Rightarrow> u8 list \<Rightarrow> int \<Rightarrow> ('z files_scheme, int) km" where
  "pipewrite p src n =
     kthen (acquire (plock p)) (pipewrite_loop p n (take (nat n) src))"

definition pipewrite_resume :: "bool \<Rightarrow> u32 \<Rightarrow> int \<Rightarrow> u8 list \<Rightarrow> ('z files_scheme, int) km" where
  "pipewrite_resume saved p n xs =
     kthen (sleep_resume saved (plock p)) (pipewrite_loop p n xs)"

primrec piperead_copy :: "u32 \<Rightarrow> nat \<Rightarrow> ('z files_scheme, u8 list) km" where
  "piperead_copy p 0 = ret []"
| "piperead_copy p (Suc n) =
     kbind (gets (\<lambda>s. pipes s p)) (\<lambda>q.
     if pi_nread q = pi_nwrite q then ret []
     else
       kthen (modify (upd_pipe p (\<lambda>q. q\<lparr>pi_nread := pi_nread q + 1\<rparr>))) (
       kbind (piperead_copy p n) (\<lambda>rest.
       ret (pipe_get q # rest))))"

definition piperead_loop :: "u32 \<Rightarrow> int \<Rightarrow> ('z files_scheme, int \<times> u8 list) km" where
  "piperead_loop p n =
     kbind (gets (\<lambda>s. pipes s p)) (\<lambda>q.
     if pi_nread q = pi_nwrite q \<and> pi_writeopen q then
       kbind cur_killed (\<lambda>k.
       if k then kthen (release (plock p)) (ret (- 1, []))
       else sleep (Some (pread_chan p)) (Some (plock p)))
     else
       kbind (piperead_copy p (nat n)) (\<lambda>bs.
       kthen (wakeup (pwrite_chan p)) (
       kthen (release (plock p)) (
       ret (int (length bs), bs)))))"

definition piperead :: "u32 \<Rightarrow> int \<Rightarrow> ('z files_scheme, int \<times> u8 list) km" where
  "piperead p n = kthen (acquire (plock p)) (piperead_loop p n)"

definition piperead_resume :: "bool \<Rightarrow> u32 \<Rightarrow> int \<Rightarrow> ('z files_scheme, int \<times> u8 list) km" where
  "piperead_resume saved p n = kthen (sleep_resume saved (plock p)) (piperead_loop p n)"

section \<open>Files\<close>

definition fileinit :: "('z files_scheme, unit) km" where
  "fileinit = initlock FtableLock"

definition filealloc :: "('z files_scheme, nat option) km" where
  "filealloc =
     kthen (acquire FtableLock) (
     kbind (gets (\<lambda>s. first_index (\<lambda>f. f_ref f = 0) (ftable s))) (\<lambda>r.
     case r of
       Some f \<Rightarrow>
         kthen (modify (upd_file f (\<lambda>x. x\<lparr>f_ref := 1\<rparr>))) (
         kthen (release FtableLock) (ret (Some f)))
     | None \<Rightarrow> kthen (release FtableLock) (ret None)))"

definition filedup :: "nat \<Rightarrow> ('z files_scheme, nat) km" where
  "filedup f =
     kthen (acquire FtableLock) (
     kbind (gets (\<lambda>s. f_ref (ftable s ! f))) (\<lambda>r.
     kthen (panic_if (r < 1) ''filedup'') (
     kthen (modify (upd_file f (\<lambda>x. x\<lparr>f_ref := f_ref x + 1\<rparr>))) (
     kthen (release FtableLock) (
     ret f)))))"

definition fileclose :: "nat \<Rightarrow> ('z files_scheme, unit) km" where
  "fileclose f =
     kthen (acquire FtableLock) (
     kbind (gets (\<lambda>s. ftable s ! f)) (\<lambda>x.
     kthen (panic_if (f_ref x < 1) ''fileclose'') (
     kthen (modify (upd_file f (\<lambda>x. x\<lparr>f_ref := f_ref x - 1\<rparr>))) (
     if f_ref x - 1 > 0 then release FtableLock
     else
       kbind (gets (\<lambda>s. ftable s ! f)) (\<lambda>ff.
       kthen (modify (upd_file f (\<lambda>x. x\<lparr>f_ref := 0, f_type := FD_NONE\<rparr>))) (
       kthen (release FtableLock) (
       case f_type ff of
         FD_PIPE \<Rightarrow> pipeclose (f_pipe ff) (f_writable ff)
       | FD_INODE \<Rightarrow> kthen begin_op (kthen (iput (f_ip ff)) end_op)
       | FD_NONE \<Rightarrow> ret ())))))))"

definition filestat :: "nat \<Rightarrow> ('z files_scheme, int \<times> stat option) km" where
  "filestat f =
     kbind (gets (\<lambda>s. ftable s ! f)) (\<lambda>x.
     if f_type x = FD_INODE then
       kthen (ilock (Some (f_ip x))) (
       kbind (stati (f_ip x)) (\<lambda>st.
       kthen (iunlock (Some (f_ip x))) (
       ret (0, Some st))))
     else ret (- 1, None))"

definition fileread :: "nat \<Rightarrow> int \<Rightarrow> ('z files_scheme, int \<times> u8 list) km" where
  "fileread f n =
     kbind (gets (\<lambda>s. ftable s ! f)) (\<lambda>x.
     if \<not> f_readable x then ret (- 1, [])
     else
       case f_type x of
         FD_PIPE \<Rightarrow> piperead (f_pipe x) n
       | FD_INODE \<Rightarrow>
           kthen (ilock (Some (f_ip x))) (
           kbind (gets (\<lambda>s. f_off (ftable s ! f))) (\<lambda>off.
           kbind (readi (f_ip x) off (uint32 n)) (\<lambda>(r, bs).
           kthen (kwhen (r > 0) (modify (upd_file f (\<lambda>x. x\<lparr>f_off := uint32 (int (f_off x) + r)\<rparr>)))) (
           kthen (iunlock (Some (f_ip x))) (
           ret (r, bs))))))
       | FD_NONE \<Rightarrow> kpanic ''fileread'')"

definition filewrite_max :: nat where
  "filewrite_max = (LOGSIZE - 1 - 1 - 2) div 2 * 512"

text \<open>
  The loop of \<open>filewrite\<close> on the bytes still to be written; it returns \<open>i\<close>. Every round that goes
  on writes at least one byte, so as many rounds as bytes are enough.
\<close>

primrec filewrite_loop :: "nat \<Rightarrow> nat \<Rightarrow> int \<Rightarrow> u8 list \<Rightarrow> ('z files_scheme, int) km" where
  "filewrite_loop 0 f i src = ret i"
| "filewrite_loop (Suc k) f i src =
     (if src = [] then ret i
      else
        let n1 = min (length src) filewrite_max in
        kthen begin_op (
        kbind (gets (\<lambda>s. f_ip (ftable s ! f))) (\<lambda>ip.
        kthen (ilock (Some ip)) (
        kbind (gets (\<lambda>s. f_off (ftable s ! f))) (\<lambda>off.
        kbind (writei ip (take n1 src) off n1) (\<lambda>r.
        kthen (kwhen (r > 0) (modify (upd_file f (\<lambda>x. x\<lparr>f_off := uint32 (int (f_off x) + r)\<rparr>)))) (
        kthen (iunlock (Some ip)) (
        kthen end_op (
        if r < 0 then ret i
        else kthen (panic_if (r \<noteq> int n1) ''short filewrite'') (
          filewrite_loop k f (i + r) (drop n1 src)))))))))))"

definition filewrite :: "nat \<Rightarrow> u8 list \<Rightarrow> int \<Rightarrow> ('z files_scheme, int) km" where
  "filewrite f src n =
     kbind (gets (\<lambda>s. ftable s ! f)) (\<lambda>x.
     if \<not> f_writable x then ret (- 1)
     else
       case f_type x of
         FD_PIPE \<Rightarrow> pipewrite (f_pipe x) src n
       | FD_INODE \<Rightarrow>
           kbind (filewrite_loop (nat n) f 0 (take (nat n) src)) (\<lambda>i.
           ret (if i = n then n else - 1))
       | FD_NONE \<Rightarrow> kpanic ''filewrite'')"

text \<open>\<open>pipealloc\<close>, with the cleanup at its label \<open>bad\<close>.\<close>

definition pipealloc_bad :: "u32 \<Rightarrow> nat option \<Rightarrow> nat option \<Rightarrow> ('z files_scheme, (nat \<times> nat) option) km" where
  "pipealloc_bad p f0 f1 =
     kthen (kwhen (p \<noteq> 0) (kfree p)) (
     kthen (case f0 of None \<Rightarrow> ret () | Some f \<Rightarrow> fileclose f) (
     kthen (case f1 of None \<Rightarrow> ret () | Some f \<Rightarrow> fileclose f) (
     ret None)))"

definition pipealloc :: "('z files_scheme, (nat \<times> nat) option) km" where
  "pipealloc =
     kbind filealloc (\<lambda>r0.
     case r0 of
       None \<Rightarrow> pipealloc_bad 0 None None
     | Some f0 \<Rightarrow>
         kbind filealloc (\<lambda>r1.
         case r1 of
           None \<Rightarrow> pipealloc_bad 0 (Some f0) None
         | Some f1 \<Rightarrow>
             kbind kalloc (\<lambda>p.
             if p = 0 then pipealloc_bad 0 (Some f0) (Some f1)
             else
               kthen (modify (upd_pipe p (\<lambda>q. q\<lparr>pi_readopen := True, pi_writeopen := True,
                 pi_nwrite := 0, pi_nread := 0\<rparr>))) (
               kthen (initlock (plock p)) (
               kthen (modify (upd_file f0 (\<lambda>x. x\<lparr>f_type := FD_PIPE, f_readable := True, f_writable := False,
                 f_pipe := p\<rparr>))) (
               kthen (modify (upd_file f1 (\<lambda>x. x\<lparr>f_type := FD_PIPE, f_readable := False, f_writable := True,
                 f_pipe := p\<rparr>))) (
               ret (Some (f0, f1)))))))))"

section \<open>A concrete machine\<close>

definition zero_file :: kfile where
  "zero_file = \<lparr>f_type = FD_NONE, f_ref = 0, f_readable = False, f_writable = False, f_pipe = 0, f_ip = 0, f_off = 0\<rparr>"

definition zero_pipe :: pipe where
  "zero_pipe = \<lparr>pi_data = replicate PIPESIZE 0, pi_nread = 0, pi_nwrite = 0, pi_readopen = True, pi_writeopen = True\<rparr>"

definition small_files :: files where
  "small_files = devsws.extend small_devsws \<lparr>ftable = replicate NFILE zero_file, pipes = (\<lambda>_. zero_pipe)\<rparr>"

lemma small_files_boot:
  "quiet small_files" "curproc small_files = Some 1" "length (ptable small_files) = 2" "disksize small_files = 1000"
  "klog small_files = small_log" "ptable small_files = ptable small_devsws" "cpu_id small_files = 0"
  "ftable small_files = replicate NFILE zero_file" "pipes small_files = (\<lambda>_. zero_pipe)"
  "sb small_files = small_sb" "icache small_files = replicate NINODE zero_inode"
  using small_devsws_boot
  by (simp_all add: small_files_def devsws.defs quiet_def mycpu_def curproc_def)

section \<open>A pipe is a bounded queue\<close>

text \<open>The bytes in flight, oldest first.\<close>

definition pipe_len :: "pipe \<Rightarrow> nat" where
  "pipe_len q = ring_len (pi_nread q) (pi_nwrite q)"

definition pipe_q :: "pipe \<Rightarrow> u8 list" where
  "pipe_q q = ring_q PIPESIZE (pi_data q) (pi_nread q) (pi_nwrite q)"

definition pipe_inv :: "pipe \<Rightarrow> bool" where
  "pipe_inv q \<longleftrightarrow> length (pi_data q) = PIPESIZE \<and> pipe_len q \<le> PIPESIZE"

lemma PIPESIZE_dvd: "PIPESIZE dvd 2 ^ 32" "PIPESIZE < 2 ^ 32"
  by (simp_all add: PIPESIZE_def)

lemma length_pipe_q [simp]: "length (pipe_q q) = pipe_len q"
  by (simp add: pipe_q_def pipe_len_def)

lemma pipe_empty: "pipe_q q = [] \<longleftrightarrow> pi_nread q = pi_nwrite q"
  by (auto simp: pipe_q_def)

lemma pipe_full_len: "pipe_full q \<longleftrightarrow> pipe_len q = PIPESIZE"
  using ring_len_eq [OF PIPESIZE_dvd(2)] by (simp add: pipe_full_def pipe_len_def)

lemma pipe_put_spec:
  assumes i: "pipe_inv q" and f: "\<not> pipe_full q"
  shows "pipe_inv (pipe_put x q)" "pipe_q (pipe_put x q) = pipe_q q @ [x]"
    "pipe_len (pipe_put x q) = Suc (pipe_len q)"
proof -
  have l: "pipe_len q < PIPESIZE" using i f by (simp add: pipe_full_len pipe_inv_def)
  show n: "pipe_len (pipe_put x q) = Suc (pipe_len q)"
    using ring_len_Suc [of "pi_nread q" "pi_nwrite q"] l by (simp add: pipe_len_def pipe_put_def PIPESIZE_def)
  show "pipe_inv (pipe_put x q)" using i l n by (simp add: pipe_inv_def pipe_put_def)
  show "pipe_q (pipe_put x q) = pipe_q q @ [x]"
    using ring_put [OF PIPESIZE_dvd(1) _ _ PIPESIZE_dvd(2), of "pi_data q" "pi_nread q" "pi_nwrite q" x] i l
    by (simp add: pipe_q_def pipe_put_def pipe_inv_def pipe_len_def)
qed

lemmas pipe_put_len = pipe_put_spec(3)

lemma pipe_get_spec:
  assumes i: "pipe_inv q" and e: "pi_nread q \<noteq> pi_nwrite q"
  shows "pipe_inv (q\<lparr>pi_nread := pi_nread q + 1\<rparr>)"
    "pipe_q q = pipe_get q # pipe_q (q\<lparr>pi_nread := pi_nread q + 1\<rparr>)"
  using i ring_get [OF PIPESIZE_dvd(1), of "pi_nwrite q" "pi_nread q" "pi_data q"]
    ring_len_pred [of "pi_nwrite q" "pi_nread q"] e
  by (auto simp: pipe_inv_def pipe_len_def pipe_q_def pipe_get_def)

section \<open>Running the pipe operations\<close>

definition pipe_puts :: "u8 list \<Rightarrow> pipe \<Rightarrow> pipe" where
  "pipe_puts xs q = fold pipe_put xs q"

lemma pipe_puts_simps [simp]:
  "pipe_puts [] q = q" "pipe_puts (x # xs) q = pipe_puts xs (pipe_put x q)"
  by (simp_all add: pipe_puts_def)

lemma pipe_puts_spec:
  "pipe_inv q \<Longrightarrow> pipe_len q + length xs \<le> PIPESIZE \<Longrightarrow>
     pipe_inv (pipe_puts xs q) \<and> pipe_q (pipe_puts xs q) = pipe_q q @ xs"
proof (induction xs arbitrary: q)
  case (Cons x xs)
  have f: "\<not> pipe_full q" using Cons.prems by (simp add: pipe_full_len)
  show ?case
    using Cons.IH [of "pipe_put x q"] Cons.prems pipe_put_spec [OF Cons.prems(1) f] pipe_put_len [OF Cons.prems(1) f]
    by simp
qed simp

lemma pipe_puts_fields [simp]:
  "pi_readopen (pipe_puts xs q) = pi_readopen q" "pi_writeopen (pipe_puts xs q) = pi_writeopen q"
  by (induction xs arbitrary: q) (simp_all add: pipe_put_def)

lemma crit_upd_pipe [crit_simps]: "upd_pipe p f (crit ls s) = crit ls (upd_pipe p f s)"
  by (simp add: upd_pipe_def crit_simps)

lemma upd_pipe_simps [simp]:
  "quiet (upd_pipe p f s) = quiet s" "pipes (upd_pipe p f s) = (pipes s)(p := f (pipes s p))"
  "ptable (upd_pipe p f s) = ptable s" "curproc (upd_pipe p f s) = curproc s"
  "upd_pipe p g (upd_pipe p f s) = upd_pipe p (\<lambda>q. g (f q)) s" "upd_pipe p (\<lambda>q. q) s = s"
  by (simp_all add: upd_pipe_def curproc_def mycpu_def)

lemma pipes_woken [simp]: "pipes (woken ch s) = pipes s" "curproc (woken ch s) = curproc s"
  "length (ptable (woken ch s)) = length (ptable s)"
  by (simp_all add: woken_def)

lemma plock_ptable [simp]: "plock p \<noteq> PtableLock" "PtableLock \<noteq> plock p"
  by (simp_all add: plock_def)

text \<open>
  The whole behaviour of \<open>pipewrite\<close> on a pipe that has room for \<open>k\<close> bytes: it writes them all if
  they fit; else it fills the pipe, and fails if nobody can read it or the process is killed, and
  sleeps otherwise.
\<close>

lemma pipewrite_loop_fits:
  assumes "quiet s" "pipe_inv (pipes s p)" "pipe_len (pipes s p) + length xs \<le> PIPESIZE"
  shows "pipewrite_loop p n xs (crit [plock p] s) =
    Done n (woken (pread_chan p) (upd_pipe p (pipe_puts xs) s))"
  using assms
proof (induction xs arbitrary: s)
  case Nil
  show ?case using Nil by (simp add: run_simps wakeup_run release_quiet)
next
  case (Cons x xs)
  have f: "\<not> pipe_full (pipes s p)" using Cons.prems by (simp add: pipe_full_len)
  let ?s = "upd_pipe p (pipe_put x) s"
  have "pipewrite_loop p n xs (crit [plock p] ?s) = Done n (woken (pread_chan p) (upd_pipe p (pipe_puts xs) ?s))"
    by (rule Cons.IH) (use Cons.prems f pipe_put_spec pipe_put_len in auto)
  then show ?case using f by (simp add: run_simps crit_simps)
qed

lemma pipewrite_loop_full:
  assumes "quiet s" "pipe_inv (pipes s p)" "pipe_len (pipes s p) + length xs > PIPESIZE"
    "curproc s = Some me" "me < length (ptable s)"
  shows "pipewrite_loop p n xs (crit [plock p] s) =
    (let t = upd_pipe p (pipe_puts (take (PIPESIZE - pipe_len (pipes s p)) xs)) s in
     if \<not> pi_readopen (pipes s p) \<or> p_killed (ptable s ! me) then Done (- 1) t
     else Switch (crit [PtableLock] (asleep me (pwrite_chan p) (woken (pread_chan p) t))))"
  using assms
proof (induction xs arbitrary: s)
  case Nil
  then show ?case by (simp add: pipe_inv_def)
next
  case (Cons x xs)
  show ?case
  proof (cases "pipe_full (pipes s p)")
    case True
    then have l: "pipe_len (pipes s p) = PIPESIZE" using Cons.prems by (simp add: pipe_full_len)
    have sl: "sleep (Some (pwrite_chan p)) (Some (plock p)) (crit [plock p] (woken (pread_chan p) s)) =
      Switch (crit [PtableLock] (asleep me (pwrite_chan p) (woken (pread_chan p) s)))"
      by (rule sleep_run) (use Cons.prems in simp_all)
    show ?thesis
      using True Cons.prems l
      by (simp add: run_simps crit_simps cur_killed_def release_quiet wakeup_run sl Let_def)
  next
    case False
    let ?s = "upd_pipe p (pipe_put x) s"
    have l: "pipe_len (pipes s p) < PIPESIZE" using Cons.prems False by (simp add: pipe_full_len pipe_inv_def)
    have pl: "pipe_len (pipe_put x (pipes s p)) = Suc (pipe_len (pipes s p))"
      by (rule pipe_put_len) (use Cons.prems False in auto)
    have ih: "pipewrite_loop p n xs (crit [plock p] ?s) =
      (let t = upd_pipe p (pipe_puts (take (PIPESIZE - pipe_len (pipes ?s p)) xs)) ?s in
       if \<not> pi_readopen (pipes ?s p) \<or> p_killed (ptable ?s ! me) then Done (- 1) t
       else Switch (crit [PtableLock] (asleep me (pwrite_chan p) (woken (pread_chan p) t))))"
      by (rule Cons.IH) (use Cons.prems False pipe_put_spec pl in auto)
    have ro: "pi_readopen (pipe_put x (pipes s p)) = pi_readopen (pipes s p)" by (simp add: pipe_put_def)
    have tk: "take (PIPESIZE - pipe_len (pipes s p)) (x # xs) = x # take (PIPESIZE - Suc (pipe_len (pipes s p))) xs"
      using l by (simp add: take_Cons')
    show ?thesis using False ih by (simp add: run_simps crit_simps pl ro tk Let_def)
  qed
qed

lemma piperead_copy_run:
  assumes "quiet s" "pipe_inv (pipes s p)"
  shows "\<exists>f. piperead_copy p n (crit ls s) = Done (take n (pipe_q (pipes s p))) (crit ls (upd_pipe p f s)) \<and>
    pipe_inv (f (pipes s p)) \<and> pipe_q (f (pipes s p)) = drop n (pipe_q (pipes s p)) \<and>
    pi_readopen (f (pipes s p)) = pi_readopen (pipes s p) \<and> pi_writeopen (f (pipes s p)) = pi_writeopen (pipes s p)"
  using assms
proof (induction n arbitrary: s)
  case 0
  show ?case by (rule exI [of _ "\<lambda>q. q"]) (use 0 in \<open>simp add: run_simps\<close>)
next
  case (Suc n)
  show ?case
  proof (cases "pi_nread (pipes s p) = pi_nwrite (pipes s p)")
    case True
      have e: "pipe_q (pipes s p) = []" using True by (simp add: pipe_empty)
    show ?thesis by (rule exI [of _ "\<lambda>q. q"]) (use True Suc.prems e in \<open>simp add: run_simps crit_simps\<close>)
  next
    case False
    let ?g = "\<lambda>q. q\<lparr>pi_nread := pi_nread q + 1\<rparr>"
    let ?s = "upd_pipe p ?g s"
    note g = pipe_get_spec [OF Suc.prems(2) False]
    obtain f where f: "piperead_copy p n (crit ls ?s) = Done (take n (pipe_q (pipes ?s p))) (crit ls (upd_pipe p f ?s))"
      "pipe_inv (f (pipes ?s p))" "pipe_q (f (pipes ?s p)) = drop n (pipe_q (pipes ?s p))"
      "pi_readopen (f (pipes ?s p)) = pi_readopen (pipes ?s p)" "pi_writeopen (f (pipes ?s p)) = pi_writeopen (pipes ?s p)"
      using Suc.IH [of ?s] Suc.prems g(1) by auto
    show ?thesis
      by (rule exI [of _ "\<lambda>q. f (?g q)"]) (use f g False in \<open>simp add: run_simps crit_simps\<close>)
  qed
qed

text \<open>
  What happens to a pipe over time. A writer's call, or the rest of it when it is woken up, returns
  or goes to sleep; a reader's call returns; anything else the machine does leaves the pipe alone.
  \<open>ins\<close> collects the bytes the pipe has taken, \<open>outs\<close> the bytes it has given.
\<close>

definition running :: "'z procs_scheme \<Rightarrow> bool" where
  "running s \<longleftrightarrow> quiet s \<and> (\<exists>me. curproc s = Some me \<and> me < length (ptable s))"

definition accepted :: "u32 \<Rightarrow> 'z files_scheme \<Rightarrow> u8 list \<Rightarrow> u8 list" where
  "accepted p s xs = take (PIPESIZE - pipe_len (pipes s p)) xs"

inductive piped :: "u32 \<Rightarrow> 'z files_scheme \<Rightarrow> u8 list \<Rightarrow> u8 list \<Rightarrow> 'z files_scheme \<Rightarrow> bool" for p s where
  start: "piped p s [] [] s"
| wrote: "piped p s ins outs t \<Longrightarrow> pipewrite p xs (int (length xs)) t = Done r u \<Longrightarrow>
    piped p s (ins @ accepted p t xs) outs u"
| blocked: "piped p s ins outs t \<Longrightarrow> pipewrite p xs (int (length xs)) t = Switch (crit [PtableLock] u) \<Longrightarrow> quiet u \<Longrightarrow>
    piped p s (ins @ accepted p t xs) outs u"
| resumed: "piped p s ins outs t \<Longrightarrow> pipewrite_loop p n xs (crit [plock p] t) = Done r u \<Longrightarrow>
    piped p s (ins @ accepted p t xs) outs u"
| got: "piped p s ins outs t \<Longrightarrow> piperead p n t = Done (r, bs) u \<Longrightarrow> piped p s ins (outs @ bs) u"
| other: "piped p s ins outs t \<Longrightarrow> running u \<Longrightarrow> pipes u p = pipes t p \<Longrightarrow> piped p s ins outs u"

lemma pipewrite_enter:
  "quiet s \<Longrightarrow> pipewrite p src n s = pipewrite_loop p n (take (nat n) src) (crit [plock p] s)"
  by (simp add: pipewrite_def run_simps acquire_quiet)

lemma piperead_enter: "quiet s \<Longrightarrow> piperead p n s = piperead_loop p n (crit [plock p] s)"
  by (simp add: piperead_def run_simps acquire_quiet)

lemma running_simps [simp]:
  "running (woken ch s) = running s" "running (upd_pipe p f t) = running t" "running (asleep i ch s) = running s"
  by (simp_all add: running_def woken_def asleep_def curproc_def upd_pipe_def mycpu_def)

lemma pipes_asleep [simp]: "pipes (asleep i ch s) = pipes s"
  by (simp add: asleep_def)

lemma crit_inj: "crit [l] s = crit [l] t \<Longrightarrow> quiet s \<Longrightarrow> quiet t \<Longrightarrow> s = t"
  by (metis outcome.inject(1) release_quiet)

text \<open>Every way a write can end keeps the pipe well formed and appends what was accepted.\<close>

lemma pipewrite_loop_step:
  assumes s: "running s" "pipe_inv (pipes s p)"
    and e: "pipewrite_loop p n xs (crit [plock p] s) = Done r u \<or>
      pipewrite_loop p n xs (crit [plock p] s) = Switch (crit [PtableLock] u) \<and> quiet u"
  shows "running u \<and> pipe_inv (pipes u p) \<and> pipe_q (pipes u p) = pipe_q (pipes s p) @ accepted p s xs"
proof -
  obtain me where me: "curproc s = Some me" "me < length (ptable s)" and q: "quiet s"
    using s(1) by (auto simp: running_def)
  let ?ys = "take (PIPESIZE - pipe_len (pipes s p)) xs"
  have sp: "pipe_inv (pipe_puts ?ys (pipes s p)) \<and> pipe_q (pipe_puts ?ys (pipes s p)) = pipe_q (pipes s p) @ ?ys"
    by (rule pipe_puts_spec) (use s(2) in \<open>auto simp: pipe_inv_def\<close>)
  show ?thesis
  proof (cases "pipe_len (pipes s p) + length xs \<le> PIPESIZE")
    case True
    then have "?ys = xs" by simp
    then show ?thesis
      using e pipewrite_loop_fits [OF q s(2) True, of n] sp s(1) by (auto simp: accepted_def)
  next
    case False
    then have f: "pipe_len (pipes s p) + length xs > PIPESIZE" by simp
    show ?thesis
      using e pipewrite_loop_full [OF q s(2) f me, of n] sp s(1) q
      by (auto simp: accepted_def Let_def split: if_splits dest!: crit_inj)
  qed
qed

lemma piperead_step:
  assumes s: "running s" "pipe_inv (pipes s p)" and e: "piperead p n s = Done (r, bs) u"
  shows "running u \<and> pipe_inv (pipes u p) \<and> pipe_q (pipes s p) = bs @ pipe_q (pipes u p)"
proof -
  obtain me where me: "curproc s = Some me" "me < length (ptable s)" and q: "quiet s"
    using s(1) by (auto simp: running_def)
  obtain f where f: "piperead_copy p (nat n) (crit [plock p] s) = Done (take (nat n) (pipe_q (pipes s p))) (crit [plock p] (upd_pipe p f s))"
    "pipe_inv (f (pipes s p))" "pipe_q (f (pipes s p)) = drop (nat n) (pipe_q (pipes s p))"
    using piperead_copy_run [OF q s(2), of "nat n" "[plock p]"] by blast
  have sl: "sleep (Some (pread_chan p)) (Some (plock p)) (crit [plock p] s) =
      Switch (crit [PtableLock] (asleep me (pread_chan p) s))"
    by (rule sleep_run [OF q me])
  show ?thesis
    using e s me q f
    by (auto simp: piperead_enter piperead_loop_def run_simps crit_simps cur_killed_def sl wakeup_run release_quiet
        split: if_splits)
qed

lemma piped_inv:
  assumes "piped p s ins outs t" "running s" "pipe_inv (pipes s p)"
  shows "running t \<and> pipe_inv (pipes t p) \<and> pipe_q (pipes s p) @ ins = outs @ pipe_q (pipes t p)"
  using assms
proof (induction rule: piped.induct)
  case (wrote ins outs t xs r u)
  then have "quiet t" by (auto simp: running_def)
  then show ?case using wrote pipewrite_loop_step [of t p "int (length xs)" xs r u] by (simp add: pipewrite_enter)
next
  case (blocked ins outs t xs u)
  then have "quiet t" by (auto simp: running_def)
  then show ?case using blocked pipewrite_loop_step [of t p "int (length xs)" xs _ u] by (simp add: pipewrite_enter)
next
  case (resumed ins outs t n xs r u)
  then show ?case using pipewrite_loop_step [of t p n xs r u] by simp
next
  case (got ins outs t n r bs u)
  then show ?case using piperead_step [of t p n r bs u] by simp
qed simp_all

text \<open>
  C7 (safety): a pipe delivers its bytes in the order they were written, without losing or repeating
  one, across any interleaving of reads, writes, writers that sleep and are woken up, and other
  activity; and it never holds more than 512 bytes. Starting from an empty pipe, the bytes taken in
  are the bytes given out followed by those still inside.
\<close>

theorem pipe_fifo:
  assumes "piped p s ins outs t" "running s" "pipe_inv (pipes s p)" "pipe_q (pipes s p) = []"
  shows "ins = outs @ pipe_q (pipes t p) \<and> length (pipe_q (pipes t p)) \<le> PIPESIZE"
  using piped_inv [OF assms(1-3)] assms(4) by (auto simp: pipe_inv_def)

lemma small_pipe:
  "running small_files" "pipe_inv zero_pipe" "pipe_q zero_pipe = []" "pipe_len zero_pipe = 0"
  using small_files_boot by (simp_all add: running_def pipe_inv_def zero_pipe_def pipe_q_def pipe_len_def)

theorem pipe_fifo_witness:
  "\<exists>u v. pipewrite 0x80200000 [104, 105] 2 small_files = Done 2 u \<and> piperead 0x80200000 1 u = Done (1, [104]) v \<and>
     [104, 105] = [104] @ pipe_q (pipes v 0x80200000)"
proof -
  let ?p = "0x80200000 :: u32" and ?s = small_files
  have q: "quiet ?s" and p: "pipes ?s ?p = zero_pipe" using small_files_boot by simp_all
  obtain u where u: "pipewrite ?p [104, 105] 2 ?s = Done 2 u"
    and qu: "quiet u" and iu: "pipe_inv (pipes u ?p)" and pu: "pipe_q (pipes u ?p) = [104, 105]"
    using pipewrite_loop_fits [OF q, of ?p "[104, 105]" 2] pipe_puts_spec [of zero_pipe "[104, 105]"] small_pipe p
    by (simp add: pipewrite_enter q PIPESIZE_def)
  have ne: "pi_nread (pipes u ?p) \<noteq> pi_nwrite (pipes u ?p)" using pu pipe_empty [of "pipes u ?p"] by simp
  obtain f where f: "piperead_copy ?p 1 (crit [plock ?p] u) = Done [104] (crit [plock ?p] (upd_pipe ?p f u))"
    using piperead_copy_run [OF qu iu, of 1 "[plock ?p]"] pu by auto
  obtain v where v: "piperead ?p 1 u = Done (1, [104]) v"
    using f qu ne by (auto simp: piperead_enter piperead_loop_def run_simps crit_simps wakeup_run release_quiet)
  have "piped ?p ?s ([] @ accepted ?p ?s [104, 105]) [] u"
    by (rule piped.wrote [OF piped.start, where r = 2]) (use u in simp)
  from piped.got [OF this v] have "piped ?p ?s [104, 105] [104] v"
    using small_pipe p by (simp add: accepted_def PIPESIZE_def)
  from pipe_fifo [OF this] show ?thesis using u v small_pipe p by auto
qed

end
