(* ===== verification/Process.thy ===== *)
theory Process
  imports File
begin

text \<open>
  The process half of \<open>src/proc.c\<close>: \<open>allocproc\<close>, \<open>userinit\<close>, \<open>growproc\<close>, \<open>fork\<close>, \<open>exit\<close>, \<open>wait\<close>,
  \<open>waitx\<close>, \<open>forkret\<close>; and the memory of the running process as the kernel reads and
  writes it through user pointers, translated by the page table the processor has loaded.
\<close>

unbundle bit_operations_syntax

section \<open>State\<close>

text \<open>
  The last piece of the kernel's state: the static variable \<open>first\<close> of \<open>forkret\<close>, the addresses of
  the two assembly entry points a new process starts at, and the interrupt gates.
\<close>

record gatedesc =
  gate_off :: u32
  gate_cs :: u16
  gate_trap :: bool
  gate_dpl :: u8

record kernel = files +
  forkret_first :: bool
  sym_forkret :: u32
  sym_trapret :: u32
  idt :: "nat \<Rightarrow> gatedesc"

lemma crit_kernel [crit_simps]:
  "forkret_first (crit ls s) = forkret_first s" "sym_forkret (crit ls s) = sym_forkret s"
  "sym_trapret (crit ls s) = sym_trapret s" "idt (crit ls s) = idt s"
  by (simp_all add: crit_def mycpu_def)

section \<open>User memory\<close>

text \<open>
  The processor's translation of a virtual address in supervisor mode: both entries present, and
  for a store both writable (write protection is on in supervisor mode).
\<close>

definition mmu :: "bool \<Rightarrow> u32 \<Rightarrow> 'z kmems_scheme \<Rightarrow> u32 option" where
  "mmu store va s =
     (let pde = pte_at (p2v (cr3 (mycpu s)), PDX va) s;
          pte = pte_at (p2v (PTE_ADDR pde), PTX va) s;
          need = (if store then PTE_P OR PTE_W else PTE_P) in
      if pde AND need = need \<and> pte AND need = need
      then Some (p2v (PTE_ADDR pte) + (va AND 0xFFF)) else None)"

definition uload :: "u32 \<Rightarrow> ('z kmems_scheme, u8) km" where
  "uload va =
     kbind (gets (mmu False va)) (\<lambda>r.
     case r of None \<Rightarrow> kfault ''page fault in the kernel'' | Some a \<Rightarrow> gets (kpeek a))"

primrec uloads :: "u32 \<Rightarrow> nat \<Rightarrow> ('z kmems_scheme, u8 list) km" where
  "uloads va 0 = ret []"
| "uloads va (Suc n) = kbind (uload va) (\<lambda>b. kbind (uloads (va + 1) n) (\<lambda>bs. ret (b # bs)))"

definition ustore :: "u32 \<Rightarrow> u8 \<Rightarrow> ('z kmems_scheme, unit) km" where
  "ustore va b =
     kbind (gets (mmu True va)) (\<lambda>r.
     case r of None \<Rightarrow> kfault ''page fault in the kernel'' | Some a \<Rightarrow> modify (kpoke a b))"

primrec ustores :: "u32 \<Rightarrow> u8 list \<Rightarrow> ('z kmems_scheme, unit) km" where
  "ustores va [] = ret ()"
| "ustores va (b # bs) = kthen (ustore va b) (ustores (va + 1) bs)"

definition ustore_int :: "u32 \<Rightarrow> int \<Rightarrow> ('z kmems_scheme, unit) km" where
  "ustore_int va x = ustores va (le_bytes 4 (uint32 x))"

section \<open>Creating processes\<close>

definition pinit :: "('z procs_scheme, unit) km" where
  "pinit = initlock PtableLock"

text \<open>\<open>safestrcpy\<close> into a field of \<open>n\<close> bytes.\<close>

definition safestrcpy_str :: "string \<Rightarrow> nat \<Rightarrow> string" where
  "safestrcpy_str t n = take (n - 1) t"

text \<open>
  The trap frame and the context lie at the top of the new kernel stack; the frame keeps what the
  memory holds until the caller fills it. The word between them is where \<open>forkret\<close> returns to.
\<close>

definition allocproc :: "('z kernel_scheme, nat option) km" where
  "allocproc =
     kthen (acquire PtableLock) (
     kbind (gets (\<lambda>s. first_index (\<lambda>p. p_state p = UNUSED) (ptable s))) (\<lambda>r.
     case r of
       None \<Rightarrow> kthen (release PtableLock) (ret None)
     | Some p \<Rightarrow>
         kbind (gets nextpid) (\<lambda>pid.
         kthen (upd_proc p (\<lambda>x. x\<lparr>p_state := EMBRYO, p_pid := pid\<rparr>)) (
         kthen (modify (\<lambda>s. s\<lparr>nextpid := nextpid s + 1\<rparr>)) (
         kthen (release PtableLock) (
         kbind kalloc (\<lambda>kstack.
         kthen (upd_proc p (\<lambda>x. x\<lparr>p_kstack := kstack\<rparr>)) (
         if kstack = 0 then
           kthen (upd_proc p (\<lambda>x. x\<lparr>p_state := UNUSED\<rparr>)) (ret None)
         else
           kthen (modify (\<lambda>s. set_pte (kstack, 1004) (sym_trapret s) s)) (
           kbind (gets sym_forkret) (\<lambda>fr.
           kthen (upd_proc p (\<lambda>x. x\<lparr>p_context := \<lparr>ctx_edi = 0, ctx_esi = 0, ctx_ebx = 0,
              ctx_ebp = 0, ctx_eip = fr\<rparr>\<rparr>)) (
           kbind (gets ticks) (\<lambda>tk.
           kthen (upd_proc p (\<lambda>x. x\<lparr>p_ctime1 := sint tk, p_etime := 0, p_rtime := 0, p_iotime := 0\<rparr>)) (
           ret (Some p))))))))))))))"

definition user_sel :: "nat \<Rightarrow> u16" where
  "user_sel seg = push_bit 3 (of_nat seg) OR ucast DPL_USER"

definition userinit :: "u8 list \<Rightarrow> ('z kernel_scheme, unit) km" where
  "userinit initcode =
     kbind allocproc (\<lambda>r.
     kthen (modify (\<lambda>s. s\<lparr>initproc := r\<rparr>)) (
     kthen (fault_if (r = None) ''allocproc failed'') (
     let p = the r in
     kbind setupkvm (\<lambda>d.
     kthen (upd_proc p (\<lambda>x. x\<lparr>p_pgdir := d\<rparr>)) (
     kthen (panic_if (d = 0) ''userinit: out of memory?'') (
     kthen (inituvm d initcode) (
     kthen (upd_proc p (\<lambda>x. x\<lparr>p_sz := PGSIZE, p_tf := zero_tf\<lparr>tf_cs := user_sel SEG_UCODE,
        tf_ds := user_sel SEG_UDATA, tf_es := user_sel SEG_UDATA, tf_ss := user_sel SEG_UDATA,
        tf_eflags := 0x200, tf_esp := PGSIZE, tf_eip := 0\<rparr>,
        p_name := safestrcpy_str ''initcode'' 16\<rparr>)) (
     kbind (namei [slash]) (\<lambda>cwd.
     kthen (upd_proc p (\<lambda>x. x\<lparr>p_cwd := cwd\<rparr>)) (
     upd_proc p (\<lambda>x. x\<lparr>p_state := RUNNABLE\<rparr>)))))))))))"

definition growproc :: "int \<Rightarrow> ('z kernel_scheme, int) km" where
  "growproc n =
     kbind myproc (\<lambda>me.
     kbind (gets (\<lambda>s. ptable s ! me)) (\<lambda>p.
     kbind (if n > 0 then
              kbind (allocuvm (p_pgdir p) (p_sz p) (p_sz p + of_int n)) (\<lambda>sz. ret (if sz = 0 then None else Some sz))
            else if n < 0 then
              kbind (deallocuvm (p_pgdir p) (p_sz p) (p_sz p + of_int n)) (\<lambda>sz. ret (if sz = 0 then None else Some sz))
            else ret (Some (p_sz p))) (\<lambda>r.
     case r of
       None \<Rightarrow> ret (- 1)
     | Some sz \<Rightarrow>
         kthen (upd_proc me (\<lambda>x. x\<lparr>p_sz := sz\<rparr>)) (
         kthen (switchuvm me) (
         ret 0)))))"

definition fork_file :: "nat \<Rightarrow> nat \<Rightarrow> nat \<Rightarrow> ('z kernel_scheme, unit) km" where
  "fork_file me np i =
     kbind (gets (\<lambda>s. p_ofile (ptable s ! me) ! i)) (\<lambda>f.
     case f of
       None \<Rightarrow> ret ()
     | Some f \<Rightarrow>
         kbind (filedup f) (\<lambda>g.
         upd_proc np (\<lambda>x. x\<lparr>p_ofile := (p_ofile x)[i := Some g]\<rparr>)))"

definition fork :: "('z kernel_scheme, int) km" where
  "fork =
     kbind allocproc (\<lambda>r.
     case r of
       None \<Rightarrow> ret (- 1)
     | Some np \<Rightarrow>
         kbind myproc (\<lambda>me.
         kbind (gets (\<lambda>s. ptable s ! me)) (\<lambda>p.
         kbind (copyuvm (p_pgdir p) (p_sz p)) (\<lambda>d.
         kthen (upd_proc np (\<lambda>x. x\<lparr>p_pgdir := d\<rparr>)) (
         if d = 0 then
           kbind (gets (\<lambda>s. p_kstack (ptable s ! np))) (\<lambda>ks.
           kthen (kfree ks) (
           kthen (upd_proc np (\<lambda>x. x\<lparr>p_kstack := 0, p_state := UNUSED\<rparr>)) (
           ret (- 1))))
         else
           kthen (upd_proc np (\<lambda>x. x\<lparr>p_sz := p_sz p, p_parent := Some me, p_tf := (p_tf p)\<lparr>tf_eax := 0\<rparr>\<rparr>)) (
           kthen (kfor [0..<NOFILE] (fork_file me np)) (
           kthen (case p_cwd p of None \<Rightarrow> kfault ''cwd is null'' | Some c \<Rightarrow>
             kbind (idup c) (\<lambda>c2. upd_proc np (\<lambda>x. x\<lparr>p_cwd := Some c2\<rparr>))) (
           kthen (upd_proc np (\<lambda>x. x\<lparr>p_name := safestrcpy_str (p_name p) 16\<rparr>)) (
           kbind (gets (\<lambda>s. p_pid (ptable s ! np))) (\<lambda>pid.
           kthen (acquire PtableLock) (
           kthen (upd_proc np (\<lambda>x. x\<lparr>p_state := RUNNABLE\<rparr>)) (
           kthen (release PtableLock) (
           ret pid)))))))))))))"

section \<open>Ending processes\<close>

definition exit_file :: "nat \<Rightarrow> nat \<Rightarrow> ('z kernel_scheme, unit) km" where
  "exit_file me fd =
     kbind (gets (\<lambda>s. p_ofile (ptable s ! me) ! fd)) (\<lambda>f.
     case f of
       None \<Rightarrow> ret ()
     | Some f \<Rightarrow>
         kthen (fileclose f) (
         upd_proc me (\<lambda>x. x\<lparr>p_ofile := (p_ofile x)[fd := None]\<rparr>)))"

definition reparent :: "nat \<Rightarrow> nat \<Rightarrow> ('z kernel_scheme, unit) km" where
  "reparent me i =
     kbind (gets (\<lambda>s. ptable s ! i)) (\<lambda>p.
     kwhen (p_parent p = Some me) (
       kbind (gets initproc) (\<lambda>ini.
       kthen (upd_proc i (\<lambda>x. x\<lparr>p_parent := ini\<rparr>)) (
       kwhen (p_state p = ZOMBIE) (wakeup1 (map_option ChanProc ini))))))"

definition exit :: "('z kernel_scheme, 'a) km" where
  "exit =
     kbind myproc (\<lambda>me.
     kbind (gets initproc) (\<lambda>ini.
     kthen (panic_if (ini = Some me) ''init exiting'') (
     kthen (kfor [0..<NOFILE] (exit_file me)) (
     kthen begin_op (
     kbind (gets (\<lambda>s. p_cwd (ptable s ! me))) (\<lambda>cwd.
     kthen (case cwd of None \<Rightarrow> kfault ''cwd is null'' | Some c \<Rightarrow> iput c) (
     kthen end_op (
     kthen (upd_proc me (\<lambda>x. x\<lparr>p_cwd := None\<rparr>)) (
     kthen (acquire PtableLock) (
     kbind (gets (\<lambda>s. p_parent (ptable s ! me))) (\<lambda>par.
     kthen (wakeup1 (map_option ChanProc par)) (
     kthen (kfor [0..<NPROC] (reparent me)) (
     kbind (gets ticks) (\<lambda>tk.
     kthen (upd_proc me (\<lambda>x. x\<lparr>p_state := ZOMBIE, p_etime := sint tk\<rparr>)) sched))))))))))))))"

text \<open>What \<open>wait\<close> and \<open>waitx\<close> do with a zombie child: free its memory and its table slot.\<close>

definition reap :: "nat \<Rightarrow> ('z kernel_scheme, int) km" where
  "reap i =
     kbind (gets (\<lambda>s. ptable s ! i)) (\<lambda>p.
     kthen (kfree (p_kstack p)) (
     kthen (upd_proc i (\<lambda>x. x\<lparr>p_kstack := 0\<rparr>)) (
     kthen (freevm (p_pgdir p)) (
     kthen (upd_proc i (\<lambda>x. x\<lparr>p_state := UNUSED, p_pid := 0, p_parent := None, p_name := [],
        p_killed := False\<rparr>)) (
     kthen (release PtableLock) (
     ret (p_pid p)))))))"

definition zombie_child :: "nat \<Rightarrow> proc list \<Rightarrow> nat option" where
  "zombie_child me pt = first_index (\<lambda>p. p_parent p = Some me \<and> p_state p = ZOMBIE) pt"

definition havekids :: "nat \<Rightarrow> proc list \<Rightarrow> bool" where
  "havekids me pt \<longleftrightarrow> list_ex (\<lambda>p. p_parent p = Some me) pt"

definition wait_loop :: "(nat \<Rightarrow> ('z kernel_scheme, unit) km) \<Rightarrow> ('z kernel_scheme, int) km" where
  "wait_loop found =
     kbind myproc (\<lambda>me.
     kbind (gets ptable) (\<lambda>pt.
     case zombie_child me pt of
       Some i \<Rightarrow> kthen (found i) (reap i)
     | None \<Rightarrow>
         if \<not> havekids me pt \<or> p_killed (pt ! me)
         then kthen (release PtableLock) (ret (- 1))
         else sleep (Some (ChanProc me)) (Some PtableLock)))"

definition wait :: "('z kernel_scheme, int) km" where
  "wait = kthen (acquire PtableLock) (wait_loop (\<lambda>_. ret ()))"

definition wait_resume :: "bool \<Rightarrow> ('z kernel_scheme, int) km" where
  "wait_resume saved = kthen (sleep_resume saved PtableLock) (wait_loop (\<lambda>_. ret ()))"

text \<open>\<open>waitx\<close> stores the two times through the user's pointers before it frees the child.\<close>

definition waitx_times :: "u32 \<Rightarrow> u32 \<Rightarrow> nat \<Rightarrow> ('z kernel_scheme, unit) km" where
  "waitx_times wtime rtime i =
     kbind (gets (\<lambda>s. ptable s ! i)) (\<lambda>p.
     kthen (ustore_int wtime (p_etime p - p_ctime1 p - p_rtime p - p_iotime p)) (
     ustore_int rtime (p_rtime p)))"

definition waitx :: "u32 \<Rightarrow> u32 \<Rightarrow> ('z kernel_scheme, int) km" where
  "waitx wtime rtime = kthen (acquire PtableLock) (wait_loop (waitx_times wtime rtime))"

definition waitx_resume :: "bool \<Rightarrow> u32 \<Rightarrow> u32 \<Rightarrow> ('z kernel_scheme, int) km" where
  "waitx_resume saved wtime rtime =
     kthen (sleep_resume saved PtableLock) (wait_loop (waitx_times wtime rtime))"

definition forkret :: "('z kernel_scheme, unit) km" where
  "forkret =
     kthen (release PtableLock) (
     kbind (gets forkret_first) (\<lambda>first.
     kwhen first (
       kthen (modify (\<lambda>s. s\<lparr>forkret_first := False\<rparr>)) (
       kthen (iinit (int ROOTDEV)) (
       initlog (int ROOTDEV))))))"

section \<open>A concrete machine\<close>

definition small_kernel :: kernel where
  "small_kernel = files.extend small_files
     \<lparr>forkret_first = True, sym_forkret = 0x80103000, sym_trapret = 0x80105000,
      idt = (\<lambda>_. \<lparr>gate_off = 0, gate_cs = 0, gate_trap = False, gate_dpl = 0\<rparr>)\<rparr>"

lemma small_kernel_boot:
  "quiet small_kernel" "curproc small_kernel = Some 1" "length (ptable small_kernel) = 2" "disksize small_kernel = 1000"
  "klog small_kernel = small_log" "ptable small_kernel = ptable small_files" "cpu_id small_kernel = 0"
  "ftable small_kernel = replicate NFILE zero_file" "pipes small_kernel = (\<lambda>_. zero_pipe)"
  "sb small_kernel = small_sb" "icache small_kernel = replicate NINODE zero_inode"
  using small_files_boot
  by (simp_all add: small_kernel_def files.defs quiet_def mycpu_def curproc_def)

end
