(* ===== verification/Syscall.thy ===== *)
theory Syscall
  imports Process
begin

text \<open>
  The system calls: argument fetching and dispatch (\<open>src/syscall.c\<close>), the process calls
  (\<open>src/sysproc.c\<close>), program loading (\<open>src/exec.c\<close>), the file calls (\<open>src/sysfile.c\<close>) and the trap
  handler that reaches them (\<open>src/trap.c\<close>). A string argument is the bytes before its zero.
\<close>

unbundle bit_operations_syntax

section \<open>Fetching arguments\<close>

definition cur_sz :: "('z procs_scheme, u32) km" where
  "cur_sz = kbind myproc (\<lambda>me. gets (\<lambda>s. p_sz (ptable s ! me)))"

text \<open>\<open>None\<close> is the result -1.\<close>

definition fetchint :: "u32 \<Rightarrow> ('z kmems_scheme, int option) km" where
  "fetchint addr =
     kbind cur_sz (\<lambda>sz.
     if addr \<ge> sz \<or> addr + 4 > sz then ret None
     else kbind (uloads addr 4) (\<lambda>bs. ret (Some (to_int32 (le_nat bs)))))"

text \<open>The scan for the terminating zero, at most up to the end of the process.\<close>

primrec fetchstr_loop :: "nat \<Rightarrow> u32 \<Rightarrow> ('z kmems_scheme, u8 list option) km" where
  "fetchstr_loop 0 a = ret None"
| "fetchstr_loop (Suc k) a =
     kbind (uload a) (\<lambda>c.
     if c = 0 then ret (Some [])
     else kbind (fetchstr_loop k (a + 1)) (\<lambda>r. ret (map_option (Cons c) r)))"

definition fetchstr :: "u32 \<Rightarrow> ('z kmems_scheme, u8 list option) km" where
  "fetchstr addr =
     kbind cur_sz (\<lambda>sz.
     if addr \<ge> sz then ret None
     else fetchstr_loop (unat (sz - addr)) addr)"

definition argint :: "nat \<Rightarrow> ('z kmems_scheme, int option) km" where
  "argint n =
     kbind myproc (\<lambda>me.
     kbind (gets (\<lambda>s. tf_esp (p_tf (ptable s ! me)))) (\<lambda>esp.
     fetchint (esp + 4 + 4 * of_nat n)))"

definition argptr :: "nat \<Rightarrow> int \<Rightarrow> ('z kmems_scheme, u32 option) km" where
  "argptr n sz =
     kbind (argint n) (\<lambda>r.
     case r of
       None \<Rightarrow> ret None
     | Some i \<Rightarrow>
         kbind cur_sz (\<lambda>psz.
         let a = of_int i in
         ret (if a \<ge> psz \<or> a + of_int sz > psz then None else Some a)))"

definition argstr :: "nat \<Rightarrow> ('z kmems_scheme, u8 list option) km" where
  "argstr n =
     kbind (argint n) (\<lambda>r.
     case r of None \<Rightarrow> ret None | Some addr \<Rightarrow> fetchstr (of_int addr))"

text \<open>Binding an argument: a fetch that fails ends the call with the value \<open>e\<close>.\<close>

definition karg :: "('s, 'a option) km \<Rightarrow> ('s, 'b) km \<Rightarrow> ('a \<Rightarrow> ('s, 'b) km) \<Rightarrow> ('s, 'b) km" where
  "karg m e f = kbind m (\<lambda>r. case r of None \<Rightarrow> e | Some a \<Rightarrow> f a)"

section \<open>Process calls\<close>

definition sys_fork :: "('z kernel_scheme, int) km" where
  "sys_fork = fork"

definition sys_exit :: "('z kernel_scheme, int) km" where
  "sys_exit = kthen (exit :: ('z kernel_scheme, unit) km) (ret 0)"

definition sys_wait :: "('z kernel_scheme, int) km" where
  "sys_wait = wait"

definition sys_waitx :: "('z kernel_scheme, int) km" where
  "sys_waitx =
     karg (argptr 0 4) (ret 12) (\<lambda>wtime.
     karg (argptr 1 4) (ret 13) (\<lambda>rtime.
     waitx wtime rtime))"

definition sys_kill :: "('z kernel_scheme, int) km" where
  "sys_kill = karg (argint 0) (ret (- 1)) kill"

definition sys_getpid :: "('z kernel_scheme, int) km" where
  "sys_getpid = kbind myproc (\<lambda>me. gets (\<lambda>s. p_pid (ptable s ! me)))"

definition sys_sbrk :: "('z kernel_scheme, int) km" where
  "sys_sbrk =
     karg (argint 0) (ret (- 1)) (\<lambda>n.
     kbind cur_sz (\<lambda>addr.
     kbind (growproc n) (\<lambda>r.
     if r < 0 then ret (- 1) else ret (sint addr))))"

text \<open>\<open>ticks - ticks0 < n\<close> compares unsigned numbers.\<close>

definition sys_sleep_loop :: "int \<Rightarrow> u32 \<Rightarrow> ('z kernel_scheme, int) km" where
  "sys_sleep_loop n ticks0 =
     kbind (gets ticks) (\<lambda>tk.
     if tk - ticks0 < of_int n then
       kbind cur_killed (\<lambda>k.
       if k then kthen (release TicksLock) (ret (- 1))
       else sleep (Some ChanTicks) (Some TicksLock))
     else kthen (release TicksLock) (ret 0))"

definition sys_sleep :: "('z kernel_scheme, int) km" where
  "sys_sleep =
     karg (argint 0) (ret (- 1)) (\<lambda>n.
     kthen (acquire TicksLock) (
     kbind (gets ticks) (\<lambda>ticks0.
     sys_sleep_loop n ticks0)))"

definition sys_sleep_resume :: "bool \<Rightarrow> int \<Rightarrow> u32 \<Rightarrow> ('z kernel_scheme, int) km" where
  "sys_sleep_resume saved n ticks0 = kthen (sleep_resume saved TicksLock) (sys_sleep_loop n ticks0)"

definition sys_uptime :: "('z kernel_scheme, int) km" where
  "sys_uptime =
     kthen (acquire TicksLock) (
     kbind (gets ticks) (\<lambda>tk.
     kthen (release TicksLock) (
     ret (sint tk))))"

section \<open>Loading programs\<close>

definition MAXARG :: nat where "MAXARG = 32"
definition ELF_MAGIC :: nat where "ELF_MAGIC = 0x464C457F"
definition ELF_PROG_LOAD :: nat where "ELF_PROG_LOAD = 1"

record elfhdr =
  elf_magic :: nat
  elf_entry :: nat
  elf_phoff :: nat
  elf_phnum :: nat

definition get_elfhdr :: "u8 list \<Rightarrow> elfhdr" where
  "get_elfhdr bs = \<lparr>elf_magic = getle 4 0 bs, elf_entry = getle 4 24 bs, elf_phoff = getle 4 28 bs,
     elf_phnum = getle 2 44 bs\<rparr>"

record proghdr =
  ph_type :: nat
  ph_off :: nat
  ph_vaddr :: nat
  ph_filesz :: nat
  ph_memsz :: nat

definition get_proghdr :: "u8 list \<Rightarrow> proghdr" where
  "get_proghdr bs = \<lparr>ph_type = getle 4 0 bs, ph_off = getle 4 4 bs, ph_vaddr = getle 4 8 bs,
     ph_filesz = getle 4 16 bs, ph_memsz = getle 4 20 bs\<rparr>"

text \<open>The loop over the program headers; \<open>None\<close> is the jump to \<open>bad\<close>.\<close>

primrec exec_segs :: "nat \<Rightarrow> u32 \<Rightarrow> nat \<Rightarrow> nat \<Rightarrow> u32 \<Rightarrow> ('z kernel_scheme, u32 option) km" where
  "exec_segs 0 pgdir ip off sz = ret (Some sz)"
| "exec_segs (Suc k) pgdir ip off sz =
     kbind (readi ip off 32) (\<lambda>(r, bs).
     if r \<noteq> 32 then ret None
     else
       let ph = get_proghdr bs; off1 = uint32 (int off + 32) in
       if ph_type ph \<noteq> ELF_PROG_LOAD then exec_segs k pgdir ip off1 sz
       else if ph_memsz ph < ph_filesz ph then ret None
       else
         kbind (allocuvm pgdir sz (of_nat (ph_vaddr ph) + of_nat (ph_memsz ph))) (\<lambda>sz1.
         if sz1 = 0 then ret None
         else
           kbind (loaduvm pgdir (of_nat (ph_vaddr ph)) ip (ph_off ph) (ph_filesz ph)) (\<lambda>l.
           if l < 0 then ret None
           else exec_segs k pgdir ip off1 sz1)))"

definition exec_bad :: "u32 \<Rightarrow> nat option \<Rightarrow> ('z kernel_scheme, int) km" where
  "exec_bad pgdir ip =
     kthen (kwhen (pgdir \<noteq> 0) (freevm pgdir)) (
     kthen (case ip of None \<Rightarrow> ret () | Some i \<Rightarrow> kthen (iunlockput i) end_op) (
     ret (- 1)))"

text \<open>
  Pushing the argument strings: the stack pointer, and the addresses pushed so far. \<open>None\<close> is the
  jump to \<open>bad\<close>.
\<close>

fun exec_args :: "u32 \<Rightarrow> u32 \<Rightarrow> u32 list \<Rightarrow> u8 list list \<Rightarrow> ('z kernel_scheme, (u32 \<times> u32 list) option) km" where
  "exec_args pgdir sp addrs [] = ret (Some (sp, addrs))"
| "exec_args pgdir sp addrs (a # argv) =
     (if length addrs \<ge> MAXARG then ret None
      else
        let sp1 = (sp - of_nat (length a + 1)) AND NOT 3 in
        kbind (copyout pgdir sp1 (a @ [0])) (\<lambda>r.
        if r < 0 then ret None
        else exec_args pgdir sp1 (addrs @ [sp1]) argv))"

definition ustack_of :: "u32 \<Rightarrow> u32 list \<Rightarrow> u32 list" where
  "ustack_of sp addrs =
     (let argc = of_nat (length addrs) in
      [0xffffffff, argc, sp - (argc + 1) * 4] @ addrs @ [0])"

definition words_bytes :: "u32 list \<Rightarrow> u8 list" where
  "words_bytes ws = concat (map (\<lambda>w. le_bytes 4 (unat w)) ws)"

text \<open>The last component of the path, for the process name.\<close>

definition path_last :: "u8 list \<Rightarrow> u8 list" where
  "path_last path = rev (takeWhile (\<lambda>c. c \<noteq> slash) (rev path))"

definition bytes_string :: "u8 list \<Rightarrow> string" where
  "bytes_string bs = map (\<lambda>b. char_of (unat b)) bs"

definition exec_commit :: "u8 list \<Rightarrow> u32 \<Rightarrow> u32 \<Rightarrow> nat \<Rightarrow> u32 \<Rightarrow> ('z kernel_scheme, int) km" where
  "exec_commit path pgdir sz entry sp =
     kbind myproc (\<lambda>me.
     kbind (gets (\<lambda>s. p_pgdir (ptable s ! me))) (\<lambda>oldpgdir.
     kthen (upd_proc me (\<lambda>p. p\<lparr>p_name := safestrcpy_str (bytes_string (path_last path)) 16,
        p_pgdir := pgdir, p_sz := sz, p_tf := (p_tf p)\<lparr>tf_eip := of_nat entry, tf_esp := sp\<rparr>\<rparr>)) (
     kthen (switchuvm me) (
     kthen (freevm oldpgdir) (
     ret 0)))))"

definition exec_image :: "u8 list \<Rightarrow> u8 list list \<Rightarrow> u32 \<Rightarrow> u32 \<Rightarrow> nat \<Rightarrow> ('z kernel_scheme, int) km" where
  "exec_image path argv pgdir sz0 entry =
     (let sz1 = PGROUNDUP sz0 in
      kbind (allocuvm pgdir sz1 (sz1 + 2 * PGSIZE)) (\<lambda>sz.
      if sz = 0 then exec_bad pgdir None
      else
        kthen (clearpteu pgdir (sz - 2 * PGSIZE)) (
        kbind (exec_args pgdir sz [] argv) (\<lambda>r.
        case r of
          None \<Rightarrow> exec_bad pgdir None
        | Some (sp, addrs) \<Rightarrow>
            let us = ustack_of sp addrs;
                sp1 = sp - of_nat (3 + length addrs + 1) * 4 in
            kbind (copyout pgdir sp1 (words_bytes us)) (\<lambda>r.
            if r < 0 then exec_bad pgdir None
            else exec_commit path pgdir sz entry sp1)))))"

text \<open>
  The length \<open>readi\<close> returns is compared with \<open>sizeof\<close> as an unsigned number, so an error return
  passes the check and the header on the stack is used uninitialised.
\<close>

definition exec :: "u8 list \<Rightarrow> u8 list list \<Rightarrow> ('z kernel_scheme, int) km" where
  "exec path argv =
     kthen begin_op (
     kbind (namei path) (\<lambda>r.
     case r of
       None \<Rightarrow> kthen end_op (ret (- 1))
     | Some ip \<Rightarrow>
         kthen (ilock (Some ip)) (
         kbind (readi ip 0 52) (\<lambda>(n, bs).
         if uint32 n < 52 then exec_bad 0 (Some ip)
         else
           kthen (fault_if (n < 0) ''uninitialised elf header'') (
           let elf = get_elfhdr bs in
           if elf_magic elf \<noteq> ELF_MAGIC then exec_bad 0 (Some ip)
           else
             kbind setupkvm (\<lambda>pgdir.
             if pgdir = 0 then exec_bad 0 (Some ip)
             else
               kbind (exec_segs (elf_phnum elf) pgdir ip (elf_phoff elf) 0) (\<lambda>r.
               case r of
                 None \<Rightarrow> exec_bad pgdir (Some ip)
               | Some sz \<Rightarrow>
                   kthen (iunlockput ip) (
                   kthen end_op (
                   exec_image path argv pgdir sz (elf_entry elf)))))))))) "

section \<open>File calls\<close>

definition argfd :: "nat \<Rightarrow> ('z kernel_scheme, (nat \<times> nat) option) km" where
  "argfd n =
     kbind (argint n) (\<lambda>r.
     case r of
       None \<Rightarrow> ret None
     | Some fd \<Rightarrow>
         if fd < 0 \<or> fd \<ge> int NOFILE then ret None
         else
           kbind myproc (\<lambda>me.
           kbind (gets (\<lambda>s. p_ofile (ptable s ! me) ! nat fd)) (\<lambda>f.
           ret (map_option (Pair (nat fd)) f))))"

definition set_ofile :: "nat \<Rightarrow> nat option \<Rightarrow> ('z kernel_scheme, unit) km" where
  "set_ofile fd f =
     kbind myproc (\<lambda>me. upd_proc me (\<lambda>p. p\<lparr>p_ofile := (p_ofile p)[fd := f]\<rparr>))"

definition fdalloc :: "nat \<Rightarrow> ('z kernel_scheme, int) km" where
  "fdalloc f =
     kbind myproc (\<lambda>me.
     kbind (gets (\<lambda>s. first_index (\<lambda>x. x = None) (take NOFILE (p_ofile (ptable s ! me))))) (\<lambda>r.
     case r of
       None \<Rightarrow> ret (- 1)
     | Some fd \<Rightarrow> kthen (set_ofile fd (Some f)) (ret (int fd))))"

definition sys_dup :: "('z kernel_scheme, int) km" where
  "sys_dup =
     karg (argfd 0) (ret (- 1)) (\<lambda>(_, f).
     kbind (fdalloc f) (\<lambda>fd.
     if fd < 0 then ret (- 1)
     else kbind (filedup f) (\<lambda>_. ret fd)))"

definition sys_read :: "('z kernel_scheme, int) km" where
  "sys_read =
     karg (argfd 0) (ret (- 1)) (\<lambda>(_, f).
     karg (argint 2) (ret (- 1)) (\<lambda>n.
     karg (argptr 1 n) (ret (- 1)) (\<lambda>p.
     kbind (fileread f n) (\<lambda>(r, bs).
     kthen (ustores p bs) (
     ret r)))))"

text \<open>The bytes a write will read from the user's buffer; a negative length reads none.\<close>

definition sys_write :: "('z kernel_scheme, int) km" where
  "sys_write =
     karg (argfd 0) (ret (- 1)) (\<lambda>(_, f).
     karg (argint 2) (ret (- 1)) (\<lambda>n.
     karg (argptr 1 n) (ret (- 1)) (\<lambda>p.
     kbind (uloads p (nat n)) (\<lambda>src.
     filewrite f src n))))"

definition sys_close :: "('z kernel_scheme, int) km" where
  "sys_close =
     karg (argfd 0) (ret (- 1)) (\<lambda>(fd, f).
     kthen (set_ofile fd None) (
     kthen (fileclose f) (
     ret 0)))"

text \<open>\<open>struct stat\<close> in memory: the members at their offsets, with two bytes of padding after each \<open>short\<close>.\<close>

definition stat_fields :: "stat \<Rightarrow> (u32 \<times> u8 list) list" where
  "stat_fields st =
     [(0, le_bytes 2 (st_type st)), (4, le_bytes 4 (uint32 (st_dev st))), (8, le_bytes 4 (st_ino st)),
      (12, le_bytes 2 (st_nlink st)), (16, le_bytes 4 (st_size st))]"

definition sys_fstat :: "('z kernel_scheme, int) km" where
  "sys_fstat =
     karg (argfd 0) (ret (- 1)) (\<lambda>(_, f).
     karg (argptr 1 20) (ret (- 1)) (\<lambda>p.
     kbind (filestat f) (\<lambda>(r, st).
     kthen (case st of None \<Rightarrow> ret () | Some st \<Rightarrow> kfor (stat_fields st) (\<lambda>(o1, bs). ustores (p + o1) bs)) (
     ret r))))"

text \<open>The link count is a \<open>short\<close>.\<close>

definition add_nlink :: "nat \<Rightarrow> int \<Rightarrow> 'z inodes_scheme \<Rightarrow> 'z inodes_scheme" where
  "add_nlink ip k = upd_din ip (\<lambda>d. d\<lparr>di_nlink := nat ((int (di_nlink d) + k) mod 65536)\<rparr>)"

definition sys_link_bad :: "nat \<Rightarrow> ('z kernel_scheme, int) km" where
  "sys_link_bad ip =
     kthen (ilock (Some ip)) (
     kthen (modify (add_nlink ip (- 1))) (
     kthen (iupdate ip) (
     kthen (iunlockput ip) (
     kthen end_op (
     ret (- 1))))))"

definition sys_link :: "('z kernel_scheme, int) km" where
  "sys_link =
     karg (argstr 0) (ret (- 1)) (\<lambda>old.
     karg (argstr 1) (ret (- 1)) (\<lambda>new.
     kthen begin_op (
     karg (namei old) (kthen end_op (ret (- 1))) (\<lambda>ip.
     kthen (ilock (Some ip)) (
     kbind (gets (\<lambda>s. di_type (din ip s))) (\<lambda>t.
     if t = T_DIR then kthen (iunlockput ip) (kthen end_op (ret (- 1)))
     else
       kthen (modify (add_nlink ip 1)) (
       kthen (iupdate ip) (
       kthen (iunlock (Some ip)) (
       karg (nameiparent new) (sys_link_bad ip) (\<lambda>(dp, name).
       kthen (ilock (Some dp)) (
       kbind (gets (\<lambda>s. i_dev (icache s ! dp) \<noteq> i_dev (icache s ! ip))) (\<lambda>xdev.
       kbind (gets (\<lambda>s. i_inum (icache s ! ip))) (\<lambda>inum.
       kbind (if xdev then ret (- 1) else dirlink dp name inum) (\<lambda>r.
       if r < 0 then kthen (iunlockput dp) (sys_link_bad ip)
       else
         kthen (iunlockput dp) (
         kthen (iput ip) (
         kthen end_op (
         ret 0)))))))))))))))))"

definition isdirempty :: "nat \<Rightarrow> ('z devsws_scheme, bool) km" where
  "isdirempty dp =
     kbind (gets (\<lambda>s. di_size (din dp s))) (\<lambda>sz.
     kbind (kfind (filter (\<lambda>off. off \<ge> 2 * de_size) (dir_offsets sz)) (\<lambda>off.
       kbind (read_dirent dp off ''isdirempty: readi'') (\<lambda>de.
       ret (if de_inum de \<noteq> 0 then Some () else None)))) (\<lambda>r.
     ret (r = None)))"

definition sys_unlink_bad :: "nat \<Rightarrow> ('z kernel_scheme, int) km" where
  "sys_unlink_bad dp = kthen (iunlockput dp) (kthen end_op (ret (- 1)))"

definition sys_unlink :: "('z kernel_scheme, int) km" where
  "sys_unlink =
     karg (argstr 0) (ret (- 1)) (\<lambda>path.
     kthen begin_op (
     karg (nameiparent path) (kthen end_op (ret (- 1))) (\<lambda>(dp, name).
     kthen (ilock (Some dp)) (
     if namecmp name [46] = 0 \<or> namecmp name [46, 46] = 0 then sys_unlink_bad dp
     else
       karg (dirlookup dp name) (sys_unlink_bad dp) (\<lambda>(ip, off).
       kthen (ilock (Some ip)) (
       kbind (gets (din ip)) (\<lambda>d.
       kthen (panic_if (di_nlink d = 0 \<or> di_nlink d \<ge> 32768) ''unlink: nlink < 1'') (
       kbind (if di_type d = T_DIR then isdirempty ip else ret True) (\<lambda>empty.
       if \<not> empty then kthen (iunlockput ip) (sys_unlink_bad dp)
       else
         kbind (writei dp (replicate de_size 0) off de_size) (\<lambda>w.
         kthen (panic_if (w \<noteq> int de_size) ''unlink: writei'') (
         kthen (kwhen (di_type d = T_DIR) (kthen (modify (add_nlink dp (- 1))) (iupdate dp))) (
         kthen (iunlockput dp) (
         kthen (modify (add_nlink ip (- 1))) (
         kthen (iupdate ip) (
         kthen (iunlockput ip) (
         kthen end_op (
         ret 0)))))))))))))))))"

definition create :: "u8 list \<Rightarrow> nat \<Rightarrow> nat \<Rightarrow> nat \<Rightarrow> ('z kernel_scheme, nat option) km" where
  "create path type major minor =
     karg (nameiparent path) (ret None) (\<lambda>(dp, name).
     kthen (ilock (Some dp)) (
     kbind (dirlookup dp name) (\<lambda>r.
     case r of
       Some (ip, _) \<Rightarrow>
         kthen (iunlockput dp) (
         kthen (ilock (Some ip)) (
         kbind (gets (\<lambda>s. di_type (din ip s))) (\<lambda>t.
         if type = T_FILE \<and> t = T_FILE then ret (Some ip)
         else kthen (iunlockput ip) (ret None))))
     | None \<Rightarrow>
         kbind (gets (\<lambda>s. i_dev (icache s ! dp))) (\<lambda>dev.
         kbind (ialloc dev type) (\<lambda>ip.
         kthen (ilock (Some ip)) (
         kthen (modify (upd_din ip (\<lambda>d. d\<lparr>di_major := major, di_minor := minor, di_nlink := 1\<rparr>))) (
         kthen (iupdate ip) (
         kbind (gets (\<lambda>s. i_inum (icache s ! ip))) (\<lambda>inum.
         kbind (gets (\<lambda>s. i_inum (icache s ! dp))) (\<lambda>dinum.
         kthen (kwhen (type = T_DIR) (
           kthen (modify (add_nlink dp 1)) (
           kthen (iupdate dp) (
           kbind (dirlink ip [46] inum) (\<lambda>r1.
           kbind (if r1 < 0 then ret r1 else dirlink ip [46, 46] dinum) (\<lambda>r2.
           panic_if (r2 < 0) ''create dots'')))))) (
         kbind (dirlink dp name inum) (\<lambda>r3.
         kthen (panic_if (r3 < 0) ''create: dirlink'') (
         kthen (iunlockput dp) (
         ret (Some ip)))))))))))))))"

definition O_CREATE :: int where "O_CREATE = 0x200"
definition O_WRONLY :: int where "O_WRONLY = 1"
definition O_RDWR :: int where "O_RDWR = 2"

text \<open>The inode \<open>sys_open\<close> opens, locked; \<open>None\<close> when it fails.\<close>

definition open_inode :: "u8 list \<Rightarrow> int \<Rightarrow> ('z kernel_scheme, nat option) km" where
  "open_inode path omode =
     (if omode AND O_CREATE \<noteq> 0 then create path T_FILE 0 0
      else
        karg (namei path) (ret None) (\<lambda>ip.
        kthen (ilock (Some ip)) (
        kbind (gets (\<lambda>s. di_type (din ip s))) (\<lambda>t.
        if t = T_DIR \<and> omode \<noteq> 0 then kthen (iunlockput ip) (ret None)
        else ret (Some ip)))))"

definition sys_open_bad :: "nat option \<Rightarrow> nat \<Rightarrow> ('z kernel_scheme, int) km" where
  "sys_open_bad f ip =
     kthen (case f of None \<Rightarrow> ret () | Some f \<Rightarrow> fileclose f) (
     kthen (iunlockput ip) (
     kthen end_op (
     ret (- 1))))"

definition sys_open :: "('z kernel_scheme, int) km" where
  "sys_open =
     karg (argstr 0) (ret (- 1)) (\<lambda>path.
     karg (argint 1) (ret (- 1)) (\<lambda>omode.
     kthen begin_op (
     karg (open_inode path omode) (kthen end_op (ret (- 1))) (\<lambda>ip.
     karg filealloc (sys_open_bad None ip) (\<lambda>f.
     kbind (fdalloc f) (\<lambda>fd.
     if fd < 0 then sys_open_bad (Some f) ip
     else
       kthen (iunlock (Some ip)) (
       kthen end_op (
       kthen (modify (upd_file f (\<lambda>x. x\<lparr>f_type := FD_INODE, f_ip := ip, f_off := 0,
          f_readable := (omode AND O_WRONLY = 0),
          f_writable := (omode AND O_WRONLY \<noteq> 0 \<or> omode AND O_RDWR \<noteq> 0)\<rparr>))) (
       ret fd)))))))))"

definition sys_mkdir :: "('z kernel_scheme, int) km" where
  "sys_mkdir =
     kthen begin_op (
     karg (karg (argstr 0) (ret None) (\<lambda>path. create path T_DIR 0 0)) (kthen end_op (ret (- 1))) (\<lambda>ip.
     kthen (iunlockput ip) (kthen end_op (ret 0))))"

text \<open>\<open>major\<close> and \<open>minor\<close> are passed as \<open>short\<close>.\<close>

definition short_bits :: "int \<Rightarrow> nat" where
  "short_bits x = nat (x mod 65536)"

definition sys_mknod :: "('z kernel_scheme, int) km" where
  "sys_mknod =
     kthen begin_op (
     karg (karg (argstr 0) (ret None) (\<lambda>path.
           karg (argint 1) (ret None) (\<lambda>major.
           karg (argint 2) (ret None) (\<lambda>minor.
           create path T_DEV (short_bits major) (short_bits minor))))) (kthen end_op (ret (- 1))) (\<lambda>ip.
     kthen (iunlockput ip) (kthen end_op (ret 0))))"

definition sys_chdir :: "('z kernel_scheme, int) km" where
  "sys_chdir =
     kthen begin_op (
     karg (karg (argstr 0) (ret None) namei) (kthen end_op (ret (- 1))) (\<lambda>ip.
     kthen (ilock (Some ip)) (
     kbind (gets (\<lambda>s. di_type (din ip s))) (\<lambda>t.
     if t \<noteq> T_DIR then kthen (iunlockput ip) (kthen end_op (ret (- 1)))
     else
       kthen (iunlock (Some ip)) (
       kbind myproc (\<lambda>me.
       kbind (gets (\<lambda>s. p_cwd (ptable s ! me))) (\<lambda>cwd.
       kthen (case cwd of None \<Rightarrow> kfault ''cwd is null'' | Some c \<Rightarrow> iput c) (
       kthen end_op (
       kthen (upd_proc me (\<lambda>p. p\<lparr>p_cwd := Some ip\<rparr>)) (
       ret 0))))))))))"

text \<open>The argument vector of \<open>sys_exec\<close>, at most \<open>k\<close> entries from entry \<open>i\<close> on.\<close>

primrec exec_argv :: "nat \<Rightarrow> u32 \<Rightarrow> ('z kernel_scheme, u8 list list option) km" where
  "exec_argv 0 a = ret None"
| "exec_argv (Suc k) a =
     karg (fetchint a) (ret None) (\<lambda>uarg.
     if uarg = 0 then ret (Some [])
     else
       karg (fetchstr (of_int uarg)) (ret None) (\<lambda>str.
       kbind (exec_argv k (a + 4)) (\<lambda>r.
       ret (map_option (Cons str) r))))"

definition sys_exec :: "('z kernel_scheme, int) km" where
  "sys_exec =
     karg (argstr 0) (ret (- 1)) (\<lambda>path.
     karg (argint 1) (ret (- 1)) (\<lambda>uargv.
     karg (exec_argv MAXARG (of_int uargv)) (ret (- 1)) (\<lambda>argv.
     exec path argv)))"

definition sys_pipe :: "('z kernel_scheme, int) km" where
  "sys_pipe =
     karg (argptr 0 8) (ret (- 1)) (\<lambda>fd.
     karg pipealloc (ret (- 1)) (\<lambda>(rf, wf).
     kbind (fdalloc rf) (\<lambda>fd0.
     kbind (if fd0 < 0 then ret (- 1) else fdalloc wf) (\<lambda>fd1.
     if fd1 < 0 then
       kthen (kwhen (fd0 \<ge> 0) (set_ofile (nat fd0) None)) (
       kthen (fileclose rf) (
       kthen (fileclose wf) (
       ret (- 1))))
     else
       kthen (ustore_int fd fd0) (
       kthen (ustore_int (fd + 4) fd1) (
       ret 0))))))"

section \<open>Dispatch\<close>

definition syscalls :: "(nat \<times> ('z kernel_scheme, int) km) list" where
  "syscalls =
     [(1, sys_fork), (2, sys_exit), (3, sys_wait), (4, sys_pipe), (5, sys_read), (6, sys_kill),
      (7, sys_exec), (8, sys_fstat), (9, sys_chdir), (10, sys_dup), (11, sys_getpid), (12, sys_sbrk),
      (13, sys_sleep), (14, sys_uptime), (15, sys_open), (16, sys_write), (17, sys_mknod),
      (18, sys_unlink), (19, sys_link), (20, sys_mkdir), (21, sys_close), (22, sys_waitx)]"

definition set_eax :: "nat \<Rightarrow> int \<Rightarrow> ('z procs_scheme, unit) km" where
  "set_eax me v = upd_proc me (\<lambda>p. p\<lparr>p_tf := (p_tf p)\<lparr>tf_eax := of_int v\<rparr>\<rparr>)"

definition syscall :: "('z kernel_scheme, unit) km" where
  "syscall =
     kbind myproc (\<lambda>me.
     kbind (gets (\<lambda>s. ptable s ! me)) (\<lambda>p.
     let num = sint (tf_eax (p_tf p)) in
     case (if num > 0 then map_of syscalls (nat num) else None) of
       Some f \<Rightarrow> kbind f (\<lambda>r. set_eax me r)
     | None \<Rightarrow>
         kthen (cprintf (Some (''%d %s: unknown sys call %d'' @ [CHR 0x0A]))
           [ArgW (of_int (p_pid p)), ArgS (Some (p_name p)), ArgW (of_int num)]) (
         set_eax me (- 1))))"

section \<open>Traps\<close>

definition T_SYSCALL :: nat where "T_SYSCALL = 64"

definition SETGATE :: "bool \<Rightarrow> u16 \<Rightarrow> u32 \<Rightarrow> u8 \<Rightarrow> gatedesc" where
  "SETGATE istrap sel off d = \<lparr>gate_off = off, gate_cs = sel, gate_trap = istrap, gate_dpl = d\<rparr>"

text \<open>\<open>vectors\<close> is the table of entry points the assembler file \<open>vectors.S\<close> defines.\<close>

definition tvinit :: "(nat \<Rightarrow> u32) \<Rightarrow> ('z kernel_scheme, unit) km" where
  "tvinit vectors =
     kthen (modify (\<lambda>s. s\<lparr>idt := (\<lambda>i. if i = T_SYSCALL
         then SETGATE True (push_bit 3 (of_nat SEG_KCODE)) (vectors T_SYSCALL) DPL_USER
         else if i < 256 then SETGATE False (push_bit 3 (of_nat SEG_KCODE)) (vectors i) 0 else idt s i)\<rparr>)) (
     initlock TicksLock)"

definition account :: "proc \<Rightarrow> proc" where
  "account p =
     (if p_state p = RUNNING then p\<lparr>p_rtime := p_rtime p + 1\<rparr>
      else if p_state p = SLEEPING then p\<lparr>p_iotime := p_iotime p + 1\<rparr> else p)"

definition timer_tick :: "('z kernel_scheme, unit) km" where
  "timer_tick =
     kthen (acquire TicksLock) (
     kthen (modify (\<lambda>s. s\<lparr>ticks := ticks s + 1\<rparr>)) (
     kthen (wakeup ChanTicks) (
     kthen (release TicksLock) (
     kbind (gets curproc) (\<lambda>p.
     case p of None \<Rightarrow> ret () | Some me \<Rightarrow> upd_proc me account)))))"

definition from_user :: "trapframe \<Rightarrow> bool" where
  "from_user tf \<longleftrightarrow> tf_cs tf AND 3 = ucast DPL_USER"

text \<open>
  The \<open>switch\<close> of \<open>trap\<close>. \<open>cr2\<close> is the faulting address the processor reports; \<open>fuel\<close> bounds the
  characters one device interrupt delivers.
\<close>

definition trap_irq :: "nat \<Rightarrow> u32 \<Rightarrow> trapframe \<Rightarrow> ('z kernel_scheme, unit) km" where
  "trap_irq fuel cr2 tf =
     (let n = unat (tf_trapno tf) in
      if n = T_IRQ0 + IRQ_TIMER then
        kbind (gets cpu_id) (\<lambda>i. kthen (kwhen (i = 0) timer_tick) lapiceoi)
      else if n = T_IRQ0 + IRQ_IDE then kthen ideintr lapiceoi
      else if n = T_IRQ0 + IRQ_IDE + 1 then ret ()
      else if n = T_IRQ0 + IRQ_KBD then kthen (kbdintr fuel) lapiceoi
      else if n = T_IRQ0 + IRQ_COM1 then kthen (uartintr fuel) lapiceoi
      else if n = T_IRQ0 + 7 \<or> n = T_IRQ0 + IRQ_SPURIOUS then
        kbind (gets cpu_id) (\<lambda>i.
        kthen (cprintf (Some (''cpu%d: spurious interrupt at %x:%x'' @ [CHR 0x0A]))
          [ArgW (of_nat i), ArgW (ucast (tf_cs tf)), ArgW (tf_eip tf)]) lapiceoi)
      else
        kbind (gets cpu_id) (\<lambda>i.
        kbind (gets curproc) (\<lambda>po.
        if po = None \<or> tf_cs tf AND 3 = 0 then
          kthen (cprintf (Some (''unexpected trap %d from cpu %d eip %x (cr2=0x%x)'' @ [CHR 0x0A]))
            [ArgW (tf_trapno tf), ArgW (of_nat i), ArgW (tf_eip tf), ArgW cr2]) (
          kpanic ''trap'')
        else
          kbind (gets (\<lambda>s. ptable s ! the po)) (\<lambda>p.
          kthen (cprintf (Some (''pid %d %s: trap %d err %d on cpu %d eip 0x%x addr 0x%x--kill proc'' @ [CHR 0x0A]))
            [ArgW (of_int (p_pid p)), ArgS (Some (p_name p)), ArgW (tf_trapno tf), ArgW (tf_err tf),
             ArgW (of_nat i), ArgW (tf_eip tf), ArgW cr2]) (
          upd_proc (the po) (\<lambda>p. p\<lparr>p_killed := True\<rparr>))))))"

definition exit_if_killed :: "trapframe \<Rightarrow> ('z kernel_scheme, unit) km" where
  "exit_if_killed tf =
     kbind (gets curproc) (\<lambda>po.
     kbind (gets (\<lambda>s. po \<noteq> None \<and> p_killed (ptable s ! the po) \<and> from_user tf)) (\<lambda>k.
     if k then exit else ret ()))"

definition trap :: "nat \<Rightarrow> u32 \<Rightarrow> trapframe \<Rightarrow> ('z kernel_scheme, unit) km" where
  "trap fuel cr2 tf =
     (if unat (tf_trapno tf) = T_SYSCALL then
        kbind cur_killed (\<lambda>k.
        kthen (if k then exit else ret ()) (
        kbind myproc (\<lambda>me.
        kthen (upd_proc me (\<lambda>p. p\<lparr>p_tf := tf\<rparr>)) (
        kthen syscall (
        kbind cur_killed (\<lambda>k.
        if k then exit else ret ()))))))
      else
        kthen (trap_irq fuel cr2 tf) (
        kthen (exit_if_killed tf) (
        kbind (gets curproc) (\<lambda>po.
        kbind (gets (\<lambda>s. po \<noteq> None \<and> p_state (ptable s ! the po) = RUNNING \<and>
            unat (tf_trapno tf) = T_IRQ0 + IRQ_TIMER)) (\<lambda>y.
        kthen (if y then yield else ret ()) (
        exit_if_killed tf))))))"

text \<open>What runs after the \<open>yield\<close> of a timer interrupt when the process is scheduled again.\<close>

definition trap_resume :: "bool \<Rightarrow> trapframe \<Rightarrow> ('z kernel_scheme, unit) km" where
  "trap_resume saved tf = kthen (yield_resume saved) (exit_if_killed tf)"

section \<open>Arguments from user space\<close>

text \<open>The memory of the running process is mapped below its size, and the size is a user address.\<close>

definition user_ready :: "u32 \<Rightarrow> 'z kmems_scheme \<Rightarrow> bool" where
  "user_ready sz s \<longleftrightarrow> (\<exists>me. curproc s = Some me \<and> p_sz (ptable s ! me) = sz) \<and> sz \<le> KERNBASE \<and>
     (\<forall>va < sz. mmu False va s \<noteq> None)"

definition user_byte :: "'z kmems_scheme \<Rightarrow> u32 \<Rightarrow> u8" where
  "user_byte s va = kpeek (the (mmu False va s)) s"

lemma cur_sz_run: "user_ready sz s \<Longrightarrow> cur_sz s = Done sz s"
  by (auto simp: user_ready_def cur_sz_def myproc_def run_simps)

lemma uload_run: "user_ready sz s \<Longrightarrow> va < sz \<Longrightarrow> uload va s = Done (user_byte s va) s"
  by (auto simp: user_ready_def uload_def run_simps user_byte_def)

lemma add_below:
  assumes "unat (va :: u32) + n \<le> unat sz" "i < n"
  shows "unat (va + of_nat i) = unat va + i" "va + of_nat i < sz"
proof -
  have "unat sz < 2 ^ 32" using unsigned_less [of sz] by simp
  then have b: "unat va + i < 2 ^ 32" using assms by simp
  then have "unat (of_nat i :: u32) = i" by (simp add: unsigned_of_nat take_bit_eq_mod)
  then show e: "unat (va + of_nat i) = unat va + i" using b by (simp add: unat_word_ariths)
  show "va + of_nat i < sz" using e assms by (simp add: word_less_nat_alt)
qed

lemma uloads_run:
  "user_ready sz s \<Longrightarrow> unat va + n \<le> unat sz \<Longrightarrow> uloads va n s = Done (map (\<lambda>i. user_byte s (va + of_nat i)) [0..<n]) s"
proof (induction n arbitrary: va)
  case (Suc n)
  have v: "va < sz" using Suc.prems(2) by (simp add: word_less_nat_alt)
  have IH: "uloads (va + 1) n s = Done (map (\<lambda>i. user_byte s (va + 1 + of_nat i)) [0..<n]) s" if "n > 0"
    by (rule Suc.IH [OF Suc.prems(1)]) (use add_below(1) [OF Suc.prems(2), of 1] that Suc.prems(2) in simp)
  have m: "map (\<lambda>i. user_byte s (va + of_nat i)) [0..<Suc n] = user_byte s va # map (\<lambda>i. user_byte s (va + 1 + of_nat i)) [0..<n]"
    by (simp add: upt_conv_Cons map_Suc_upt [symmetric] comp_def add.assoc del: upt_Suc)
  show ?case unfolding m using IH uload_run [OF Suc.prems(1) v] by (cases "n = 0") (simp_all add: run_simps)
qed (simp add: run_simps)

lemma fetchint_run:
  assumes u: "user_ready sz s"
  shows "fetchint addr s = Done (if unat addr + 4 \<le> unat sz
    then Some (to_int32 (le_nat (map (\<lambda>i. user_byte s (addr + of_nat i)) [0..<4]))) else None) s"
proof -
  have k: "unat sz \<le> 2147483648" using u by (simp add: user_ready_def KERNBASE_def word_le_nat_alt)
  have "unat (addr + 4) = unat addr + 4" if "addr < sz"
    using that k by (simp add: unat_word_ariths word_less_nat_alt)
  then have "(addr \<ge> sz \<or> addr + 4 > sz) \<longleftrightarrow> \<not> unat addr + 4 \<le> unat sz"
    by (cases "addr < sz") (auto simp: word_less_nat_alt word_le_nat_alt not_less not_le)
  then show ?thesis using cur_sz_run [OF u] uloads_run [OF u, of addr 4] by (simp add: fetchint_def run_simps)
qed

text \<open>A string is scanned up to its zero byte and never beyond the end of the process.\<close>

lemma fetchstr_loop_run:
  assumes u: "user_ready sz s"
  shows "unat a + n \<le> unat sz \<Longrightarrow> fetchstr_loop n a s =
    Done (if \<exists>i < n. user_byte s (a + of_nat i) = 0
      then Some (takeWhile (\<lambda>c. c \<noteq> 0) (map (\<lambda>i. user_byte s (a + of_nat i)) [0..<n])) else None) s"
proof (induction n arbitrary: a)
  case (Suc n)
  let ?c = "user_byte s a" and ?m = "map (\<lambda>i. user_byte s (a + 1 + of_nat i)) [0..<n]"
  have v: "a < sz" using Suc.prems by (simp add: word_less_nat_alt)
  have IH: "fetchstr_loop n (a + 1) s = Done (if 0 \<in> set ?m then Some (takeWhile (\<lambda>c. c \<noteq> 0) ?m) else None) s"
  proof (cases "n = 0")
    case False
    have "unat (a + 1) + n \<le> unat sz" using add_below(1) [OF Suc.prems, of 1] False Suc.prems by simp
    then show ?thesis using Suc.IH [of "a + 1"] by (auto simp: image_iff)
  qed (simp add: run_simps)
  have m: "map (\<lambda>i. user_byte s (a + of_nat i)) [0..<Suc n] = ?c # ?m"
    by (simp add: upt_conv_Cons map_Suc_upt [symmetric] comp_def add.assoc del: upt_Suc)
  have ex: "(\<exists>i < k. user_byte s (a + of_nat i) = 0) \<longleftrightarrow> 0 \<in> set (map (\<lambda>i. user_byte s (a + of_nat i)) [0..<k])" for k
    by (auto simp: image_iff)
  show ?case unfolding ex m using IH uload_run [OF u v] by (auto simp: run_simps)
qed (simp add: run_simps)

lemma fetchstr_run:
  assumes u: "user_ready sz s"
  shows "fetchstr addr s = Done (if \<exists>i < unat sz - unat addr. user_byte s (addr + of_nat i) = 0
      then Some (takeWhile (\<lambda>c. c \<noteq> 0) (map (\<lambda>i. user_byte s (addr + of_nat i)) [0..<unat sz - unat addr])) else None) s"
proof (cases "addr < sz")
  case True
  then have d: "unat (sz - addr) = unat sz - unat addr" by (simp add: unat_sub less_imp_le)
  show ?thesis
    using fetchstr_loop_run [OF u, of addr "unat sz - unat addr"] True cur_sz_run [OF u]
    by (simp add: fetchstr_def run_simps d not_le less_imp_le word_less_nat_alt)
next
  case False
  then show ?thesis using cur_sz_run [OF u] by (simp add: fetchstr_def run_simps word_le_nat_alt not_less)
qed

lemma argint_run: "user_ready sz s \<Longrightarrow> \<exists>r. argint n s = Done r s"
  using fetchint_run [of sz s] by (auto simp: argint_def myproc_def run_simps user_ready_def)

lemma argptr_run:
  assumes u: "user_ready sz s"
  shows "\<exists>r. argptr n len s = Done r s \<and> (\<forall>p. r = Some p \<longrightarrow> 0 \<le> len \<longrightarrow> len < 2147483648 \<longrightarrow> unat p + nat len \<le> unat sz)"
proof -
  have k: "unat sz \<le> 2147483648" using u by (simp add: user_ready_def KERNBASE_def word_le_nat_alt)
  have "unat p + nat len \<le> unat sz" if p: "\<not> p \<ge> sz" "\<not> p + of_int len > sz" and z: "0 \<le> len" "len < 2147483648" for p :: u32
  proof -
    have "unat (of_int len :: u32) = nat len" using z by (simp add: unat_eq_nat_uint uint_word_of_int_eq take_bit_eq_mod)
    then have "unat (p + of_int len) = unat p + nat len" using p(1) k z by (simp add: unat_word_ariths word_le_nat_alt)
    then show ?thesis using p(2) by (simp add: word_less_nat_alt)
  qed
  then show ?thesis
    using argint_run [OF u, of n] cur_sz_run [OF u] by (auto simp: argptr_def run_simps Let_def split: option.splits)
qed

text \<open>
  C1 (safety). Whatever a process passes to a system call, the kernel reads its arguments without a
  page fault, without changing anything, and only inside the process: a number is fetched exactly
  when its four bytes lie below the size of the process; a string is returned only when it ends with
  a zero byte below that size; and a buffer accepted by \<open>argptr\<close> lies below it as a whole.
\<close>

theorem args_safe:
  assumes "user_ready sz s"
  shows "(\<exists>r. fetchint addr s = Done r s \<and> (r \<noteq> None \<longleftrightarrow> unat addr + 4 \<le> unat sz)) \<and>
    (\<exists>r. fetchstr addr s = Done r s \<and> (\<forall>bs. r = Some bs \<longrightarrow> unat addr + length bs < unat sz \<and> 0 \<notin> set bs \<and>
       (\<forall>i < length bs. bs ! i = user_byte s (addr + of_nat i)) \<and> user_byte s (addr + of_nat (length bs)) = 0)) \<and>
    (\<exists>r. argptr n len s = Done r s \<and> (\<forall>p. r = Some p \<longrightarrow> 0 \<le> len \<longrightarrow> len < 2147483648 \<longrightarrow> unat p + nat len \<le> unat sz))"
proof (intro conjI)
  show "\<exists>r. fetchint addr s = Done r s \<and> (r \<noteq> None \<longleftrightarrow> unat addr + 4 \<le> unat sz)"
    unfolding fetchint_run [OF assms] by simp
  let ?m = "map (\<lambda>i. user_byte s (addr + of_nat i)) [0..<unat sz - unat addr]"
  let ?t = "takeWhile (\<lambda>c. c \<noteq> 0) ?m"
  have "unat addr + length ?t < unat sz \<and> 0 \<notin> set ?t \<and> (\<forall>i < length ?t. ?t ! i = user_byte s (addr + of_nat i)) \<and>
     user_byte s (addr + of_nat (length ?t)) = 0" if "\<exists>i < unat sz - unat addr. user_byte s (addr + of_nat i) = 0"
  proof -
    have l: "length ?t < length ?m" 
    proof (rule ccontr)
      assume "\<not> length ?t < length ?m"
      then have "length ?t = length ?m" using length_takeWhile_le [of "\<lambda>c. c \<noteq> 0" ?m] by simp
      then have "?t = ?m" using takeWhile_eq_take [of "\<lambda>c. c \<noteq> 0" ?m] by simp
      then have "\<forall>c \<in> set ?m. c \<noteq> 0" using takeWhile_eq_all_conv [of "\<lambda>c. c \<noteq> 0" ?m] by simp
      then show False using that by auto
    qed
    then have "?m ! length ?t = 0" using nth_length_takeWhile [of "\<lambda>c. c \<noteq> 0" ?m] by simp
    moreover have "\<forall>i < length ?t. ?t ! i = ?m ! i" using takeWhile_nth [of _ "\<lambda>c. c \<noteq> 0" ?m] by blast
    moreover have "0 \<notin> set ?t" using set_takeWhileD by fastforce
    ultimately show ?thesis using l by auto
  qed
  then show "\<exists>r. fetchstr addr s = Done r s \<and> (\<forall>bs. r = Some bs \<longrightarrow> unat addr + length bs < unat sz \<and> 0 \<notin> set bs \<and>
       (\<forall>i < length bs. bs ! i = user_byte s (addr + of_nat i)) \<and> user_byte s (addr + of_nat (length bs)) = 0)"
    unfolding fetchstr_run [OF assms] by simp
  show "\<exists>r. argptr n len s = Done r s \<and> (\<forall>p. r = Some p \<longrightarrow> 0 \<le> len \<longrightarrow> len < 2147483648 \<longrightarrow> unat p + nat len \<le> unat sz)"
    by (rule argptr_run [OF assms])
qed

text \<open>A process of eight bytes, with one page table and one page.\<close>

definition small_user :: kernel where
  "small_user = small_kernel\<lparr>
     pmem := (\<lambda>pg i. if pg = 0x80001000 \<and> i = 0 then 0x2007 else if pg = 0x80002000 \<and> i = 0 then 0x3007
       else if pg = 0x80003000 \<and> i = 0 then 0x00006968 else 0),
     cpus := (cpus small_kernel)(0 := (cpus small_kernel 0)\<lparr>cr3 := 0x1000\<rparr>),
     ptable := (ptable small_kernel)[1 := (ptable small_kernel ! 1)\<lparr>p_sz := 8\<rparr>]\<rparr>"

lemma small_words: "va < (8 :: u32) \<Longrightarrow> va \<in> {0, 1, 2, 3, 4, 5, 6, 7}"
proof -
  assume "va < 8"
  then have "unat va \<in> set [0..<8]" by (simp add: word_less_nat_alt)
  moreover have "[0..<8] = [0, 1, 2, 3, 4, 5, 6, 7]" by code_simp
  ultimately have "of_nat (unat va) \<in> (of_nat :: nat \<Rightarrow> u32) ` set [0, 1, 2, 3, 4, 5, 6, 7]" by (metis imageI)
  then show ?thesis by simp
qed

lemma small_mmu: "va < 8 \<Longrightarrow> mmu False va small_user = Some (0x80003000 + va)"
  using small_words [of va] small_kernel_boot(7)
  by (auto simp: mmu_def Let_def pte_at_def small_user_def mycpu_def PTE_ADDR_def PDX_def PTX_def PTE_P_def p2v_def KERNBASE_def)

lemma small_user_ready: "user_ready 8 small_user"
  using small_kernel_boot small_mmu
  by (auto simp: user_ready_def small_user_def curproc_def mycpu_def KERNBASE_def)

theorem args_safe_witness:
  "\<exists>r. fetchint 5 small_user = Done r small_user \<and> r = None"
  using args_safe [OF small_user_ready, of 5 0 0] by auto

section \<open>Dispatch\<close>

lemma cons_frame_ptable:
  assumes "cons_frame s t"
  shows "cons_frame (s\<lparr>ptable := p\<rparr>) (t\<lparr>ptable := p\<rparr>)"
proof -
  obtain po pc m cur where t: "t = s\<lparr>port_out := po, port_cnt := pc, crt := m, crt_cursor := cur\<rparr>"
    using assms by (auto simp: cons_frame_def)
  have "t\<lparr>ptable := p\<rparr> = (s\<lparr>ptable := p\<rparr>)\<lparr>port_out := po, port_cnt := pc, crt := m, crt_cursor := cur\<rparr>"
    unfolding t by (rule consoles.equality; simp)
  then show ?thesis using cons_frameI by metis
qed

definition syscall_msg :: "proc \<Rightarrow> int \<Rightarrow> int list" where
  "syscall_msg p num = the (fmt_text (''%d %s: unknown sys call %d'' @ [CHR 0x0A])
     [ArgW (of_int (p_pid p)), ArgS (Some (p_name p)), ArgW (of_int num)])"

text \<open>
  C2 (error). A system call with a number that is not in the table, negative ones included, prints
  a message, returns -1 to the process and changes nothing else; with a number in the table the
  handler runs and its result, if it returns one, goes into \<open>eax\<close> of the process.
\<close>

theorem syscall_dispatch:
  fixes s :: "'z kernel_scheme"
  assumes q: "quiet s" "can_print s" and me: "curproc s = Some me" and num: "num = sint (tf_eax (p_tf (ptable s ! me)))"
  shows "if num \<in> {1..22}
    then \<exists>f. map_of syscalls (nat num) = Some f \<and> (\<forall>r t. f s = Done r t \<longrightarrow> syscall s = set_eax me r t)
    else \<exists>t. syscall s = Done () t \<and> serial t = serial s @ concat (map char_bytes (syscall_msg (ptable s ! me) num)) \<and>
      ptable t = (ptable s)[me := (ptable s ! me)\<lparr>p_tf := (p_tf (ptable s ! me))\<lparr>tf_eax := - 1\<rparr>\<rparr>] \<and>
      cons_frame (s\<lparr>ptable := ptable t\<rparr>) t"
proof (cases "num \<in> {1..22}")
  case True
  have "nat num \<in> set [1..<23]" using True by auto
  moreover have "[1..<23] = [1, 2, 3, 4, 5, 6, 7, 8, 9, 10, 11, 12, 13, 14, 15, 16, 17, 18, 19, 20, 21, 22]" by code_simp
  then have "set [1..<23] = set (map fst (syscalls :: (nat \<times> ('z kernel_scheme, int) km) list))"
    by (simp only:) (simp add: syscalls_def)
  ultimately obtain f where f: "map_of (syscalls :: (nat \<times> ('z kernel_scheme, int) km) list) (nat num) = Some f"
    by (metis in_set_conv_decomp map_of_eq_None_iff list.set_map not_None_eq)
  have "syscall s = set_eax me r t" if "f s = Done r t" for r t
    using that f True num me by (simp add: syscall_def myproc_def run_simps Let_def)
  then show ?thesis using True f by auto
next
  case False
  have none: "(if num > 0 then map_of syscalls (nat num) else None) = (None :: ('z kernel_scheme, int) km option)"
  proof (cases "num > 0")
    case True
    then have "nat num > 22" using False by auto
    then have "nat num \<notin> fst ` set (syscalls :: (nat \<times> ('z kernel_scheme, int) km) list)" by (auto simp: syscalls_def)
    then show ?thesis by (simp add: map_of_eq_None_iff)
  qed simp
  let ?p = "ptable s ! me"
  let ?args = "[ArgW (of_int (p_pid ?p)), ArgS (Some (p_name ?p)), ArgW (of_int num)]"
  have msg: "fmt_text (''%d %s: unknown sys call %d'' @ [CHR 0x0A]) ?args = Some (syscall_msg ?p num)"
    by (simp add: syscall_msg_def)
  have "wp (cprintf (Some (''%d %s: unknown sys call %d'' @ [CHR 0x0A])) ?args)
      (\<lambda>_ t. \<exists>u. t = crit [] u \<and> prints (syscall_msg ?p num) s u) (crit [] s)"
    by (rule cprintf_prints [OF q(1) _ _ q(2) msg]) simp_all
  then obtain t where t: "cprintf (Some (''%d %s: unknown sys call %d'' @ [CHR 0x0A])) ?args s = Done () (crit [] t)" "prints (syscall_msg ?p num) s t"
    unfolding crit_Nil [OF q(1)] wp_iff_unit by blast
  have "quiet t" using t(2) q(1) cons_frame_same [of s t] by (simp add: prints_def)
  note t = t(1) [unfolded crit_Nil [OF this]] t(2)
  let ?u = "t\<lparr>ptable := (ptable t)[me := (ptable t ! me)\<lparr>p_tf := (p_tf (ptable t ! me))\<lparr>tf_eax := - 1\<rparr>\<rparr>]\<rparr>"
  have "syscall s = kthen (cprintf (Some (''%d %s: unknown sys call %d'' @ [CHR 0x0A])) ?args) (set_eax me (- 1)) s"
    by (simp only: syscall_def myproc_def run_kbind run_gets run_ret me option.case outcome.case Let_def num [symmetric] none)
  then have "syscall s = Done () ?u" unfolding run_kthen t(1) by (simp add: set_eax_def upd_proc_def run_simps)
  moreover have "ptable t = ptable s" "serial ?u = serial t" using t(2) cons_frame_same [of s t] by (simp_all add: prints_def serial_def)
  moreover have "cons_frame (s\<lparr>ptable := ptable ?u\<rparr>) ?u" using t(2) cons_frame_ptable [of s t] by (simp add: prints_def)
  ultimately show ?thesis using t(2) False by (auto simp: prints_def)
qed

theorem syscall_dispatch_witness: "\<exists>t. syscall small_kernel = Done () t \<and> tf_eax (p_tf (ptable t ! 1)) = - 1"
proof -
  have p: "can_print small_kernel"
    using small_consoles_boot
    by (simp add: can_print_def small_kernel_def files.defs small_files_def devsws.defs small_devsws_def inodes.defs
        small_inodes_def consoles.defs)
  have "tf_eax (p_tf (ptable small_kernel ! 1)) = 0"
    by (simp add: small_kernel_boot(6) small_files_boot(6) small_devsws_boot(6) small_inodes_boot(6) small_consoles_boot(6)
        small_devs_boot(6) small_procs_def zero_proc_def Sched.zero_tf_def)
  then show ?thesis
    using syscall_dispatch [OF small_kernel_boot(1) p small_kernel_boot(2) refl] small_kernel_boot(3) by auto
qed

section \<open>Run time and waiting time\<close>

text \<open>
  The times of a process: ticks counted for it never exceed the ticks since its creation, up to now
  while it lives and up to its exit once it is a zombie.
\<close>

definition times_ok :: "'z procs_scheme \<Rightarrow> bool" where
  "times_ok s \<longleftrightarrow> (\<forall>p \<in> set (ptable s). p_state p \<noteq> UNUSED \<longrightarrow> 0 \<le> p_rtime p \<and> 0 \<le> p_iotime p \<and>
     p_rtime p + p_iotime p \<le> (if p_state p = ZOMBIE then p_etime p else sint (ticks s)) - p_ctime1 p)"

lemma timer_tick_run:
  assumes "quiet s"
  shows "timer_tick s = Done () (let t = woken ChanTicks (s\<lparr>ticks := ticks s + 1\<rparr>) in
    case curproc s of None \<Rightarrow> t | Some me \<Rightarrow> t\<lparr>ptable := (ptable t)[me := account (ptable t ! me)]\<rparr>)"
proof -
  let ?u = "s\<lparr>ticks := ticks s + 1\<rparr>"
  have u: "quiet ?u" "quiet (woken ChanTicks ?u)" "(crit [TicksLock] s)\<lparr>ticks := ticks s + 1\<rparr> = crit [TicksLock] ?u"
    using assms by (simp_all add: crit_simps)
  have w: "wakeup ChanTicks (crit [TicksLock] ?u) = Done () (crit [TicksLock] (woken ChanTicks ?u))"
    by (rule wakeup_run [OF u(1)]) simp_all
  have c: "curproc (woken ChanTicks ?u) = curproc s" by (simp add: woken_def)
  show ?thesis
    by (simp add: timer_tick_def run_simps acquire_quiet [OF assms] u(3) crit_simps w release_quiet [OF u(2)] c upd_proc_def Let_def
        split: option.splits)
qed

lemma sint_tick: "sint (x :: u32) < 2147483647 \<Longrightarrow> sint (x + 1) = sint x + 1"
proof -
  assume "sint x < 2147483647"
  moreover have "- 2147483648 \<le> sint x" using sint_ge [of x] by simp
  ultimately show ?thesis by (simp add: sint_word_ariths signed_take_bit_int_eq_self)
qed

text \<open>
  C1 (invariant). Accounting. A clock tick on the first CPU counts one tick of run time for the process
  it interrupts and for no other, and keeps the times consistent; so does the last step of \<open>exit\<close>.
  Therefore the waiting time \<open>waitx\<close> reports is never negative. The io time of a process is never
  counted: the interrupted process is running, never asleep.
\<close>

theorem ticks_account:
  assumes q: "quiet s" and ok: "times_ok s" and tk: "sint (ticks s) < 2147483647"
    and me: "curproc s = Some me" "me < length (ptable s)" "p_state (ptable s ! me) = RUNNING"
  shows "(\<exists>t. timer_tick s = Done () t \<and> ticks t = ticks s + 1 \<and> times_ok t \<and> (\<forall>i < length (ptable s).
      p_rtime (ptable t ! i) = p_rtime (ptable s ! i) + (if i = me then 1 else 0) \<and> p_iotime (ptable t ! i) = p_iotime (ptable s ! i))) \<and>
    times_ok (s\<lparr>ptable := (ptable s)[me := (ptable s ! me)\<lparr>p_state := ZOMBIE, p_etime := sint (ticks s)\<rparr>]\<rparr>) \<and>
    (\<forall>p \<in> set (ptable s). p_state p = ZOMBIE \<longrightarrow> 0 \<le> p_etime p - p_ctime1 p - p_rtime p - p_iotime p)"
proof (intro conjI)
  let ?w = "wake_proc (Some ChanTicks)"
  let ?t = "(woken ChanTicks (s\<lparr>ticks := ticks s + 1\<rparr>))\<lparr>ptable := (map ?w (ptable s))[me := account (?w (ptable s ! me))]\<rparr>"
  have run: "timer_tick s = Done () ?t" using timer_tick_run [OF q] me by (simp add: woken_def)
  have nth: "ptable ?t ! i = (if i = me then (ptable s ! i)\<lparr>p_rtime := p_rtime (ptable s ! i) + 1\<rparr> else ?w (ptable s ! i))"
    if "i < length (ptable s)" for i
    using that me by (auto simp: account_def wake_proc_def nth_list_update)
  have s: "0 \<le> p_rtime p \<and> 0 \<le> p_iotime p \<and> p_rtime p + p_iotime p \<le> (if p_state p = ZOMBIE then p_etime p else sint (ticks s)) - p_ctime1 p"
    if "p \<in> set (ptable s)" "p_state p \<noteq> UNUSED" for p using ok that by (simp add: times_ok_def)
  have "times_ok ?t"
    unfolding times_ok_def
  proof (intro ballI)
    fix p assume "p \<in> set (ptable ?t)"
    then obtain i where i: "i < length (ptable s)" "p = ptable ?t ! i" by (auto simp: in_set_conv_nth)
    have m: "ptable s ! i \<in> set (ptable s)" using i by simp
    have tt: "sint (ticks ?t) = sint (ticks s) + 1" using sint_tick [OF tk] by (simp add: woken_def)
    show "p_state p \<noteq> UNUSED \<longrightarrow> 0 \<le> p_rtime p \<and> 0 \<le> p_iotime p \<and>
      p_rtime p + p_iotime p \<le> (if p_state p = ZOMBIE then p_etime p else sint (ticks ?t)) - p_ctime1 p"
      using s [OF m] me(3) unfolding tt i(2) nth [OF i(1)] by (auto simp: wake_proc_def)
  qed
  then show "\<exists>t. timer_tick s = Done () t \<and> ticks t = ticks s + 1 \<and> times_ok t \<and> (\<forall>i < length (ptable s).
      p_rtime (ptable t ! i) = p_rtime (ptable s ! i) + (if i = me then 1 else 0) \<and> p_iotime (ptable t ! i) = p_iotime (ptable s ! i))"
    using run nth by (intro exI [of _ ?t]) (auto simp: woken_def wake_proc_def)
  show "times_ok (s\<lparr>ptable := (ptable s)[me := (ptable s ! me)\<lparr>p_state := ZOMBIE, p_etime := sint (ticks s)\<rparr>]\<rparr>)"
    (is "times_ok (s\<lparr>ptable := (ptable s)[me := ?z]\<rparr>)")
  proof -
    have "p = ?z \<or> p \<in> set (ptable s)" if "p \<in> set ((ptable s)[me := ?z])" for p using that set_update_subset_insert by fast
    then show ?thesis using s s [of "ptable s ! me"] me unfolding times_ok_def by fastforce
  qed
  show "\<forall>p \<in> set (ptable s). p_state p = ZOMBIE \<longrightarrow> 0 \<le> p_etime p - p_ctime1 p - p_rtime p - p_iotime p"
    using ok by (auto simp: times_ok_def)
qed

theorem ticks_account_witness:
  "\<exists>t. timer_tick small_kernel = Done () t \<and> p_rtime (ptable t ! 1) = 1"
proof -
  have p: "ptable small_kernel = [zero_proc, zero_proc\<lparr>p_state := RUNNING, p_pid := 1, p_chan := None, p_pgdir := 0x80400000\<rparr>]"
    by (simp add: small_kernel_boot(6) small_files_boot(6) small_devsws_boot(6) small_inodes_boot(6) small_consoles_boot(6)
        small_devs_boot(6) small_procs_def)
  have t: "ticks small_kernel = 0"
    by (simp add: small_kernel_def files.defs small_files_def devsws.defs small_devsws_def inodes.defs
        small_inodes_def consoles.defs small_consoles_def devs.defs small_devs_def logs.defs small_logs_def caches.defs small_cache_def
        disks.defs small_disk_def kmems.defs small_kmem_def procs.defs small_procs_def)
  have ok: "times_ok small_kernel" by (simp add: times_ok_def p t zero_proc_def)
  show ?thesis
    using ticks_account [OF small_kernel_boot(1) ok _ small_kernel_boot(2)] t p by (auto simp: zero_proc_def)
qed

end
