(* ===== verification/Fsblocks.thy ===== *)
theory Fsblocks imports Inode begin

text \<open>
  What the block allocator and the inode table of \<open>src/fs.c\<close> do to the disk, seen through the
  transaction: \<open>balloc\<close> and \<open>bfree\<close> add a block to the set of used blocks and take one out of it,
  \<open>iupdate\<close> and \<open>ilock\<close> store and load one entry of the table of inodes. The proofs rest on the
  contract of the logged blocks alone.
\<close>

unbundle bit_operations_syntax

section \<open>Clients of the transaction\<close>

text \<open>A block that is read, then looked at, and then either changed and logged or only released.\<close>

context logged_blocks
begin

lemma look_then:
  assumes s: "inv s" "n < dsize s" "readable (obs s) n"
    and "\<And>b t. v_held (obs s) b = None \<Longrightarrow> inv t \<Longrightarrow> frame s t \<Longrightarrow>
      obs t = (obs s)\<lparr>v_held := (v_held (obs s))(b \<mapsto> (1, n))\<rparr> \<Longrightarrow> wp (m b (v_blocks (obs s) (1, n))) Q t"
  shows "wp (kbind (rd n) (\<lambda>b. kbind (gets (data b)) (m b))) Q s"
  unfolding wp_kbind wp_gets
proof (rule rd_wp [OF s])
  fix b t
  assume t: "v_held (obs s) b = None" "inv t" "frame s t" "obs t = (obs s)\<lparr>v_held := (v_held (obs s))(b \<mapsto> (1, n))\<rparr>"
  moreover have "data b t = v_blocks (obs s) (1, n)" using data_law [OF t(2), of b "(1, n)"] t(4) by simp
  ultimately show "wp (m b (data b t)) Q t" using assms(4) by simp
qed

lemma release_then:
  assumes s: "inv s" "readable (obs s) n" "v_held (obs s) b = None"
    and t: "inv t" "frame s t" "obs t = (obs s)\<lparr>v_held := (v_held (obs s))(b \<mapsto> (1, n))\<rparr>"
    and k: "\<And>u. inv u \<Longrightarrow> frame s u \<Longrightarrow> obs u = obs s \<Longrightarrow> wp k Q u"
  shows "wp (kthen (rl b) k) Q t"
proof -
  have "(1, n) \<in> v_dirty (obs s) \<or> v_blocks (obs s) (1, n) = v_disk (obs s) (1, n)"
    by (rule held_clean [OF s(1)]) (use s(2) in \<open>simp add: readable_def\<close>)
  then show ?thesis
    unfolding wp_kthen
    by (intro rl_wp [OF t(1), of b "(1, n)"]) (use s t k frame_trans [OF t(2)] in \<open>auto simp: fun_upd_idem\<close>)
qed

lemma change_then:
  assumes s: "n \<notin> area s" "card (v_dirty (obs s)) < cap s" "v_held (obs s) b = None" "length (f (v_blocks (obs s) (1, n))) = BSIZE"
    and t: "inv t" "frame s t" "obs t = (obs s)\<lparr>v_held := (v_held (obs s))(b \<mapsto> (1, n))\<rparr>"
    and k: "\<And>u. inv u \<Longrightarrow> frame s u \<Longrightarrow> obs u = logged n (f (v_blocks (obs s) (1, n))) (obs s) \<Longrightarrow> wp k Q u"
  shows "wp (kthen (modify (st b f)) (kthen (lw b) (kthen (rl b) k))) Q t"
  unfolding wp_kthen
proof (rule st_wp [OF t(1), of b "(1, n)" f])
  fix u assume u: "inv u" "frame t u" "obs u = (obs t)\<lparr>v_blocks := (v_blocks (obs t))((1, n) := f (v_blocks (obs t) (1, n)))\<rparr>"
  have fu: "frame s u" using frame_trans t(2) u(2) .
  show "wp (lw b) (\<lambda>_. wp (rl b) (\<lambda>_. wp k Q)) u"
  proof (rule lw_wp [OF u(1), of b n])
    fix v assume v: "inv v" "frame u v" "obs v = (obs u)\<lparr>v_dirty := insert (1, n) (v_dirty (obs u))\<rparr>"
    show "wp (rl b) (\<lambda>_. wp k Q) v"
      by (rule rl_wp [OF v(1), of b "(1, n)"])
        (use s t u v k frame_trans [OF frame_trans [OF fu v(2)]] in \<open>auto simp: logged_def fun_upd_idem\<close>)
  qed (use t u s frame_cap [OF fu] frame_area [OF fu] in simp_all)
qed (use t s in simp_all)

end

section \<open>Bits of the free map\<close>

lemma bit_free_bit: "bit_free d bi \<longleftrightarrow> \<not> bit (d ! (bi div 8)) (bi mod 8)"
  by (simp add: bit_free_def bmask_def push_bit_of_1 and_exp_eq_0_iff_not_bit)

lemma bit_bmask: "bit (bmask bi) k \<longleftrightarrow> k = bi mod 8"
proof -
  have "bi mod 8 < LENGTH(8)" by simp
  then show ?thesis by (auto simp: bmask_def push_bit_of_1 bit_exp_iff possible_bit_word)
qed

lemma div_mod_8: "(bi::nat) div 8 = bj div 8 \<Longrightarrow> bi mod 8 = bj mod 8 \<Longrightarrow> bi = bj"
  by (metis div_mod_decomp)

lemma bit_free_set:
  "bi div 8 < length d \<Longrightarrow> bit_free (bit_set bi d) bj \<longleftrightarrow> bi \<noteq> bj \<and> bit_free d bj"
  using div_mod_8 [of bi bj]
  by (auto simp: bit_free_bit bit_set_def nth_list_update bit_or_iff bit_bmask)

lemma bit_free_clear:
  "bi div 8 < length d \<Longrightarrow> bit_free (bit_clear bi d) bj \<longleftrightarrow> bi = bj \<or> bit_free d bj"
  using div_mod_8 [of bi bj]
  by (auto simp: bit_free_bit bit_clear_def nth_list_update bit_and_iff bit_not_iff bit_bmask possible_bit_word)

lemma length_bit_upd [simp]: "length (bit_set bi d) = length d" "length (bit_clear bi d) = length d"
  by (simp_all add: bit_set_def bit_clear_def)

section \<open>The file system inside a transaction\<close>

text \<open>
  The blocks of the free map; the used blocks; and a file system in order: nothing held, the super
  block in memory is the one on the disk, and the super block, the free map and the log are marked used.
\<close>

definition bitmaps :: "superblock \<Rightarrow> nat set" where
  "bitmaps k = {sb_bmapstart k..sb_bmapstart k + (sb_size k - 1) div BPB}"

definition used :: "cview \<Rightarrow> superblock \<Rightarrow> nat set" where
  "used v k = {b. b < sb_size k \<and> \<not> bit_free (v_blocks v (1, sb_bmapstart k + b div BPB)) (b mod BPB)}"

definition fs_view :: "superblock \<Rightarrow> nat set \<Rightarrow> cview \<Rightarrow> bool" where
  "fs_view k area v \<longleftrightarrow> v_held v = Map.empty \<and> get_sb (v_blocks v (1, 1)) = k \<and>
     insert 1 (bitmaps k \<union> area) \<subseteq> used v k"

definition fs_shape :: "superblock \<Rightarrow> nat set \<Rightarrow> nat \<Rightarrow> bool" where
  "fs_shape k area ds \<longleftrightarrow> 1 \<le> sb_size k \<and> sb_size k \<le> ds \<and> 1 \<notin> bitmaps k \<and> bitmaps k \<inter> area = {}"

definition fs_sane :: "'z inodes_scheme \<Rightarrow> bool" where
  "fs_sane s \<longleftrightarrow> in_op s \<and> fs_shape (sb s) (log_area (klog s)) (disksize s) \<and>
     fs_view (sb s) (log_area (klog s)) (cobs s)"

definition room :: "nat \<Rightarrow> 'z logs_scheme \<Rightarrow> bool" where
  "room n s \<longleftrightarrow> card (v_dirty (cobs s)) + n \<le> log_cap s"

lemma lframe_fs:
  fixes s t :: "'z inodes_scheme"
  assumes "lframe s t"
  shows "sb t = sb s" "icache t = icache s"
proof -
  obtain h pt bs dw nx pv where "t = (upd_lh (\<lambda>_. h) s)\<lparr>ptable := pt, bufs := bs, dwrites := dw, bnext := nx, bprev := pv\<rparr>"
    using assms unfolding lframe_def cframe_def by blast
  then show "sb t = sb s" "icache t = icache s" by (simp_all add: upd_lh_def)
qed

lemma in_op_small: "in_op s \<Longrightarrow> disksize s < 2147483648"
  by (simp add: in_op_def trans_ok_def log_geom_def)

lemma BBLOCK_in:
  assumes "fs_sane s" "b < sb_size (sb s)"
  shows "BBLOCK b (sb s) = sb_bmapstart (sb s) + b div BPB" "BBLOCK b (sb s) \<in> bitmaps (sb s)"
    "BBLOCK b (sb s) < disksize s" "BBLOCK b (sb s) \<notin> log_area (klog s)"
proof -
  have "b div BPB \<le> (sb_size (sb s) - 1) div BPB" using assms(2) by (intro div_le_mono) simp
  then have i: "sb_bmapstart (sb s) + b div BPB \<in> bitmaps (sb s)" by (simp add: bitmaps_def)
  moreover have "bitmaps (sb s) \<subseteq> used (cobs s) (sb s)" using assms(1) by (simp add: fs_sane_def fs_view_def)
  ultimately have l: "sb_bmapstart (sb s) + b div BPB < sb_size (sb s)" by (auto simp: used_def)
  moreover have ds: "sb_size (sb s) \<le> disksize s" "disksize s < 2147483648"
    using assms(1) in_op_small [of s] by (auto simp: fs_sane_def fs_shape_def)
  ultimately show e: "BBLOCK b (sb s) = sb_bmapstart (sb s) + b div BPB" by (simp add: BBLOCK_def uint32_def)
  show "BBLOCK b (sb s) \<in> bitmaps (sb s)" "BBLOCK b (sb s) < disksize s" using e i l ds by auto
  show "BBLOCK b (sb s) \<notin> log_area (klog s)" using e i assms(1) by (auto simp: fs_sane_def fs_shape_def)
qed

lemma sane_readable: "fs_sane s \<Longrightarrow> room 1 s \<Longrightarrow> readable (cobs s) n"
  by (auto simp: fs_sane_def fs_view_def readable_def room_def log_cap_def ran_def)

text \<open>Logging a block that is not one of the special ones keeps the file system in order.\<close>

lemma used_logged:
  "n \<notin> bitmaps k \<Longrightarrow> used (logged n x v) k = used v k"
proof -
  assume n: "n \<notin> bitmaps k"
  have "sb_bmapstart k + b div BPB \<noteq> n" if "b < sb_size k" for b
  proof -
    have "b div BPB \<le> (sb_size k - 1) div BPB" using that by (intro div_le_mono) simp
    then show ?thesis using n by (auto simp: bitmaps_def)
  qed
  then show ?thesis by (auto simp: used_def logged_def)
qed

lemma div_mod_BPB: "(b::nat) div BPB = c div BPB \<Longrightarrow> b mod BPB = c mod BPB \<Longrightarrow> b = c"
  by (metis div_mod_decomp)

lemma bit_index: "b mod BPB div 8 < BSIZE"
proof -
  have "b mod BPB < BPB" by (simp add: BPB_def)
  then show ?thesis by (simp add: BPB_def BSIZE_def)
qed

lemma used_set:
  assumes "b < sb_size k" "length (v_blocks v (1, sb_bmapstart k + b div BPB)) = BSIZE"
  shows "used (logged (sb_bmapstart k + b div BPB) (bit_set (b mod BPB) (v_blocks v (1, sb_bmapstart k + b div BPB))) v) k =
    insert b (used v k)"
proof -
  note bits = bit_free_set [of "b mod BPB" "v_blocks v (1, sb_bmapstart k + b div BPB)"]
  have "c \<in> used (logged (sb_bmapstart k + b div BPB) (bit_set (b mod BPB) (v_blocks v (1, sb_bmapstart k + b div BPB))) v) k \<longleftrightarrow>
    c = b \<or> c \<in> used v k" for c
  proof (cases "c div BPB = b div BPB")
    case True
    then have "b mod BPB = c mod BPB \<longleftrightarrow> c = b" using div_mod_BPB [of c b] by auto
    then show ?thesis using assms bits bit_index [of b] True by (auto simp: used_def logged_def)
  next
    case False
    then have "c \<noteq> b" by blast
    then show ?thesis using False by (simp add: used_def logged_def)
  qed
  then show ?thesis by blast
qed

lemma used_clear:
  assumes "b < sb_size k" "length (v_blocks v (1, sb_bmapstart k + b div BPB)) = BSIZE"
  shows "used (logged (sb_bmapstart k + b div BPB) (bit_clear (b mod BPB) (v_blocks v (1, sb_bmapstart k + b div BPB))) v) k =
    used v k - {b}"
proof -
  note bits = bit_free_clear [of "b mod BPB" "v_blocks v (1, sb_bmapstart k + b div BPB)"]
  have "c \<in> used (logged (sb_bmapstart k + b div BPB) (bit_clear (b mod BPB) (v_blocks v (1, sb_bmapstart k + b div BPB))) v) k \<longleftrightarrow>
    c \<noteq> b \<and> c \<in> used v k" for c
  proof (cases "c div BPB = b div BPB")
    case True
    then have "b mod BPB = c mod BPB \<longleftrightarrow> c = b" using div_mod_BPB [of c b] by auto
    then show ?thesis using assms bits bit_index [of b] True by (auto simp: used_def logged_def)
  next
    case False
    then have "c \<noteq> b" by blast
    then show ?thesis using False by (simp add: used_def logged_def)
  qed
  then show ?thesis by blast
qed

section \<open>The block allocator\<close>

text \<open>The machine after an operation of the allocator, and what it leaves alone.\<close>

definition fs_step :: "nat set \<Rightarrow> nat set \<Rightarrow> 'z inodes_scheme \<Rightarrow> 'z inodes_scheme \<Rightarrow> bool" where
  "fs_step U ch s t \<longleftrightarrow> fs_sane t \<and> lframe s t \<and> used (cobs t) (sb t) = U \<and>
     (\<forall>a. a \<notin> Pair 1 ` (bitmaps (sb s) \<union> ch) \<longrightarrow> v_blocks (cobs t) a = v_blocks (cobs s) a) \<and>
     card (v_dirty (cobs t)) \<le> card (v_dirty (cobs s)) + 1 + card ch"

lemma card_logged: "card (v_dirty (logged n x v)) \<le> Suc (card (v_dirty v))"
  by (simp add: logged_def card_insert_le_m1 card_insert_if)

lemma fs_sane_logged:
  assumes s: "fs_sane s" and t: "in_op t" "lframe s t" "cobs t = logged n x (cobs s)"
    and n: "n \<noteq> 1" "insert 1 (bitmaps (sb s) \<union> log_area (klog s)) \<subseteq> used (cobs t) (sb s)"
  shows "fs_sane t"
  using s t n lframe_same [OF t(2)] lframe_fs [OF t(2)]
  by (simp add: fs_sane_def fs_view_def logged_def)

lemma bzero_wp:
  assumes s: "fs_sane s" "room 1 s" and n: "n \<notin> bitmaps (sb s)" "n \<notin> log_area (klog s)" "n \<noteq> 1" "n < disksize s"
  shows "wp (bzero 1 n) (\<lambda>_ t. fs_sane t \<and> lframe s t \<and> cobs t = logged n (replicate BSIZE 0) (cobs s)) s"
proof -
  have i: "in_op s" using s by (simp add: fs_sane_def)
  have "wp (bzero 1 n) (\<lambda>_ t. in_op t \<and> lframe s t \<and> cobs t = logged n (replicate BSIZE 0) (cobs s)) s"
    unfolding bzero_def
    by (rule txn.log_block [OF i n(4) sane_readable [OF s] n(2)]) (use s in \<open>simp_all add: room_def\<close>)
  then show ?thesis
  proof (rule wp_mono)
    fix t :: "'a inodes_scheme"
    assume t: "in_op t \<and> lframe s t \<and> cobs t = logged n (replicate BSIZE 0) (cobs s)"
    have "insert 1 (bitmaps (sb s) \<union> log_area (klog s)) \<subseteq> used (cobs t) (sb s)"
      using s(1) t used_logged [OF n(1)] by (simp add: fs_sane_def fs_view_def)
    then show "fs_sane t \<and> lframe s t \<and> cobs t = logged n (replicate BSIZE 0) (cobs s)"
      using fs_sane_logged [OF s(1), of t n] t n by blast
  qed
qed

lemma fs_sane_same: "fs_sane s \<Longrightarrow> in_op u \<Longrightarrow> lframe s u \<Longrightarrow> cobs u = cobs s \<Longrightarrow> fs_sane u"
  using lframe_same [of s u] lframe_fs [of s u] by (simp add: fs_sane_def)

lemma fs_meta: "fs_sane s \<Longrightarrow> insert 1 (bitmaps (sb s) \<union> log_area (klog s)) \<subseteq> used (cobs s) (sb s)"
  by (simp add: fs_sane_def fs_view_def)

text \<open>A free block is taken: its bit has been set, and it is cleared.\<close>

lemma take_block:
  fixes s u :: "'z inodes_scheme"
  assumes s: "fs_sane s" "room 2 s" and b: "b < sb_size (sb s)" "b \<notin> used (cobs s) (sb s)"
    and u: "in_op u" "lframe s u" "cobs u = logged n (bit_set (b mod BPB) (v_blocks (cobs s) (1, n))) (cobs s)"
    and n: "n = sb_bmapstart (sb s) + b div BPB"
  shows "wp (bzero 1 b) (\<lambda>_ w. fs_step (insert b (used (cobs s) (sb s))) {b} s w \<and> v_blocks (cobs w) (1, b) = replicate BSIZE 0) u"
proof -
  let ?k = "sb s"
  have io: "in_op s" and sh: "fs_shape ?k (log_area (klog s)) (disksize s)" using s by (simp_all add: fs_sane_def)
  note meta = fs_meta [OF s(1)]
  have nb: "n \<in> bitmaps ?k" using BBLOCK_in [OF s(1) b(1)] n by simp
  have U: "used (cobs u) ?k = insert b (used (cobs s) ?k)"
    unfolding u(3) n by (rule used_set [OF b(1) txn.length_law [OF io]])
  have su: "fs_sane u" by (rule fs_sane_logged [OF s(1) u]) (use sh nb U meta in \<open>auto simp: fs_shape_def\<close>)
  have k: "sb u = ?k" "log_area (klog u) = log_area (klog s)" "disksize u = disksize s" "log_cap u = log_cap s"
    using lframe_fs [OF u(2)] lframe_same [OF u(2)] by (auto simp: log_cap_def)
  have c: "card (v_dirty (cobs u)) \<le> Suc (card (v_dirty (cobs s)))" unfolding u(3) by (rule card_logged)
  have r1: "room 1 u" using s(2) c k by (simp add: room_def)
  have fresh: "b \<notin> bitmaps (sb u)" "b \<notin> log_area (klog u)" "b \<noteq> 1" "b < disksize u"
    using b meta sh k by (auto simp: fs_shape_def)
  show ?thesis
  proof (rule wp_mono [OF bzero_wp [OF su r1 fresh]])
    fix w :: "'z inodes_scheme"
    assume w: "fs_sane w \<and> lframe u w \<and> cobs w = logged b (replicate BSIZE 0) (cobs u)"
    have kw: "sb w = ?k" using lframe_fs [of u w] w k by simp
    have "fs_step (insert b (used (cobs s) ?k)) {b} s w"
      unfolding fs_step_def kw
    proof (intro conjI allI impI)
      show "fs_sane w" "lframe s w" using w lframe_trans [OF u(2)] by auto
      show "used (cobs w) ?k = insert b (used (cobs s) ?k)" using w used_logged [of b ?k] fresh k U by simp
      show "v_blocks (cobs w) a = v_blocks (cobs s) a" if "a \<notin> Pair 1 ` (bitmaps ?k \<union> {b})" for a
        using that w u nb by (auto simp: logged_def)
      show "card (v_dirty (cobs w)) \<le> card (v_dirty (cobs s)) + 1 + card {b}"
        using w c card_logged [of b "replicate BSIZE 0" "cobs u"] by simp
    qed
    then show "fs_step (insert b (used (cobs s) ?k)) {b} s w \<and> v_blocks (cobs w) (1, b) = replicate BSIZE 0"
      using w by (simp add: logged_def)
  qed
qed

text \<open>One round over a block of the free map: the first free block in it, or nothing changed.\<close>

definition alloc_post :: "nat \<Rightarrow> 'z inodes_scheme \<Rightarrow> 'z inodes_scheme \<Rightarrow> bool" where
  "alloc_post b s t \<longleftrightarrow> b < sb_size (sb s) \<and> b \<notin> used (cobs s) (sb s) \<and>
     fs_step (insert b (used (cobs s) (sb s))) {b} s t \<and> v_blocks (cobs t) (1, b) = replicate BSIZE 0"

lemma balloc_round_wp:
  fixes s :: "'z inodes_scheme"
  assumes s: "fs_sane s" "room 2 s" and i: "BPB * i < sb_size (sb s)"
  shows "wp (balloc_round 1 (sb s) (BPB * i)) (\<lambda>r t. case r of
      None \<Rightarrow> fs_sane t \<and> lframe s t \<and> cobs t = cobs s \<and> (\<forall>b < sb_size (sb s). b div BPB = i \<longrightarrow> b \<in> used (cobs s) (sb s))
    | Some b \<Rightarrow> alloc_post b s t) s"
    (is "wp _ ?Q s")
proof -
  let ?k = "sb s" and ?n = "sb_bmapstart (sb s) + i"
  let ?d = "v_blocks (cobs s) (1, ?n)"
  have io: "in_op s" using s by (simp add: fs_sane_def)
  have pos: "0 < BPB" by (simp add: BPB_def)
  have n: "BBLOCK (BPB * i) ?k = ?n" "?n < disksize s" "?n \<notin> log_area (klog s)"
    using BBLOCK_in [OF s(1) i] pos by simp_all
  have rd: "readable (cobs s) ?n" by (rule sane_readable) (use s in \<open>simp_all add: room_def\<close>)
  have free: "bit_free ?d bi \<longleftrightarrow> BPB * i + bi \<notin> used (cobs s) ?k" if "bi < BPB" "BPB * i + bi < sb_size ?k" for bi
    using that pos by (simp add: used_def)
  show ?thesis
    unfolding balloc_round_def n(1)
  proof (rule txn.look_then [OF io n(2) rd])
    fix b t assume b: "v_held (cobs s) b = None" and t: "in_op t" "lframe s t"
      "cobs t = (cobs s)\<lparr>v_held := (v_held (cobs s))(b \<mapsto> (1, ?n))\<rparr>"
    let ?f = "first_index (bit_free ?d) [0..<min BPB (sb_size ?k - BPB * i)]"
    show "wp (case ?f of
        Some bi \<Rightarrow> kthen (modify (bstore b (bit_set bi))) (kthen (log_write b) (kthen (brelse b) (
          kthen (bzero 1 (BPB * i + bi)) (ret (Some (BPB * i + bi))))))
      | None \<Rightarrow> kthen (brelse b) (ret None)) ?Q t"
    proof (cases ?f)
      case None
      have "b \<in> used (cobs s) ?k" if "b < sb_size ?k" "b div BPB = i" for b
      proof -
        have "b = BPB * i + b mod BPB" "b mod BPB < BPB" using that pos by (auto simp: mult.commute)
        then show ?thesis using None free [of "b mod BPB"] that by (auto simp: first_index_None)
      qed
      then show ?thesis
        unfolding None option.case
        by (intro txn.release_then [OF io rd b t]) (auto simp: wp_simps intro: fs_sane_same [OF s(1)])
    next
      case (Some bi)
      have bi: "bi < BPB" "BPB * i + bi < sb_size ?k" "bit_free ?d bi" using Some by (auto simp: first_index_Some)
      let ?b = "BPB * i + bi"
      have b2: "?b div BPB = i" "?b mod BPB = bi" using bi pos by simp_all
      have new: "?b \<notin> used (cobs s) ?k" using free [OF bi(1,2)] bi(3) by simp
      show ?thesis
        unfolding Some option.case
      proof (rule txn.change_then [OF n(3) _ b _ t])
        fix u assume u: "in_op u" "lframe s u" "cobs u = logged ?n (bit_set bi ?d) (cobs s)"
        show "wp (kthen (bzero 1 ?b) (ret (Some ?b))) ?Q u"
          unfolding wp_kthen wp_ret
          by (rule wp_mono [OF take_block [OF s bi(2) new u(1,2), of ?n]]) (use u b2 bi new in \<open>auto simp: alloc_post_def\<close>)
      qed (use s txn.length_law [OF io] in \<open>simp_all add: room_def\<close>)
    qed
  qed
qed

lemma alloc_post_later:
  assumes "lframe s t" "cobs t = cobs s" "alloc_post b t u"
  shows "alloc_post b s u"
  using assms(2,3) lframe_fs [OF assms(1)] lframe_trans [OF assms(1)] by (simp add: alloc_post_def fs_step_def)

lemma balloc_find:
  fixes s :: "'z inodes_scheme"
  assumes "fs_sane s" "room 2 s" "n = (sb_size (sb s) + BPB - 1) div BPB" "\<And>b. b < sb_size (sb s) \<Longrightarrow> b div BPB < i \<Longrightarrow> b \<in> used (cobs s) (sb s)"
  shows "wp (kfind (map ((*) BPB) [i..<n]) (balloc_round 1 (sb s))) (\<lambda>r t. case r of
      None \<Rightarrow> used (cobs s) (sb s) = {..<sb_size (sb s)} | Some b \<Rightarrow> alloc_post b s t) s"
  using assms
proof (induction "n - i" arbitrary: i s)
  case 0
  have d: "b div BPB < n" if "b < sb_size (sb s)" for b
  proof -
    have "b div BPB + 1 = (b + BPB) div BPB" by (simp add: BPB_def)
    also have "\<dots> \<le> n" unfolding 0(4) using that by (intro div_le_mono) simp
    finally show ?thesis by simp
  qed
  have "b \<in> used (cobs s) (sb s)" if "b < sb_size (sb s)" for b
    by (rule 0(5) [OF that]) (use d [OF that] 0(1) in simp)
  then have all: "used (cobs s) (sb s) = {..<sb_size (sb s)}" by (auto simp: used_def)
  have e: "[i..<n] = []" using 0(1) by simp
  show ?case unfolding e list.map kfind.simps wp_ret using all by simp
next
  case (Suc m)
  have i: "i < n" and l: "[i..<n] = i # [Suc i..<n]" using Suc(2) by (simp_all add: upt_conv_Cons)
  have "BPB * i < sb_size (sb s)"
  proof -
    have "BPB * (i + 1) \<le> BPB * n" using i by (intro mult_le_mono2) simp
    also have "\<dots> \<le> sb_size (sb s) + BPB - 1" unfolding Suc(5) by (rule times_div_less_eq_dividend)
    finally show ?thesis by (simp add: BPB_def)
  qed
  note round = balloc_round_wp [OF Suc(3,4) this]
  show ?case
    unfolding l list.map kfind.simps wp_kbind
  proof (rule wp_mono [OF round])
    fix r and t :: "'z inodes_scheme"
    assume r: "case r of None \<Rightarrow> fs_sane t \<and> lframe s t \<and> cobs t = cobs s \<and> (\<forall>b < sb_size (sb s). b div BPB = i \<longrightarrow> b \<in> used (cobs s) (sb s))
      | Some b \<Rightarrow> alloc_post b s t"
    let ?Q = "\<lambda>s r t. case r of None \<Rightarrow> used (cobs s) (sb s) = {..<sb_size (sb s)} | Some b \<Rightarrow> alloc_post b s (t :: 'z inodes_scheme)"
    show "wp (case r of None \<Rightarrow> kfind (map ((*) BPB) [Suc i..<n]) (balloc_round 1 (sb s)) | Some a \<Rightarrow> ret (Some a)) (?Q s) t"
    proof (cases r)
      case None
      then have t: "fs_sane t" "lframe s t" "cobs t = cobs s" "\<And>b. b < sb_size (sb s) \<Longrightarrow> b div BPB = i \<Longrightarrow> b \<in> used (cobs s) (sb s)" using r by auto
      have k: "sb t = sb s" "room 2 t" using lframe_fs [OF t(2)] lframe_same [OF t(2)] t(3) Suc(4) by (simp_all add: room_def log_cap_def)
      have "wp (kfind (map ((*) BPB) [Suc i..<n]) (balloc_round 1 (sb t))) (?Q t) t"
      proof (rule Suc(1))
        show "m = n - Suc i" "n = (sb_size (sb t) + BPB - 1) div BPB" using Suc k by auto
        show "b \<in> used (cobs t) (sb t)" if "b < sb_size (sb t)" "b div BPB < Suc i" for b
          using that t(3,4) k(1) Suc(6) [of b] by (cases "b div BPB = i") auto
      qed (use t k in auto)
      then have "wp (kfind (map ((*) BPB) [Suc i..<n]) (balloc_round 1 (sb s))) (?Q s) t"
        unfolding k(1) by (rule wp_mono) (use t(3) alloc_post_later [OF t(2,3)] in \<open>auto split: option.splits\<close>)
      then show ?thesis using None by simp
    qed (use r in \<open>simp add: wp_simps\<close>)
  qed
qed

text \<open>
  C1 (refinement). \<open>balloc\<close> takes a block out of the set of free blocks: it returns a block that was
  free, marks it and nothing else as used, clears it, and leaves every other block as it was (but
  for the free map); the super block, the free map and the log stay used. When no block is free
  it panics.
\<close>

theorem balloc_refines:
  assumes s: "fs_sane s" "room 2 s"
  shows "if used (cobs s) (sb s) = {..<sb_size (sb s)} then balloc 1 s = Panic ''balloc: out of blocks''
    else \<exists>b t. balloc 1 s = Done b t \<and> fs_sane t \<and> b < sb_size (sb s) \<and> b \<notin> used (cobs s) (sb s) \<and>
      used (cobs t) (sb t) = insert b (used (cobs s) (sb s)) \<and> v_blocks (cobs t) (1, b) = replicate BSIZE 0 \<and>
      (\<forall>n. n \<noteq> b \<and> n \<notin> bitmaps (sb s) \<longrightarrow> v_blocks (cobs t) (1, n) = v_blocks (cobs s) (1, n))"
proof -
  have "wp (kfind (map ((*) BPB) [0..<(sb_size (sb s) + BPB - 1) div BPB]) (balloc_round 1 (sb s))) (\<lambda>r t. case r of
      None \<Rightarrow> used (cobs s) (sb s) = {..<sb_size (sb s)} | Some b \<Rightarrow> alloc_post b s t) s"
    by (rule balloc_find [OF s refl]) simp
  then obtain r t where f: "kfind (map ((*) BPB) [0..<(sb_size (sb s) + BPB - 1) div BPB]) (balloc_round 1 (sb s)) s = Done r t"
    and r: "case r of None \<Rightarrow> used (cobs s) (sb s) = {..<sb_size (sb s)} | Some b \<Rightarrow> alloc_post b s t" by (auto simp: wp_iff)
  show ?thesis
  proof (cases r)
    case None
    then show ?thesis using f r by (simp add: balloc_def run_simps)
  next
    case (Some b)
    then have p: "alloc_post b s t" using r by simp
    then have "used (cobs s) (sb s) \<noteq> {..<sb_size (sb s)}" by (auto simp: alloc_post_def)
    moreover have "balloc 1 s = Done b t" using f Some by (simp add: balloc_def run_simps)
    moreover have "v_blocks (cobs t) (1, n) = v_blocks (cobs s) (1, n)" if "n \<noteq> b" "n \<notin> bitmaps (sb s)" for n
      using p that by (auto simp: alloc_post_def fs_step_def)
    ultimately show ?thesis using p by (auto simp: alloc_post_def fs_step_def)
  qed
qed

lemma kthen_ret: "kthen m (ret ()) = m"
proof
  show "kthen m (ret ()) s = m s" for s by (cases "m s") (simp_all add: run_simps)
qed

lemma readsb_wp:
  fixes s :: "'z inodes_scheme"
  assumes "fs_sane s" "room 1 s"
  shows "wp (readsb 1) (\<lambda>k t. k = sb s \<and> fs_sane t \<and> lframe s t \<and> cobs t = cobs s) s"
proof -
  have io: "in_op s" and one: "1 \<in> used (cobs s) (sb s)" "get_sb (v_blocks (cobs s) (1, 1)) = sb s" "sb_size (sb s) \<le> disksize s"
    using assms(1) by (simp_all add: fs_sane_def fs_view_def fs_shape_def)
  have n: "1 < disksize s" using one by (simp add: used_def)
  note rd = sane_readable [OF assms, of 1]
  have u: "uint32 1 = 1" by (simp add: uint32_def)
  show ?thesis
    unfolding readsb_def u
    by (rule txn.look_then [OF io n rd], rule txn.release_then [OF io rd], assumption+)
      (use one in \<open>auto simp: wp_simps intro: fs_sane_same [OF assms(1)]\<close>)
qed

text \<open>
  C2 (refinement). \<open>bfree\<close> gives a used block back: it takes that block and nothing else out of the
  set of used blocks and changes no block but the free map. Freeing a block that is free already
  panics. So a block just allocated by \<open>balloc\<close> and freed leaves the set of used blocks as it was.
\<close>

theorem bfree_refines:
  fixes s :: "'z inodes_scheme"
  assumes s: "fs_sane s" "room 1 s" and b: "b < sb_size (sb s)" "b \<notin> insert 1 (bitmaps (sb s) \<union> log_area (klog s))"
  shows "if b \<notin> used (cobs s) (sb s) then bfree 1 b s = Panic ''freeing free block''
    else \<exists>t. bfree 1 b s = Done () t \<and> fs_sane t \<and> used (cobs t) (sb t) = used (cobs s) (sb s) - {b} \<and>
      (\<forall>n. n \<notin> bitmaps (sb s) \<longrightarrow> v_blocks (cobs t) (1, n) = v_blocks (cobs s) (1, n))"
proof -
  let ?k = "sb s" and ?n = "sb_bmapstart (sb s) + b div BPB"
  let ?d = "v_blocks (cobs s) (1, ?n)"
  obtain t where t: "readsb 1 s = Done ?k t" "fs_sane t" "lframe s t" "cobs t = cobs s"
    using readsb_wp [OF s] by (auto simp: wp_iff)
  have k: "sb t = ?k" "log_area (klog t) = log_area (klog s)" "disksize t = disksize s" "room 1 t" "t\<lparr>sb := ?k\<rparr> = t"
    using lframe_fs [OF t(3)] lframe_same [OF t(3)] t(4) s(2) by (auto simp: room_def log_cap_def)
  have io: "in_op t" using t(2) by (simp add: fs_sane_def)
  have n: "BBLOCK b ?k = ?n" "?n \<in> bitmaps ?k" "?n < disksize t" "?n \<notin> log_area (klog t)"
    using BBLOCK_in [OF t(2), of b] b k by simp_all
  have rd: "readable (cobs t) ?n" by (rule sane_readable [OF t(2) k(4)])
  have free: "bit_free ?d (b mod BPB) \<longleftrightarrow> b \<notin> used (cobs s) ?k" using b by (simp add: used_def)
  let ?m = "kbind (bread 1 ?n) (\<lambda>bp. kbind (gets (bdata bp)) (\<lambda>d. kthen (panic_if (bit_free d (b mod BPB)) ''freeing free block'') (
      kthen (modify (bstore bp (bit_clear (b mod BPB)))) (kthen (log_write bp) (brelse bp)))))"
  have run: "bfree 1 b s = ?m t" using n(1) by (simp add: bfree_def run_simps Let_def t(1) k(5))
  obtain bp u where u: "bread 1 ?n t = Done bp u" using txn.rd_total [OF io n(3) rd] by blast
  have h: "v_held (cobs t) bp = None" "in_op u" "lframe t u" "cobs u = (cobs t)\<lparr>v_held := (v_held (cobs t))(bp \<mapsto> (1, ?n))\<rparr>"
    using txn.rd_law [OF io u] by auto
  have d: "bdata bp u = ?d" using txn.data_law [OF h(2), of bp "(1, ?n)"] h(4) t(4) by simp
  show ?thesis
  proof (cases "b \<in> used (cobs s) ?k")
    case False
    then show ?thesis using run u d free by (simp add: run_simps)
  next
    case True
    have "wp (kthen (modify (bstore bp (bit_clear (b mod BPB)))) (kthen (log_write bp) (kthen (brelse bp) (ret ()))))
        (\<lambda>_ w. in_op w \<and> lframe t w \<and> cobs w = logged ?n (bit_clear (b mod BPB) (v_blocks (cobs t) (1, ?n))) (cobs t)) u"
      by (rule txn.change_then [OF n(4) _ h(1) _ h(2,3,4)]) (use k(4) txn.length_law [OF io] in \<open>auto simp: room_def wp_simps\<close>)
    then obtain w where w: "?m t = Done () w" "in_op w" "lframe t w" "cobs w = logged ?n (bit_clear (b mod BPB) ?d) (cobs s)"
      unfolding kthen_ret using u d True free t(4) by (auto simp: wp_iff run_simps)
    have U: "used (cobs w) ?k = used (cobs s) ?k - {b}"
      unfolding w(4) by (rule used_clear [OF b(1)]) (use txn.length_law [OF io] t(4) in simp)
    have "fs_sane w"
      by (rule fs_sane_logged [OF t(2) w(2,3), of ?n]) (use w t(4) k U fs_meta [OF s(1)] b n s(1) in \<open>auto simp: fs_sane_def fs_shape_def\<close>)
    moreover have "sb w = ?k" using lframe_fs [OF w(3)] k by simp
    ultimately show ?thesis using run w U True n(2) by (auto simp: logged_def)
  qed
qed

section \<open>The table of inodes\<close>

text \<open>Inode number \<open>i\<close> as the current transaction has it.\<close>

definition inode_at :: "cview \<Rightarrow> superblock \<Rightarrow> nat \<Rightarrow> dinode" where
  "inode_at v k i = get_dinode (ioff i) (v_blocks v (1, sb_inodestart k + i div IPB))"

definition inode_blocks :: "superblock \<Rightarrow> nat set" where
  "inode_blocks k = (\<lambda>i. sb_inodestart k + i div IPB) ` {..<sb_ninodes k}"

lemma ioff_fits: "ioff i + 64 \<le> BSIZE"
proof -
  have "i mod IPB < 8" by (simp add: IPB_def)
  then show ?thesis by (simp add: ioff_def BSIZE_def)
qed

lemma inode_at_put:
  assumes "wf_dinode d" "\<And>a. length (v_blocks v a) = BSIZE"
  shows "inode_at (logged (sb_inodestart k + i div IPB) (put_dinode (ioff i) d (v_blocks v (1, sb_inodestart k + i div IPB))) v) k j =
    (if j = i then d else inode_at v k j)"
proof (cases "j div IPB = i div IPB \<and> j \<noteq> i")
  case True
  then have "j mod IPB \<noteq> i mod IPB" by (metis div_mod_decomp)
  then have "ioff i + 64 \<le> ioff j \<or> ioff j + 64 \<le> ioff i" by (auto simp: ioff_def)
  then show ?thesis using True get_put_dinode_other [OF assms(1)] ioff_fits assms(2) by (simp add: inode_at_def logged_def)
qed (use get_put_dinode [OF assms(1)] ioff_fits assms(2) in \<open>auto simp: inode_at_def logged_def\<close>)

lemma IBLOCK_in:
  assumes "in_op s" "inum < sb_ninodes k" "inode_blocks k \<subseteq> {..<disksize s} - log_area (klog s)"
  shows "IBLOCK inum k = sb_inodestart k + inum div IPB" "IBLOCK inum k < disksize s" "IBLOCK inum k \<notin> log_area (klog s)"
    "IBLOCK inum k \<in> inode_blocks k"
proof -
  have b: "sb_inodestart k + inum div IPB \<in> inode_blocks k" using assms(2) by (auto simp: inode_blocks_def)
  then have "sb_inodestart k + inum div IPB < 2147483648" using assms(3) in_op_small [OF assms(1)] by fastforce
  then show e: "IBLOCK inum k = sb_inodestart k + inum div IPB" by (simp add: IBLOCK_def uint32_def)
  show "IBLOCK inum k < disksize s" "IBLOCK inum k \<notin> log_area (klog s)" "IBLOCK inum k \<in> inode_blocks k"
    unfolding e using b assms(3) by auto
qed

lemma iupdate_wp:
  fixes s :: "'z inodes_scheme"
  assumes s: "fs_sane s" "room 1 s" and i: "i_dev (icache s ! ip) = 1" "i_inum (icache s ! ip) = inum" "inum < sb_ninodes (sb s)"
    and tb: "inode_blocks (sb s) \<subseteq> {..<disksize s} - log_area (klog s)" and wf: "wf_dinode (din ip s)"
  shows "wp (iupdate ip) (\<lambda>_ t. in_op t \<and> icache t = icache s \<and>
      (\<forall>j. inode_at (cobs t) (sb t) j = (if j = inum then din ip s else inode_at (cobs s) (sb s) j)) \<and>
      (\<forall>n. n \<notin> inode_blocks (sb s) \<longrightarrow> v_blocks (cobs t) (1, n) = v_blocks (cobs s) (1, n))) s"
proof -
  have io: "in_op s" using s by (simp add: fs_sane_def)
  note n = IBLOCK_in [OF io i(3) tb]
  let ?n = "sb_inodestart (sb s) + inum div IPB"
  have l: "length (v_blocks (cobs s) a) = BSIZE" for a by (rule txn.length_law [OF io])
  have "wp (kbind (bread 1 ?n) (\<lambda>bp. kthen (modify (bstore bp (put_dinode (ioff inum) (din ip s)))) (kthen (log_write bp) (brelse bp))))
     (\<lambda>_ t. in_op t \<and> lframe s t \<and> cobs t = logged ?n (put_dinode (ioff inum) (din ip s) (v_blocks (cobs s) (1, ?n))) (cobs s)) s"
    by (rule txn.log_block [OF io _ sane_readable [OF s]]) (use n l wf ioff_fits s in \<open>simp_all add: room_def\<close>)
  moreover have "iupdate ip s = kbind (bread 1 ?n) (\<lambda>bp. kthen (modify (bstore bp (put_dinode (ioff inum) (din ip s))))
      (kthen (log_write bp) (brelse bp))) s"
    by (simp add: iupdate_def run_gets run_kbind i n(1) din_def)
  ultimately obtain t where t: "iupdate ip s = Done () t" "in_op t" "lframe s t"
    "cobs t = logged ?n (put_dinode (ioff inum) (din ip s) (v_blocks (cobs s) (1, ?n))) (cobs s)" by (auto simp: wp_iff)
  have "inode_at (cobs t) (sb t) j = (if j = inum then din ip s else inode_at (cobs s) (sb s) j)" for j
    unfolding t(4) lframe_fs(1) [OF t(3)] by (rule inode_at_put [OF wf l])
  then show ?thesis using t lframe_fs [OF t(3)] n by (auto simp: wp_def logged_def)
qed

text \<open>The inode cache lies outside the state of the transaction.\<close>

lemma in_op_icache [simp]: "in_op (icache_update f s) = in_op s" "cobs (icache_update f s) = cobs s"
proof -
  have "diskc (icache_update f s) = diskc s" "bheld (icache_update f s) = bheld s" "bdirty (icache_update f s) = bdirty s"
    by (simp_all add: diskc_def bheld_def bdirty_def fun_eq_iff)
  moreover from this(1) have "bview (icache_update f s) = bview s" by (auto simp: bview_def fun_eq_iff split: option.splits)
  ultimately show "in_op (icache_update f s) = in_op s" "cobs (icache_update f s) = cobs s"
    by (simp_all add: in_op_def cache_inv_def bufs_ok_def mru_def cobs_def)
qed

lemma ilock_load_run:
  fixes s :: "'z inodes_scheme"
  assumes s: "fs_sane s" "room 1 s" and i: "i_dev (icache s ! ip) = 1" "i_inum (icache s ! ip) = inum" "inum < sb_ninodes (sb s)"
    and tb: "inode_blocks (sb s) \<subseteq> {..<disksize s} - log_area (klog s)"
    and ip: "ip < length (icache s)" "\<not> i_valid (icache s ! ip)"
  shows "if di_type (inode_at (cobs s) (sb s) inum) = 0 then ilock_load ip s = Panic ''ilock: no type''
    else wp (ilock_load ip) (\<lambda>_ t. in_op t \<and> cobs t = cobs s \<and>
      icache t = (icache s)[ip := (icache s ! ip)\<lparr>i_din := inode_at (cobs s) (sb s) inum, i_valid := True\<rparr>]) s"
proof -
  have io: "in_op s" using s by (simp add: fs_sane_def)
  note n = IBLOCK_in [OF io i(3) tb]
  let ?n = "sb_inodestart (sb s) + inum div IPB" and ?d = "inode_at (cobs s) (sb s) inum"
  have rd: "readable (cobs s) ?n" by (rule sane_readable [OF s])
  obtain bp t where t: "bread 1 ?n s = Done bp t" using txn.rd_total [OF io _ rd] n by auto
  have h: "v_held (cobs s) bp = None" "in_op t" "lframe s t" "cobs t = (cobs s)\<lparr>v_held := (v_held (cobs s))(bp \<mapsto> (1, ?n))\<rparr>"
    using txn.rd_law [OF io t] by auto
  have ic: "icache t = icache s" by (rule lframe_fs [OF h(3)])
  have d: "get_dinode (ioff inum) (bdata bp t) = ?d"
    using txn.data_law [OF h(2), of bp "(1, ?n)"] h(4) by (simp add: inode_at_def)
  let ?u = "upd_din ip (\<lambda>_. ?d) t"
  have u: "in_op ?u" "cobs ?u = cobs t" using h by (simp_all add: upd_din_def upd_inode_def)
  have "(1, ?n) \<in> v_dirty (cobs s) \<or> v_blocks (cobs s) (1, ?n) = v_disk (cobs s) (1, ?n)"
    by (rule txn.held_clean [OF io]) (use rd in \<open>simp add: readable_def\<close>)
  then obtain w where w: "brelse bp ?u = Done () w" "in_op w" "lframe ?u w" "cobs w = cobs s"
    using txn.rl_law [OF u(1), of bp "(1, ?n)"] u h by (auto simp: wp_iff fun_upd_idem)
  have iw: "icache w = (icache s)[ip := (icache s ! ip)\<lparr>i_din := ?d\<rparr>]"
    using lframe_fs [OF w(3)] ic by (simp add: upd_din_def upd_inode_def)
  let ?v = "upd_inode ip (\<lambda>i. i\<lparr>i_valid := True\<rparr>) w"
  have v: "in_op ?v" "cobs ?v = cobs s" "din ip ?v = ?d"
      "icache ?v = (icache s)[ip := (icache s ! ip)\<lparr>i_din := ?d, i_valid := True\<rparr>]"
    using w iw ip by (simp_all add: upd_inode_def din_def)
  have "ilock_load ip s = panic_if (di_type ?d = 0) ''ilock: no type'' ?v"
    by (simp add: ilock_load_def run_simps i ip n(1) t d w(1) v(3) del: One_nat_def)
  then show ?thesis using v by (simp add: run_simps wp_def)
qed

text \<open>
  C3 (refinement). The inode blocks are a table of inodes. \<open>iupdate\<close> stores the inode in memory as
  the entry of its number and leaves every other entry, and every block outside the table, as
  they were. Loading an inode that is not valid in memory (\<open>ilock\<close>, once it owns the inode) copies
  the entry of its number and changes nothing on the disk; it panics when the entry is free.
\<close>

theorem iupdate_ilock:
  fixes s :: "'z inodes_scheme"
  assumes s: "fs_sane s" "room 1 s" and i: "i_dev (icache s ! ip) = 1" "i_inum (icache s ! ip) = inum" "inum < sb_ninodes (sb s)"
    and tb: "inode_blocks (sb s) \<subseteq> {..<disksize s} - log_area (klog s)"
  shows "(wf_dinode (din ip s) \<longrightarrow> (\<exists>t. iupdate ip s = Done () t \<and> in_op t \<and> icache t = icache s \<and>
      (\<forall>j. inode_at (cobs t) (sb t) j = (if j = inum then din ip s else inode_at (cobs s) (sb s) j)) \<and>
      (\<forall>n. n \<notin> inode_blocks (sb s) \<longrightarrow> v_blocks (cobs t) (1, n) = v_blocks (cobs s) (1, n)))) \<and>
    (ip < length (icache s) \<and> \<not> i_valid (icache s ! ip) \<longrightarrow>
      (if di_type (inode_at (cobs s) (sb s) inum) = 0 then ilock_load ip s = Panic ''ilock: no type''
       else \<exists>t. ilock_load ip s = Done () t \<and> in_op t \<and> cobs t = cobs s \<and>
         icache t = (icache s)[ip := (icache s ! ip)\<lparr>i_din := inode_at (cobs s) (sb s) inum, i_valid := True\<rparr>]))"
  using iupdate_wp [OF s i tb] ilock_load_run [OF s i tb] by (auto simp: wp_iff)

section \<open>A small file system\<close>

text \<open>
  A disk of 1000 blocks with 200 inodes: the super block, an inode 1 of a directory, and a free map in
  which the first 59 blocks are used.
\<close>

definition small_dinode :: dinode where
  "small_dinode = zero_dinode\<lparr>di_type := T_DIR, di_nlink := 1\<rparr>"

definition small_map :: block where
  "small_map = replicate 7 0xFF @ 7 # replicate 504 0"

definition small_image :: "baddr \<Rightarrow> block" where
  "small_image a =
     (if a = (1, 1) then put_sb small_sb @ replicate 484 0
      else if a = (1, 32) then put_dinode 64 small_dinode (replicate BSIZE 0)
      else if a = (1, 58) then small_map
      else replicate BSIZE 0)"

definition small_fs :: inodes where
  "small_fs = small_inodes\<lparr>image := small_image, klog := small_log\<lparr>lg_lh := zero_head\<rparr>,
     icache := (icache small_inodes)[0 := zero_inode\<lparr>i_dev := 1, i_inum := 1, i_ref := 1\<rparr>]\<rparr>"

lemma wf_small_dinode: "wf_dinode small_dinode"
  by (simp add: wf_dinode_def small_dinode_def zero_dinode_def T_DIR_def NDIRECT_def)

lemma length_small_image: "length (small_image a) = BSIZE"
  by (simp add: small_image_def put_sb_def small_map_def wf_small_dinode BSIZE_def)

lemma small_map_bits: "b < 59 \<Longrightarrow> \<not> bit_free small_map b"
proof -
  have "list_all (\<lambda>b. \<not> bit_free small_map b) [0..<59]" by code_simp
  then show "b < 59 \<Longrightarrow> \<not> bit_free small_map b" by (simp add: list_all_iff)
qed

lemma small_map_free: "bit_free small_map 59"
  by code_simp

lemma binit_keeps_fs:
  fixes s :: "'z inodes_scheme"
  shows "wp binit (\<lambda>_ t. sb t = sb s \<and> icache t = icache s \<and> klog t = klog s) s"
proof -
  have i: "initlock BcacheLock s = Done () (set_lock BcacheLock \<lparr>locked = 0, lcpu = None\<rparr> s)"
    by (simp add: initlock_def run_simps)
  have "wp (kfor [0..<NBUF] (\<lambda>b. kthen (modify (upd_buf b (\<lambda>x. x\<lparr>b_dev := NODEV\<rparr>))) (modify (binsert b))))
    (\<lambda>_ t. sb t = sb s \<and> icache t = icache s \<and> klog t = klog s) u" if "sb u = sb s" "icache u = icache s" "klog u = klog s" for u :: "'z inodes_scheme"
    by (rule wp_kfor [where I = "\<lambda>_ t. sb t = sb s \<and> icache t = icache s \<and> klog t = klog s"])
      (use that in \<open>auto simp: wp_simps upd_buf_def binsert_def Let_def\<close>)
  then show ?thesis
    unfolding binit_def wp_kthen wp_modify by (intro wpI [where m = "initlock BcacheLock", OF i]) (simp add: set_lock_def)
qed

lemma small_fs_boot:
  obtains s :: inodes where "fs_sane s" "room 20 s" "sb s = small_sb" "v_blocks (cobs s) = small_image"
    "icache s = icache small_fs" "disksize s = 1000" "log_area (klog s) = {2..<32}"
proof -
  let ?s = small_fs
  have b: "quiet ?s" "bufs ?s = replicate NBUF zero_buf" "diskc ?s = small_image" "disksize ?s = 1000" "sb ?s = small_sb"
    "klog ?s = small_log\<lparr>lg_lh := zero_head\<rparr>"
    using small_inodes_boot small_logs_boot [of small_log]
    by (simp_all add: small_fs_def quiet_def mycpu_def diskc_def)
      (simp_all add: small_inodes_def small_consoles_def small_devs_def consoles.defs devs.defs logs.defs small_logs_def
        caches.defs small_cache_def disks.defs small_disk_def kmems.defs)
  obtain s where s: "binit ?s = Done () s" "cache_inv s" "bview s = small_image" "bheld s = Map.empty" "bdirty s = {}"
    "disksize s = 1000" "sb s = small_sb" "icache s = icache ?s" "klog s = small_log\<lparr>lg_lh := zero_head\<rparr>"
    using wp_conj [OF binit_wp [OF b(1,2)] binit_keeps_fs [of ?s]] b length_small_image by (auto simp: wp_iff)
  have area: "log_area (klog s) = {2..<32}" by (simp add: s log_area_def logstart_def small_log_def uint32_def)
  have maps: "bitmaps small_sb = {58}" by (simp add: bitmaps_def small_sb_def BPB_def)
  have io: "in_op s"
    using s small_log_ok
    by (simp add: in_op_def trans_ok_def zero_head_def tblocks_def wf_head_def small_log_def log_geom_def LOGSIZE_def NBUF_def)
  have "b < 59 \<Longrightarrow> b \<in> used (cobs s) small_sb" for b
    using small_map_bits [of b] s(3) by (simp add: used_def cobs_def small_sb_def BPB_def small_image_def)
  then have "insert 1 (bitmaps small_sb \<union> {2..<32}) \<subseteq> used (cobs s) small_sb" by (auto simp: maps)
  moreover have "get_sb (small_image (1, 1)) = small_sb"
    unfolding small_image_def if_P [OF refl] by (rule get_put_sb) (simp add: wf_sb_def small_sb_def)
  ultimately have "fs_view small_sb {2..<32} (cobs s)" using s(3,4) by (simp add: fs_view_def cobs_def)
  moreover have "fs_shape small_sb {2..<32} 1000" unfolding fs_shape_def maps by (simp add: small_sb_def)
  ultimately have "fs_sane s" unfolding fs_sane_def area s(6,7) using io by blast
  moreover have "room 20 s" using s by (simp add: room_def cobs_def log_cap_def small_log_def LOGSIZE_def NBUF_def)
  ultimately show ?thesis using that s area by (simp add: cobs_def)
qed

theorem balloc_refines_witness:
  "\<exists>(s :: inodes) b t. balloc 1 s = Done b t \<and> b \<notin> used (cobs s) small_sb \<and> used (cobs t) (sb t) = insert b (used (cobs s) small_sb)"
proof -
  obtain s :: inodes where s: "fs_sane s" "room 20 s" "sb s = small_sb" "v_blocks (cobs s) = small_image" by (rule small_fs_boot)
  have r: "room 2 s" using s by (simp add: room_def)
  have "59 \<notin> used (cobs s) (sb s)" using small_map_free s by (simp add: used_def small_sb_def BPB_def small_image_def)
  moreover have "59 \<in> {..<sb_size (sb s)}" using s(3) by (simp add: small_sb_def)
  ultimately have ne: "used (cobs s) (sb s) \<noteq> {..<sb_size (sb s)}" by blast
  have "\<exists>b t. balloc 1 s = Done b t \<and> b \<notin> used (cobs s) (sb s) \<and>
      used (cobs t) (sb t) = insert b (used (cobs s) (sb s))"
    using balloc_refines [OF s(1) r] unfolding if_not_P [OF ne] by blast
  then show ?thesis unfolding s(3) by blast
qed

theorem bfree_refines_witness:
  "\<exists>s :: inodes. bfree 1 59 s = Panic ''freeing free block''"
proof -
  obtain s :: inodes where s: "fs_sane s" "room 20 s" "sb s = small_sb" "v_blocks (cobs s) = small_image" "log_area (klog s) = {2..<32}"
    by (rule small_fs_boot)
  have r: "room 1 s" using s by (simp add: room_def)
  have "59 \<notin> used (cobs s) (sb s)" using small_map_free s by (simp add: used_def small_sb_def BPB_def small_image_def)
  moreover have "59 < sb_size (sb s)" "59 \<notin> insert 1 (bitmaps (sb s) \<union> log_area (klog s))"
    using s by (simp_all add: small_sb_def bitmaps_def BPB_def)
  ultimately show ?thesis using bfree_refines [OF s(1) r, of 59] by auto
qed

theorem iupdate_ilock_witness:
  "\<exists>(s :: inodes) t. ilock_load 0 s = Done () t \<and> din 0 t = small_dinode"
proof -
  obtain s :: inodes where s: "fs_sane s" "room 20 s" "sb s = small_sb" "v_blocks (cobs s) = small_image" "icache s = icache small_fs"
    "disksize s = 1000" "log_area (klog s) = {2..<32}" by (rule small_fs_boot)
  have r: "room 1 s" using s by (simp add: room_def)
  have c: "icache s ! 0 = zero_inode\<lparr>i_dev := 1, i_inum := 1, i_ref := 1\<rparr>" "0 < length (icache s)"
    using small_inodes_boot s(5) by (simp_all add: small_fs_def NINODE_def)
  have d: "inode_at (cobs s) (sb s) 1 = small_dinode"
    using s get_put_dinode [OF wf_small_dinode, of 64 "replicate BSIZE 0"]
    by (simp add: inode_at_def small_sb_def IPB_def ioff_def small_image_def BSIZE_def)
  have "inode_blocks (sb s) \<subseteq> {..<disksize s} - log_area (klog s)"
    using s by (auto simp: inode_blocks_def small_sb_def IPB_def)
  note ok = iupdate_ilock [OF s(1) r _ _ _ this, of 0 1]
  have "di_type small_dinode \<noteq> 0" by (simp add: small_dinode_def T_DIR_def)
  then obtain t where t: "ilock_load 0 s = Done () t" "icache t = (icache s)[0 := (icache s ! 0)\<lparr>i_din := small_dinode, i_valid := True\<rparr>]"
    using ok c s(3) d by (auto simp: small_sb_def zero_inode_def)
  have "din 0 t = small_dinode" using t(2) c(2) by (simp add: din_def)
  then show ?thesis using t(1) by blast
qed

section \<open>The inode cache\<close>

text \<open>An entry in use; and the invariant of the cache: no inode has two entries in use.\<close>

definition caches_inode :: "nat \<Rightarrow> nat \<Rightarrow> inode \<Rightarrow> bool" where
  "caches_inode dev inum i \<longleftrightarrow> i_ref i > 0 \<and> i_dev i = dev \<and> i_inum i = inum"

definition icache_unique :: "inode list \<Rightarrow> bool" where
  "icache_unique ic \<longleftrightarrow> (\<forall>i < length ic. 0 \<le> i_ref (ic ! i)) \<and>
     (\<forall>i < length ic. \<forall>j < length ic. \<forall>dev inum. caches_inode dev inum (ic ! i) \<longrightarrow> caches_inode dev inum (ic ! j) \<longrightarrow> i = j)"

lemma icache_unique_hit:
  assumes "icache_unique ic" "ip < length ic" "caches_inode dev inum (ic ! ip)"
  shows "icache_unique (ic[ip := (ic ! ip)\<lparr>i_ref := i_ref (ic ! ip) + 1\<rparr>])"
  using assms unfolding icache_unique_def caches_inode_def by (auto simp: nth_list_update)

lemma icache_unique_miss:
  assumes "icache_unique ic" "ip < length ic" "i_ref (ic ! ip) = 0" "\<And>i. i < length ic \<Longrightarrow> \<not> caches_inode dev inum (ic ! i)"
  shows "icache_unique (ic[ip := (ic ! ip)\<lparr>i_dev := dev, i_inum := inum, i_ref := 1, i_busy := False, i_valid := False\<rparr>])"
  using assms unfolding icache_unique_def by (auto simp: nth_list_update caches_inode_def)

lemma iget_run:
  assumes q: "quiet s"
  shows "iget dev inum s =
    (case first_index (caches_inode dev inum) (icache s) of
       Some ip \<Rightarrow> Done ip (upd_inode ip (\<lambda>i. i\<lparr>i_ref := i_ref i + 1\<rparr>) s)
     | None \<Rightarrow> (case first_index (\<lambda>i. i_ref i = 0) (icache s) of
         None \<Rightarrow> Panic ''iget: no inodes''
       | Some ip \<Rightarrow> Done ip (upd_inode ip (\<lambda>i. i\<lparr>i_dev := dev, i_inum := inum, i_ref := 1, i_busy := False, i_valid := False\<rparr>) s)))"
proof -
  have c: "caches_inode dev inum = (\<lambda>i. i_ref i > 0 \<and> i_dev i = dev \<and> i_inum i = inum)" by (simp add: caches_inode_def fun_eq_iff)
  have q': "quiet (upd_inode ip f s)" for ip f using q by (simp add: upd_inode_def)
  have u: "upd_inode ip f (crit ls s) = crit ls (upd_inode ip f s)" for ip f ls by (simp add: upd_inode_def crit_simps)
  show ?thesis
    unfolding c iget_def
    by (auto simp: run_simps acquire_quiet [OF q] release_quiet [OF q'] u crit_simps split: option.splits)
qed

text \<open>
  C1 (invariant). \<open>iget\<close> keeps the inode cache free of duplicates: an inode that is in use already is
  found, its count goes up and its contents are untouched; otherwise the inode gets a free entry, not
  yet valid; no other entry changes. Asking again gives the same entry. It panics only when the
  inode is not cached and no entry is free.
\<close>

theorem iget_unique:
  assumes q: "quiet s" and u: "icache_unique (icache s)"
  shows "if (\<forall>i < length (icache s). \<not> caches_inode dev inum (icache s ! i) \<and> i_ref (icache s ! i) \<noteq> 0)
    then iget dev inum s = Panic ''iget: no inodes''
    else \<exists>ip t u. iget dev inum s = Done ip t \<and> iget dev inum t = Done ip u \<and> ip < length (icache s) \<and>
      t = s\<lparr>icache := icache t\<rparr> \<and> icache_unique (icache t) \<and> caches_inode dev inum (icache t ! ip) \<and>
      (\<forall>j. j \<noteq> ip \<longrightarrow> icache t ! j = icache s ! j) \<and>
      (if caches_inode dev inum (icache s ! ip) then icache t ! ip = (icache s ! ip)\<lparr>i_ref := i_ref (icache s ! ip) + 1\<rparr>
       else i_ref (icache s ! ip) = 0 \<and> i_ref (icache t ! ip) = 1 \<and> \<not> i_valid (icache t ! ip))"
proof -
  let ?ic = "icache s"
  have again: "\<exists>w. iget dev inum t = Done ip w" if a: "quiet t" "icache_unique (icache t)" "ip < length (icache t)" "caches_inode dev inum (icache t ! ip)"
    for t :: "'a inodes_scheme" and ip
  proof -
    obtain j where j: "first_index (caches_inode dev inum) (icache t) = Some j" "j < length (icache t)" "caches_inode dev inum (icache t ! j)"
      using a by (cases "first_index (caches_inode dev inum) (icache t)") (auto simp: first_index_None first_index_Some)
    then have "j = ip" using that by (auto simp: icache_unique_def)
    then show ?thesis using iget_run [OF that(1)] j by simp
  qed
  consider ip where "first_index (caches_inode dev inum) ?ic = Some ip"
    | ip where "first_index (caches_inode dev inum) ?ic = None" "first_index (\<lambda>i. i_ref i = 0) ?ic = Some ip"
    | "first_index (caches_inode dev inum) ?ic = None" "first_index (\<lambda>i. i_ref i = 0) ?ic = None" by fastforce
  then show ?thesis
  proof cases
    case (1 ip)
    then have ip: "ip < length ?ic" "caches_inode dev inum (?ic ! ip)" by (simp_all add: first_index_Some)
    let ?t = "upd_inode ip (\<lambda>i. i\<lparr>i_ref := i_ref i + 1\<rparr>) s"
    have t: "iget dev inum s = Done ip ?t" using iget_run [OF q] 1 by simp
    have un: "icache_unique (icache ?t)" "quiet ?t" "caches_inode dev inum (icache ?t ! ip)"
      using icache_unique_hit [OF u ip] q ip by (simp_all add: upd_inode_def caches_inode_def)
    have "ip < length (icache ?t)" using ip by (simp add: upd_inode_def)
    then obtain w where "iget dev inum ?t = Done ip w" using again [OF un(2,1) _ un(3)] by blast
    then show ?thesis using t ip un by (auto simp: upd_inode_def)
  next
    case (2 ip)
    then have ip: "ip < length ?ic" "i_ref (?ic ! ip) = 0" "\<And>i. i < length ?ic \<Longrightarrow> \<not> caches_inode dev inum (?ic ! i)"
      by (simp_all add: first_index_Some first_index_None)
    let ?t = "upd_inode ip (\<lambda>i. i\<lparr>i_dev := dev, i_inum := inum, i_ref := 1, i_busy := False, i_valid := False\<rparr>) s"
    have t: "iget dev inum s = Done ip ?t" using iget_run [OF q] 2 by simp
    have un: "icache_unique (icache ?t)" "quiet ?t" "caches_inode dev inum (icache ?t ! ip)"
      using icache_unique_miss [OF u ip] q ip by (simp_all add: upd_inode_def caches_inode_def)
    have "ip < length (icache ?t)" using ip by (simp add: upd_inode_def)
    then obtain w where "iget dev inum ?t = Done ip w" using again [OF un(2,1) _ un(3)] by blast
    then show ?thesis using t ip un by (auto simp: upd_inode_def)
  next
    case 3
    have "iget dev inum s = Panic ''iget: no inodes''" unfolding iget_run [OF q] 3 by simp
    then show ?thesis using 3 by (simp add: first_index_None)
  qed
qed

theorem iget_unique_witness:
  "\<exists>ip t u. iget 1 5 small_inodes = Done ip t \<and> iget 1 5 t = Done ip u \<and> i_ref (icache t ! ip) = 1"
proof -
  have c: "icache small_inodes = replicate NINODE zero_inode" "quiet small_inodes" by (rule small_inodes_boot)+
  have z: "i < NINODE \<Longrightarrow> icache small_inodes ! i = zero_inode" for i using c by simp
  have u: "icache_unique (icache small_inodes)" using c by (auto simp: icache_unique_def caches_inode_def zero_inode_def)
  have "\<not> (\<forall>i < length (icache small_inodes). \<not> caches_inode 1 5 (icache small_inodes ! i) \<and> i_ref (icache small_inodes ! i) \<noteq> 0)"
  proof
    assume a: "\<forall>i < length (icache small_inodes). \<not> caches_inode 1 5 (icache small_inodes ! i) \<and> i_ref (icache small_inodes ! i) \<noteq> 0"
    have "0 < length (icache small_inodes)" using c by (simp add: NINODE_def)
    then show False using a z [of 0] by (auto simp: zero_inode_def NINODE_def)
  qed
  note ok = iget_unique [OF c(2) u, of 1 5, unfolded if_not_P [OF this]]
  moreover have "\<not> caches_inode 1 5 (icache small_inodes ! i)" if "i < length (icache small_inodes)" for i
    using z [of i] that c by (simp add: caches_inode_def zero_inode_def)
  ultimately show ?thesis by (elim exE conjE) (auto split: if_splits)
qed

end
