(* ===== verification/Umalloc.thy ===== *)
theory Umalloc imports Kernel_Prelude begin

text \<open>
  The user memory allocator of \<open>src/umalloc.c\<close>: a circular list of free blocks in address order,
  first fit from where the last search ended, merging of neighbours on \<open>free\<close>. The headers live in
  memory between the blocks the program uses; the proof is that the program's blocks never overlap,
  as long as it keeps to its blocks.
\<close>

section \<open>State and operations\<close>

text \<open>
  The two words of the header at each address, the address of the static header \<open>base\<close>, the search
  pointer with 0 as the null pointer, the end of the process memory and the limit up to which the
  kernel can extend it. A header takes 8 bytes, and sizes count headers.
\<close>

record uheap =
  hptr :: "nat \<Rightarrow> nat"
  hsize :: "nat \<Rightarrow> nat"
  hbase :: nat
  freep :: nat
  brk :: nat
  brk_max :: nat

text \<open>What \<open>sbrk\<close> does to the end of memory; \<open>None\<close> is the answer \<open>-1\<close>.\<close>

definition sbrk :: "int \<Rightarrow> uheap \<Rightarrow> nat option \<times> uheap" where
  "sbrk n h =
     (let new = int (brk h) + n in
      if n > 0 then
        if new > int (brk_max h) then (None, h) else (Some (brk h), h\<lparr>brk := nat new\<rparr>)
      else if n < 0 then
        if new < 0 then (Some (brk h), h) else if new = 0 then (None, h) else (Some (brk h), h\<lparr>brk := nat new\<rparr>)
      else (Some (brk h), h))"

definition set_ptr :: "nat \<Rightarrow> nat \<Rightarrow> uheap \<Rightarrow> uheap" where
  "set_ptr a v h = h\<lparr>hptr := (hptr h)(a := v)\<rparr>"

definition set_size :: "nat \<Rightarrow> nat \<Rightarrow> uheap \<Rightarrow> uheap" where
  "set_size a v h = h\<lparr>hsize := (hsize h)(a := v)\<rparr>"

text \<open>The search of \<open>free\<close> for the block after which the freed one belongs.\<close>

definition free_here :: "uheap \<Rightarrow> nat \<Rightarrow> nat \<Rightarrow> bool" where
  "free_here h bp p \<longleftrightarrow> bp > p \<and> bp < hptr h p \<or> p \<ge> hptr h p \<and> (bp > p \<or> bp < hptr h p)"

partial_function (option) free_find :: "uheap \<Rightarrow> nat \<Rightarrow> nat \<Rightarrow> nat option" where
  "free_find h bp p = (if free_here h bp p then Some p else free_find h bp (hptr h p))"

definition free_up :: "nat \<Rightarrow> nat \<Rightarrow> uheap \<Rightarrow> uheap" where
  "free_up bp p h =
     (if bp + 8 * hsize h bp = hptr h p then
        set_ptr bp (hptr h (hptr h p)) (set_size bp (hsize h bp + hsize h (hptr h p)) h)
      else set_ptr bp (hptr h p) h)"

definition free_down :: "nat \<Rightarrow> nat \<Rightarrow> uheap \<Rightarrow> uheap" where
  "free_down bp p h =
     (if p + 8 * hsize h p = bp then set_ptr p (hptr h bp) (set_size p (hsize h p + hsize h bp) h)
      else set_ptr p bp h)"

definition free :: "nat \<Rightarrow> uheap \<Rightarrow> uheap option" where
  "free ap h =
     (let bp = ap - 8 in
      case free_find h bp (freep h) of
        None \<Rightarrow> None
      | Some p \<Rightarrow> Some ((free_down bp p (free_up bp p h))\<lparr>freep := p\<rparr>))"

definition morecore :: "nat \<Rightarrow> uheap \<Rightarrow> (nat \<times> uheap) option" where
  "morecore nu h =
     (let nu = (if nu < 4096 then 4096 else nu) in
      case sbrk (sint (of_nat (nu * 8) :: u32)) h of
        (None, h') \<Rightarrow> Some (0, h')
      | (Some hp, h') \<Rightarrow>
          (case free (hp + 8) (set_size hp nu h') of
             None \<Rightarrow> None
           | Some h'' \<Rightarrow> Some (freep h'', h'')))"

text \<open>Taking a block that is large enough: all of it, or its tail.\<close>

definition malloc_take :: "nat \<Rightarrow> nat \<Rightarrow> nat \<Rightarrow> uheap \<Rightarrow> nat \<times> uheap" where
  "malloc_take nunits prevp p h =
     (if hsize h p = nunits then (p + 8, (set_ptr prevp (hptr h p) h)\<lparr>freep := prevp\<rparr>)
      else
        let h' = set_size p (hsize h p - nunits) h;
            q = p + 8 * hsize h' p
        in (q + 8, (set_size q nunits h')\<lparr>freep := prevp\<rparr>))"

partial_function (option) malloc_loop :: "nat \<Rightarrow> nat \<Rightarrow> nat \<Rightarrow> uheap \<Rightarrow> (nat \<times> uheap) option" where
  "malloc_loop nunits prevp p h =
     (if hsize h p \<ge> nunits then Some (malloc_take nunits prevp p h)
      else if p = freep h then
        (case morecore nunits h of
           None \<Rightarrow> None
         | Some r \<Rightarrow>
             if fst r = 0 then Some (0, snd r) else malloc_loop nunits (fst r) (hptr (snd r) (fst r)) (snd r))
      else malloc_loop nunits p (hptr h p) h)"

definition units :: "nat \<Rightarrow> nat" where
  "units nbytes = ((nbytes + 8 - 1) mod 2 ^ 32) div 8 + 1"

definition malloc :: "nat \<Rightarrow> uheap \<Rightarrow> (nat \<times> uheap) option" where
  "malloc nbytes h =
     (let h' = (if freep h = 0 then set_size (hbase h) 0 (set_ptr (hbase h) (hbase h) (h\<lparr>freep := hbase h\<rparr>)) else h)
      in malloc_loop (units nbytes) (freep h') (hptr h' (freep h')) h')"

section \<open>The ring of free blocks\<close>

lemma hset_simps [simp]:
  "hptr (set_ptr a v h) = (hptr h)(a := v)" "hsize (set_ptr a v h) = hsize h" "hbase (set_ptr a v h) = hbase h"
  "freep (set_ptr a v h) = freep h" "brk (set_ptr a v h) = brk h" "brk_max (set_ptr a v h) = brk_max h"
  "hptr (set_size a v h) = hptr h" "hsize (set_size a v h) = (hsize h)(a := v)" "hbase (set_size a v h) = hbase h"
  "freep (set_size a v h) = freep h" "brk (set_size a v h) = brk h" "brk_max (set_size a v h) = brk_max h"
  by (simp_all add: set_ptr_def set_size_def)

text \<open>The blocks \<open>bs\<close> are linked in this order, and the last one points to \<open>e\<close>.\<close>

fun chain :: "(nat \<Rightarrow> nat) \<Rightarrow> nat list \<Rightarrow> nat \<Rightarrow> bool" where
  "chain f [] e = True"
| "chain f [b] e = (f b = e)"
| "chain f (b # c # bs) e = (f b = c \<and> chain f (c # bs) e)"

lemma chain_Cons: "chain f (b # bs) e \<longleftrightarrow> f b = hd (bs @ [e]) \<and> chain f bs e"
  by (cases bs) auto

lemma chain_append: "chain f (xs @ ys) e \<longleftrightarrow> chain f xs (hd (ys @ [e])) \<and> chain f ys e"
  by (induction xs) (auto simp: chain_Cons hd_append)

lemma chain_upd [simp]: "a \<notin> set bs \<Longrightarrow> chain (f(a := v)) bs e = chain f bs e"
  by (induction bs) (auto simp: chain_Cons)

lemma chain_cong: "(\<And>b. b \<in> set bs \<Longrightarrow> f b = g b) \<Longrightarrow> chain f bs e = chain g bs e"
  by (induction bs) (auto simp: chain_Cons)

definition block_of :: "uheap \<Rightarrow> nat \<Rightarrow> nat set" where
  "block_of h b = {b ..< b + 8 * hsize h b}"

definition ring :: "uheap \<Rightarrow> nat list \<Rightarrow> bool" where
  "ring h bs \<longleftrightarrow> bs \<noteq> [] \<and> hd bs = hbase h \<and>
     (\<forall>b \<in> set bs. b \<noteq> hbase h \<longrightarrow> 0 < hsize h b \<and> hbase h + 8 \<le> b \<and> b + 8 * hsize h b \<le> brk h) \<and>
     hsize h (hbase h) = 0 \<and> sorted_wrt (\<lambda>b c. b + 8 * hsize h b < c) bs \<and> chain (hptr h) bs (hbase h)"

definition free_bytes :: "uheap \<Rightarrow> nat list \<Rightarrow> nat set" where
  "free_bytes h bs = (\<Union>b \<in> set bs. block_of h b)"

text \<open>A block outside the ring that may be put into it.\<close>

definition outside :: "uheap \<Rightarrow> nat list \<Rightarrow> nat \<Rightarrow> bool" where
  "outside h bs a \<longleftrightarrow> 0 < hsize h a \<and> hbase h + 8 \<le> a \<and> a + 8 * hsize h a \<le> brk h \<and> block_of h a \<inter> free_bytes h bs = {}"

lemma sorted_wrt_gap: "sorted_wrt (\<lambda>b c. b + 8 * hsize h b < c) bs \<Longrightarrow> sorted_wrt (<) bs"
  by (induction bs) auto

lemma disjoint_blocks:
  "block_of h a \<inter> block_of h b = {} \<Longrightarrow> 0 < hsize h a \<Longrightarrow> 0 < hsize h b \<Longrightarrow> a < b \<Longrightarrow> a + 8 * hsize h a \<le> b"
  by (force simp: block_of_def disjoint_iff)

text \<open>Where a block outside the ring belongs.\<close>

lemma ring_place:
  assumes r: "ring h bs" and o: "outside h bs bp"
  obtains us p ys where "bs = us @ p # ys" "p + 8 * hsize h p \<le> bp" "\<forall>y \<in> set ys. bp + 8 * hsize h bp \<le> y" "p < bp"
proof -
  have cs: "0 < hsize h b" if "b \<in> set bs" "b \<noteq> hbase h" for b using r that by (auto simp: ring_def)
  have bs: "bs \<noteq> []" "hd bs = hbase h" using r by (auto simp: ring_def)
  have b0: "hbase h < bp" "0 < hsize h bp" using o by (auto simp: outside_def)
  let ?L = "takeWhile (\<lambda>b. b < bp) bs" and ?R = "dropWhile (\<lambda>b. b < bp) bs"
  have "?L \<noteq> []" using bs b0 by (cases bs) auto
  then obtain us p where L: "?L = us @ [p]" by (metis rev_exhaust)
  have split: "bs = us @ p # ?R" using takeWhile_dropWhile_id [of "\<lambda>b. b < bp" bs] L by simp
  have p: "p < bp" using L by (metis in_set_conv_decomp set_takeWhileD)
  have dis: "block_of h bp \<inter> block_of h b = {}" if "b \<in> set bs" for b using o that by (auto simp: outside_def free_bytes_def)
  have pin: "p \<in> set bs" by (subst split) simp
  have le: "p + 8 * hsize h p \<le> bp"
  proof (cases "p = hbase h")
    case True
    then show ?thesis using r p by (simp add: ring_def)
  next
    case False
    then have "0 < hsize h p" using pin cs by auto
    then show ?thesis using disjoint_blocks [of h p bp] dis [OF pin] b0 p by (simp add: Int_commute)
  qed
  have gt: "bp + 8 * hsize h bp \<le> y" if y: "y \<in> set ?R" for y
  proof -
    have "sorted_wrt (<) bs" using r sorted_wrt_gap by (auto simp: ring_def)
    then have s: "sorted_wrt (<) ?R" by (subst (asm) split) (simp add: sorted_wrt_append)
    have "\<not> hd ?R < bp" using y hd_dropWhile [of "\<lambda>b. b < bp" bs] by (cases ?R) auto
    then have "bp \<le> y" using s y by (cases ?R) (auto simp: not_less intro: order_trans less_imp_le)
    moreover have ym: "y \<in> set bs" using y set_dropWhileD by fastforce
    moreover have "0 < hsize h y" using ym cs \<open>bp \<le> y\<close> b0 by auto
    moreover have "bp \<noteq> y" using dis [OF ym] b0 by (auto simp: block_of_def)
    ultimately show ?thesis using disjoint_blocks [of h bp y] dis [OF ym] b0 by simp
  qed
  show ?thesis by (rule that [of us p ?R]) (use split le gt p in auto)
qed

lemma free_find_low:
  "chain (hptr h) (zs @ [p]) e \<Longrightarrow> sorted_wrt (<) (zs @ [p]) \<Longrightarrow> p < bp \<Longrightarrow> free_here h bp p \<Longrightarrow>
    free_find h bp (hd (zs @ [p])) = Some p"
proof (induction zs)
  case Nil
  then show ?case by (simp add: free_find.simps)
next
  case (Cons z zs)
  have n: "hptr h z = hd (zs @ [p])" using Cons.prems(1) by (cases zs) (auto simp: chain_Cons)
  have "hd (zs @ [p]) \<le> p" "z < hd (zs @ [p])" using Cons.prems(2) by (cases zs; auto intro: less_imp_le)+
  then have "\<not> free_here h bp z" using n Cons.prems(3) by (simp add: free_here_def)
  moreover have "free_find h bp (hd (zs @ [p])) = Some p"
    by (rule Cons.IH) (use Cons.prems in \<open>auto simp: chain_Cons\<close>)
  ultimately show ?case using n by (subst free_find.simps) simp
qed

lemma free_find_high:
  "chain (hptr h) zs e \<Longrightarrow> sorted_wrt (<) zs \<Longrightarrow> zs \<noteq> [] \<Longrightarrow> \<forall>z \<in> set zs. bp < z \<and> e < z \<Longrightarrow> e < bp \<Longrightarrow>
    free_find h bp (hd zs) = free_find h bp e"
proof (induction zs)
  case (Cons z zs)
  have n: "hptr h z = hd (zs @ [e])" using Cons.prems(1) by (simp add: chain_Cons)
  have "\<not> free_here h bp z"
    using n Cons.prems by (cases zs) (auto simp: free_here_def)
  then have "free_find h bp z = free_find h bp (hd (zs @ [e]))" using n by (subst free_find.simps) simp
  also have "\<dots> = free_find h bp e"
    using Cons.IH Cons.prems by (cases "zs = []") (auto simp: chain_Cons)
  finally show ?case by simp
qed simp

lemma free_find_ring:
  assumes r: "ring h bs" and s: "bs = us @ p # ys" and p: "p < bp" "\<forall>y \<in> set ys. bp < y" and q: "q \<in> set bs"
  shows "free_find h bp q = Some p"
proof -
  have c: "chain (hptr h) bs (hbase h)" and so: "sorted_wrt (<) bs" and hd: "hd bs = hbase h"
    using r sorted_wrt_gap by (auto simp: ring_def)
  have b0: "hbase h \<le> b" if "b \<in> set bs" for b using that so hd by (cases bs) (auto intro: less_imp_le)
  have here: "free_here h bp p"
    using c p b0 [of p] unfolding s by (cases ys) (auto simp: chain_append chain_Cons free_here_def)
  have low: "free_find h bp q = Some p" if qin: "q \<in> set (us @ [p])" for q
  proof -
    obtain vs ws where v: "us @ [p] = vs @ q # ws" using split_list [OF qin] by blast
    obtain zs where z: "q # ws = zs @ [p]" using v by (cases ws rule: rev_cases) auto
    have bs: "bs = vs @ (zs @ [p]) @ ys" using s v z by (metis append.assoc append_Cons append_Nil)
    have "chain (hptr h) (zs @ [p]) (hd (ys @ [hbase h]))" using c unfolding bs by (simp only: chain_append)
    moreover have "sorted_wrt (<) (zs @ [p])" using so unfolding bs by (simp add: sorted_wrt_append)
    ultimately have "free_find h bp (hd (zs @ [p])) = Some p" using p(1) here by (rule free_find_low)
    then show ?thesis using z by (metis list.sel(1))
  qed
  show ?thesis
  proof (cases "q \<in> set (us @ [p])")
    case False
    then have "q \<in> set ys" using q s by auto
    then obtain vs ws where v: "ys = vs @ q # ws" using split_list by metis
    have bs: "bs = (us @ p # vs) @ (q # ws)" using s v by simp
    have "free_find h bp (hd (q # ws)) = free_find h bp (hbase h)"
    proof (rule free_find_high)
      show "chain (hptr h) (q # ws) (hbase h)" using c unfolding bs by (simp only: chain_append)
      show "sorted_wrt (<) (q # ws)" using so unfolding bs by (simp add: sorted_wrt_append)
      show "hbase h < bp" using b0 [of p] s p by auto
      show "\<forall>z\<in>set (q # ws). bp < z \<and> hbase h < z" using p v \<open>hbase h < bp\<close> by (auto intro: order.strict_trans [OF \<open>hbase h < bp\<close>])
    qed simp
    moreover have "hbase h \<in> set (us @ [p])" using hd s by (cases us) auto
    ultimately show ?thesis using low by simp
  qed (rule low)
qed

text \<open>Joining the freed block with the block above it.\<close>

lemma free_up_spec:
  assumes r: "ring h (us @ p # ys)" and o: "outside h (us @ p # ys) bp"
    and p: "p + 8 * hsize h p \<le> bp" "p < bp" and y: "\<forall>y \<in> set ys. bp + 8 * hsize h bp \<le> y"
  obtains zs where "free_up bp p h = set_ptr bp (hd (zs @ [hbase h])) (set_size bp (hsize (free_up bp p h) bp) h)"
    "chain (hptr h) zs (hbase h)" "sorted_wrt (\<lambda>b c. b + 8 * hsize h b < c) zs" "set zs \<subseteq> set ys"
    "\<forall>z \<in> set zs. bp + 8 * hsize (free_up bp p h) bp < z" "hsize h bp \<le> hsize (free_up bp p h) bp"
    "{bp ..< bp + 8 * hsize (free_up bp p h) bp} \<union> free_bytes h zs = block_of h bp \<union> free_bytes h ys"
    "bp + 8 * hsize (free_up bp p h) bp \<le> brk h"
proof -
  have c: "hptr h p = hd (ys @ [hbase h])" "chain (hptr h) ys (hbase h)" and so: "sorted_wrt (\<lambda>b c. b + 8 * hsize h b < c) ys"
    using r by (auto simp: ring_def chain_append chain_Cons sorted_wrt_append)
  have ob: "hbase h < bp" "0 < hsize h bp" "bp + 8 * hsize h bp \<le> brk h" using o by (auto simp: outside_def)
  show ?thesis
  proof (cases "bp + 8 * hsize h bp = hptr h p")
    case True
    then obtain n zs where ys: "ys = n # zs" using c(1) ob by (cases ys) auto
    have n: "hptr h p = n" "hptr h n = hd (zs @ [hbase h])" "bp + 8 * hsize h bp = n"
      using c True by (auto simp: ys chain_Cons)
    have nr: "n \<in> set (us @ p # ys)" "n \<noteq> hbase h" using ys ob n by auto
    then have nb: "n + 8 * hsize h n \<le> brk h" using r by (auto simp: ring_def)
    have up: "free_up bp p h = set_ptr bp (hd (zs @ [hbase h])) (set_size bp (hsize h bp + hsize h n) h)"
      using True n by (simp add: free_up_def)
    show ?thesis
    proof (rule that [of zs])
      show "{bp ..< bp + 8 * hsize (free_up bp p h) bp} \<union> free_bytes h zs = block_of h bp \<union> free_bytes h ys"
        using n(3) by (auto simp: up free_bytes_def block_of_def ys)
    qed (use up c(2) so n(3) nb in \<open>auto simp: ys chain_Cons\<close>)
  next
    case False
    have up: "free_up bp p h = set_ptr bp (hd (ys @ [hbase h])) h" using False c by (simp add: free_up_def)
    have id: "set_size bp (hsize h bp) h = h" by (simp add: set_size_def)
    have lt: "bp + 8 * hsize h bp < z" if "z \<in> set ys" for z
    proof (cases ys)
      case (Cons n ys')
      then have "bp + 8 * hsize h bp < n" using False c(1) y by (auto simp: le_less)
      then show ?thesis using Cons that so y by (auto simp: le_less)
    qed (use that in simp)
    show ?thesis
    proof (rule that [of ys])
      show "free_up bp p h = set_ptr bp (hd (ys @ [hbase h])) (set_size bp (hsize (free_up bp p h) bp) h)"
        by (simp add: up id)
    qed (use up c(2) so lt ob in \<open>auto simp: block_of_def\<close>)
  qed
qed

lemma block_of_cong: "hsize g b = hsize h b \<Longrightarrow> block_of g b = block_of h b"
  by (simp add: block_of_def)

lemma free_bytes_cong: "(\<And>b. b \<in> set bs \<Longrightarrow> hsize g b = hsize h b) \<Longrightarrow> free_bytes g bs = free_bytes h bs"
  unfolding free_bytes_def by (intro SUP_cong refl block_of_cong)

lemma free_bytes_simps [simp]:
  "free_bytes h [] = {}"
  "free_bytes h (b # bs) = block_of h b \<union> free_bytes h bs"
  "free_bytes h (xs @ ys) = free_bytes h xs \<union> free_bytes h ys"
  by (auto simp: free_bytes_def)

lemma sorted_gap_cong:
  "(\<And>b. b \<in> set bs \<Longrightarrow> hsize g b = hsize h b) \<Longrightarrow>
    sorted_wrt (\<lambda>b c. b + 8 * hsize g b < c) bs = sorted_wrt (\<lambda>b c. b + 8 * hsize h b < c) bs"
  by (induction bs) auto

text \<open>Replacing everything behind a block of the ring.\<close>

lemma ring_relink:
  assumes r: "ring h (us @ p # ys)" and g: "hbase g = hbase h" "brk g = brk h" "hsize g (hbase h) = 0"
    and us: "\<forall>b \<in> set us. hsize g b = hsize h b \<and> hptr g b = hptr h b"
    and ws: "chain (hptr g) (p # ws) (hbase h)" "sorted_wrt (\<lambda>b c. b + 8 * hsize g b < c) (p # ws)"
    and bd: "\<forall>b \<in> set (p # ws). b \<noteq> hbase h \<longrightarrow> 0 < hsize g b \<and> hbase h + 8 \<le> b \<and> b + 8 * hsize g b \<le> brk h"
  shows "ring g (us @ p # ws)"
proof -
  have so: "sorted_wrt (\<lambda>b c. b + 8 * hsize h b < c) us" and lt: "\<And>u. u \<in> set us \<Longrightarrow> u + 8 * hsize h u < p"
    and ch: "chain (hptr h) us p" and hd: "hd (us @ [p]) = hbase h"
    and bu: "\<And>b. b \<in> set us \<Longrightarrow> b \<noteq> hbase h \<Longrightarrow> 0 < hsize h b \<and> hbase h + 8 \<le> b \<and> b + 8 * hsize h b \<le> brk h"
    using r by (auto simp: ring_def sorted_wrt_append chain_append hd_append split: if_splits)
  have "sorted_wrt (\<lambda>b c. b + 8 * hsize g b < c) us" using sorted_gap_cong [of us g h] us so by simp
  moreover have "p < w" if "w \<in> set ws" for w using ws(2) that by auto
  ultimately have "sorted_wrt (\<lambda>b c. b + 8 * hsize g b < c) (us @ p # ws)"
    using ws(2) lt us by (fastforce simp: sorted_wrt_append)
  moreover have "chain (hptr g) (us @ p # ws) (hbase h)" using ch us ws(1) chain_cong [of us "hptr g" "hptr h"] by (simp add: chain_append)
  ultimately show ?thesis using hd bu bd us g by (auto simp: ring_def hd_append split: if_splits)
qed

text \<open>
  Freeing a block outside the ring: the search ends, the ring gains exactly the bytes of the
  block, and no header elsewhere changes its size.
\<close>

definition same_heap :: "uheap \<Rightarrow> uheap \<Rightarrow> bool" where
  "same_heap h g \<longleftrightarrow> hbase g = hbase h \<and> brk g = brk h \<and> brk_max g = brk_max h"

lemma free_spec:
  assumes r: "ring h bs" and o: "outside h bs bp" and f: "freep h \<in> set bs"
  shows "\<exists>g cs. free (bp + 8) h = Some g \<and> ring g cs \<and> freep g \<in> set cs \<and> same_heap h g \<and>
    free_bytes g cs = free_bytes h bs \<union> block_of h bp \<and> (\<exists>b \<in> set cs. hsize h bp \<le> hsize g b) \<and>
    (\<forall>a. a \<notin> free_bytes g cs \<longrightarrow> hsize g a = hsize h a)"
proof -
  obtain us p ys where bs: "bs = us @ p # ys" and p: "p + 8 * hsize h p \<le> bp" "p < bp"
    and y: "\<forall>y \<in> set ys. bp + 8 * hsize h bp \<le> y"
    using ring_place [OF r o] by metis
  have ob: "hbase h + 8 \<le> bp" "0 < hsize h bp" using o by (auto simp: outside_def)
  have find: "free_find h bp (freep h) = Some p"
    by (rule free_find_ring [OF r bs p(2) _ f]) (use y ob in force)
  note r' = r [unfolded bs] and o' = o [unfolded bs]
  define h1 where "h1 = free_up bp p h"
  define N where "N = hsize h1 bp"
  obtain zs where up: "h1 = set_ptr bp (hd (zs @ [hbase h])) (set_size bp N h)"
    and z: "chain (hptr h) zs (hbase h)" "sorted_wrt (\<lambda>b c. b + 8 * hsize h b < c) zs" "set zs \<subseteq> set ys"
      "\<forall>z \<in> set zs. bp + 8 * N < z" "hsize h bp \<le> N"
      "{bp ..< bp + 8 * N} \<union> free_bytes h zs = block_of h bp \<union> free_bytes h ys" "bp + 8 * N \<le> brk h"
    by (rule free_up_spec [OF r' o' p y, folded h1_def, folded N_def])
  have so: "sorted_wrt (\<lambda>b c. b + 8 * hsize h b < c) (us @ p # ys)" and b0: "hsize h (hbase h) = 0"
    and bnd: "\<And>b. b \<in> set (us @ p # ys) \<Longrightarrow> b \<noteq> hbase h \<Longrightarrow> 0 < hsize h b \<and> hbase h + 8 \<le> b \<and> b + 8 * hsize h b \<le> brk h"
    using r' by (auto simp: ring_def)
  have us: "u + 8 * hsize h u < p" if "u \<in> set us" for u using so that by (auto simp: sorted_wrt_append)
  have pz: "p + 8 * hsize h p < w" if "w \<in> set zs" for w using so that z(3) by (auto simp: sorted_wrt_append)
  have nin: "p \<notin> set us" "bp \<notin> set us" "p \<notin> set zs" "bp \<notin> set zs" "p \<noteq> bp" "hbase h \<noteq> bp"
    using us pz z(4) p ob by (auto dest: us pz)
  have N0: "0 < N" using z(5) ob by simp
  let ?g = "(free_down bp p h1)\<lparr>freep := p\<rparr>"
  have fr: "free (bp + 8) h = Some ?g" using find by (simp add: free_def h1_def)
  have res: ?thesis if "ring ?g cs" "freep ?g \<in> set cs" "same_heap h ?g" "free_bytes ?g cs = free_bytes h bs \<union> block_of h bp"
    "c \<in> set cs" "hsize h bp \<le> hsize ?g c" "\<And>a. a \<notin> free_bytes ?g cs \<Longrightarrow> hsize ?g a = hsize h a" for cs c
    using that fr by (intro exI [of _ ?g] exI [of _ cs]) auto
  show ?thesis
  proof (cases "p + 8 * hsize h p = bp")
    case True
    then have pb: "p \<noteq> hbase h" using b0 p by auto
    have g: "hptr ?g = (hptr h)(bp := hd (zs @ [hbase h]), p := hd (zs @ [hbase h]))"
      "hsize ?g = (hsize h)(bp := N, p := hsize h p + N)" "freep ?g = p" "same_heap h ?g" "hbase ?g = hbase h" "brk ?g = brk h"
      using True nin by (auto simp: free_down_def up same_heap_def)
    have sz: "\<And>b. b \<in> set us \<union> set zs \<Longrightarrow> hsize ?g b = hsize h b" using g(2) nin by auto
    have fb: "free_bytes ?g (us @ p # zs) = free_bytes h bs \<union> block_of h bp"
    proof -
      have "free_bytes ?g us = free_bytes h us" "free_bytes ?g zs = free_bytes h zs" by (rule free_bytes_cong, rule sz, simp)+
      moreover have "block_of ?g p = block_of h p \<union> {bp ..< bp + 8 * N}" using True g(2) nin by (auto simp: block_of_def)
      ultimately show ?thesis using z(6) by (auto simp: bs)
    qed
    have in_fb: "p \<in> free_bytes ?g (us @ p # zs)" "bp \<in> free_bytes ?g (us @ p # zs)"
      using fb g(2) N0 ob by (auto simp: block_of_def)
    show ?thesis
    proof (rule res [of "us @ p # zs" p])
      show "ring ?g (us @ p # zs)"
      proof (rule ring_relink [OF r' g(5,6)])
        show "sorted_wrt (\<lambda>b c. b + 8 * hsize ?g b < c) (p # zs)"
          using sorted_gap_cong [of zs ?g h] sz z(2,4) g(2) True nin by auto
        show "\<forall>b \<in> set (p # zs). b \<noteq> hbase h \<longrightarrow> 0 < hsize ?g b \<and> hbase h + 8 \<le> b \<and> b + 8 * hsize ?g b \<le> brk h"
          using bnd pb g(2) True z(3,7) nin by auto
      qed (use z(1) nin pb b0 sz g in \<open>auto simp: chain_Cons\<close>)
      show "hsize ?g a = hsize h a" if "a \<notin> free_bytes ?g (us @ p # zs)" for a using that in_fb g(2) by auto
    qed (use fb g z(5) in auto)
  next
    case False
    have g: "hptr ?g = (hptr h)(bp := hd (zs @ [hbase h]), p := bp)"
      "hsize ?g = (hsize h)(bp := N)" "freep ?g = p" "same_heap h ?g" "hbase ?g = hbase h" "brk ?g = brk h"
      using False nin by (auto simp: free_down_def up same_heap_def)
    have sz: "\<And>b. b \<in> set us \<union> set zs \<union> {p} \<Longrightarrow> hsize ?g b = hsize h b" using g(2) nin by auto
    have fb: "free_bytes ?g (us @ p # bp # zs) = free_bytes h bs \<union> block_of h bp"
    proof -
      have "free_bytes ?g us = free_bytes h us" "free_bytes ?g zs = free_bytes h zs" by (rule free_bytes_cong, rule sz, simp)+
      moreover have "block_of ?g p = block_of h p" "block_of ?g bp = {bp ..< bp + 8 * N}" using g(2) nin by (auto simp: block_of_def)
      ultimately show ?thesis using z(6) by (auto simp: bs)
    qed
    have in_fb: "bp \<in> free_bytes ?g (us @ p # bp # zs)" using fb ob by (auto simp: block_of_def)
    show ?thesis
    proof (rule res [of "us @ p # bp # zs" bp])
      show "ring ?g (us @ p # bp # zs)"
      proof (rule ring_relink [OF r' g(5,6)])
        show "sorted_wrt (\<lambda>b c. b + 8 * hsize ?g b < c) (p # bp # zs)"
          using sorted_gap_cong [of zs ?g h] sz z(2,4) g(2) False p pz nin by auto
        show "\<forall>b \<in> set (p # bp # zs). b \<noteq> hbase h \<longrightarrow> 0 < hsize ?g b \<and> hbase h + 8 \<le> b \<and> b + 8 * hsize ?g b \<le> brk h"
          using bnd g(2) z(3,7) nin N0 ob by auto
      qed (use z(1) nin b0 sz g in \<open>auto simp: chain_Cons\<close>)
      show "hsize ?g a = hsize h a" if "a \<notin> free_bytes ?g (us @ p # bp # zs)" for a using that in_fb g(2) by auto
    qed (use fb g z(5) in auto)
  qed
qed

text \<open>Taking a block out of the ring, or cutting its tail off.\<close>

lemma malloc_take_spec:
  assumes r: "ring h (us @ pr # q # vs)" and n: "0 < n" "n \<le> hsize h q"
  shows "\<exists>a g cs. malloc_take n pr q h = (a + 8, g) \<and> ring g cs \<and> freep g \<in> set cs \<and> same_heap h g \<and> hsize g a = n \<and>
    outside g cs a \<and> free_bytes g cs \<union> block_of g a = free_bytes h (us @ pr # q # vs) \<and>
    (\<forall>x. x \<notin> free_bytes h (us @ pr # q # vs) \<longrightarrow> hsize g x = hsize h x)"
proof -
  have so: "sorted_wrt (\<lambda>b c. b + 8 * hsize h b < c) (us @ pr # q # vs)" and ch: "chain (hptr h) (us @ pr # q # vs) (hbase h)"
    and b0: "hsize h (hbase h) = 0" and hd: "hd (us @ [pr]) = hbase h"
    and bnd: "\<And>b. b \<in> set (us @ pr # q # vs) \<Longrightarrow> b \<noteq> hbase h \<Longrightarrow> 0 < hsize h b \<and> hbase h + 8 \<le> b \<and> b + 8 * hsize h b \<le> brk h"
    using r by (auto simp: ring_def hd_append split: if_splits)
  have q: "q \<noteq> hbase h" "hbase h + 8 \<le> q" "q + 8 * hsize h q \<le> brk h" using n b0 bnd [of q] by force+
  have lt: "\<forall>b \<in> set us \<union> {pr}. b + 8 * hsize h b < q" "\<forall>b \<in> set vs. q + 8 * hsize h q < b"
    using so by (auto simp: sorted_wrt_append)
  have nin: "pr \<notin> set us" "pr \<notin> set vs" "pr \<noteq> q" "q \<notin> set us" "q \<notin> set vs"
    using so lt by (fastforce simp: sorted_wrt_append)+
  show ?thesis
  proof (cases "hsize h q = n")
    case True
    let ?g = "(set_ptr pr (hptr h q) h)\<lparr>freep := pr\<rparr>"
    have "chain (hptr ?g) (us @ pr # vs) (hbase h)" using ch nin by (simp add: chain_append chain_Cons)
    then have rg: "ring ?g (us @ pr # vs)" using so hd b0 bnd by (auto simp: ring_def sorted_wrt_append hd_append)
    have bl: "block_of ?g b = block_of h b" for b by (simp add: block_of_def)
    then have fb: "free_bytes ?g (us @ pr # vs) \<union> block_of ?g q = free_bytes h (us @ pr # q # vs)"
      by (auto simp: free_bytes_def)
    have "block_of h q \<inter> block_of h b = {}" if "b \<in> set us \<union> {pr} \<union> set vs" for b
      using that lt by (fastforce simp: block_of_def)
    then have "outside ?g (us @ pr # vs) q" using q n True by (auto simp: outside_def free_bytes_def bl)
    then show ?thesis using True rg fb
      by (intro exI [of _ q] exI [of _ ?g] exI [of _ "us @ pr # vs"]) (simp add: malloc_take_def same_heap_def)
  next
    case False
    define m where "m = hsize h q - n"
    define a where "a = q + 8 * m"
    have m: "0 < m" "hsize h q = m + n" "q < a" "a + 8 * n = q + 8 * hsize h q" using False n by (auto simp: m_def a_def)
    let ?g = "(set_size a n (set_size q m h))\<lparr>freep := pr\<rparr>"
    have an: "a \<notin> set us" "a \<noteq> pr" "a \<notin> set vs" using lt m n by force+
    have sz: "hsize ?g b = hsize h b" if "b \<in> set us \<union> {pr} \<union> set vs" for b using that an nin by auto
    have gq: "hsize ?g q = m" "hsize ?g a = n" "hsize ?g (hbase h) = 0" using m q b0 by auto
    have "sorted_wrt (\<lambda>b c. b + 8 * hsize ?g b < c) us" "sorted_wrt (\<lambda>b c. b + 8 * hsize ?g b < c) vs"
      using sorted_gap_cong [of us ?g h] sorted_gap_cong [of vs ?g h] sz so by (auto simp: sorted_wrt_append)
    then have srt: "sorted_wrt (\<lambda>b c. b + 8 * hsize ?g b < c) (us @ pr # q # vs)"
      using so lt m an nin by (auto simp: sorted_wrt_append)
    have bd: "0 < hsize ?g b \<and> hbase h + 8 \<le> b \<and> b + 8 * hsize ?g b \<le> brk h" if "b \<in> set (us @ pr # q # vs)" "b \<noteq> hbase h" for b
      using bnd [OF that] that sz [of b] gq(1) m q by (cases "b = q") auto
    have rg: "ring ?g (us @ pr # q # vs)"
      using srt bd ch hd gq by (simp add: ring_def hd_append split: if_splits)
    have "free_bytes ?g us = free_bytes h us" "free_bytes ?g vs = free_bytes h vs" "block_of ?g pr = block_of h pr"
      by (rule free_bytes_cong, rule sz, simp)+ (rule block_of_cong, rule sz, simp)
    moreover have "block_of ?g q \<union> block_of ?g a = block_of h q" using gq m by (auto simp: block_of_def a_def)
    ultimately have fb: "free_bytes ?g (us @ pr # q # vs) \<union> block_of ?g a = free_bytes h (us @ pr # q # vs)" by auto
    have "block_of ?g a \<inter> block_of ?g b = {}" if "b \<in> set us \<union> {pr} \<union> {q} \<union> set vs" for b
      using that lt sz [of b] gq m by (fastforce simp: block_of_def)
    then have out: "outside ?g (us @ pr # q # vs) a" using q n m gq by (auto simp: outside_def free_bytes_def)
    have fr: "hsize ?g x = hsize h x" if "x \<notin> free_bytes h (us @ pr # q # vs)" for x
    proof -
      have "q \<in> block_of h q" "a \<in> block_of h q" using m n by (auto simp: block_of_def a_def)
      then show ?thesis using that by auto
    qed
    have "malloc_take n pr q h = (a + 8, ?g)" using False by (simp add: malloc_take_def a_def m_def Let_def)
    then show ?thesis using rg fb out fr gq(2)
      by (intro exI [of _ a] exI [of _ ?g] exI [of _ "us @ pr # q # vs"]) (simp add: same_heap_def)
  qed
qed

section \<open>Searching the ring\<close>

lemma malloc_hit:
  "ts \<noteq> [] \<Longrightarrow> chain (hptr h) (pv # butlast ts) (last ts) \<Longrightarrow> last ts = freep h \<Longrightarrow> freep h \<notin> set (butlast ts) \<Longrightarrow>
   t \<in> set ts \<Longrightarrow> n \<le> hsize h t \<Longrightarrow>
   \<exists>pr. malloc_loop n pv (hd ts) h = Some (malloc_take n pr (hptr h pr) h) \<and> n \<le> hsize h (hptr h pr) \<and> pr \<in> set (pv # ts)"
proof (induction ts arbitrary: pv)
  case (Cons p ts)
  have pv: "hptr h pv = p" using Cons.prems(2) by (cases ts) auto
  show ?case
  proof (cases "n \<le> hsize h p")
    case True
    then show ?thesis using pv by (intro exI [of _ pv]) (simp add: malloc_loop.simps)
  next
    case False
    then have ts: "ts \<noteq> []" "t \<in> set ts" using Cons.prems(5,6) by auto
    have pf: "p \<noteq> freep h" using Cons.prems(4) ts by simp
    have c: "chain (hptr h) (p # butlast ts) (last ts)" using Cons.prems(2) ts by simp
    obtain pr where "malloc_loop n p (hd ts) h = Some (malloc_take n pr (hptr h pr) h)" "n \<le> hsize h (hptr h pr)" "pr \<in> set (p # ts)"
      using Cons.IH [OF ts(1) c] Cons.prems ts by auto
    moreover have "hptr h p = hd ts" using c ts by (cases ts) (auto split: if_splits)
    ultimately show ?thesis using False pf by (intro exI [of _ pr]) (simp add: malloc_loop.simps [of n pv p])
  qed
qed simp

lemma malloc_miss:
  "ts \<noteq> [] \<Longrightarrow> chain (hptr h) (pv # butlast ts) (last ts) \<Longrightarrow> last ts = freep h \<Longrightarrow> freep h \<notin> set (butlast ts) \<Longrightarrow>
   \<forall>t \<in> set ts. hsize h t < n \<Longrightarrow>
   malloc_loop n pv (hd ts) h =
     (case morecore n h of None \<Rightarrow> None
      | Some r \<Rightarrow> if fst r = 0 then Some (0, snd r) else malloc_loop n (fst r) (hptr (snd r) (fst r)) (snd r))"
proof (induction ts arbitrary: pv)
  case (Cons p ts)
  show ?case
  proof (cases "ts = []")
    case True
    then have "hsize h p < n" "p = freep h" using Cons.prems by simp_all
    then show ?thesis by (simp add: malloc_loop.simps [of n pv "freep h"] leD)
  next
    case False
    have c: "chain (hptr h) (p # butlast ts) (last ts)" using Cons.prems(2) False by simp
    have "hptr h p = hd ts" using c False by (cases ts) (auto split: if_splits)
    moreover have "p \<noteq> freep h" using Cons.prems(4) False by simp
    ultimately have "malloc_loop n pv p h = malloc_loop n p (hd ts) h"
      using Cons.prems(5) by (simp add: malloc_loop.simps [of n pv p])
    then show ?thesis using Cons.IH [OF False c] Cons.prems False by simp
  qed
qed simp

text \<open>The way round the ring from the search pointer.\<close>

lemma ring_round:
  assumes r: "ring h bs" and f: "freep h \<in> set bs"
  obtains ts where "ts \<noteq> []" "chain (hptr h) (freep h # butlast ts) (last ts)" "last ts = freep h"
    "freep h \<notin> set (butlast ts)" "set ts = set bs" "hptr h (freep h) = hd ts"
proof -
  obtain xs ys where bs: "bs = xs @ freep h # ys" using split_list [OF f] by blast
  have c: "chain (hptr h) xs (freep h)" "hptr h (freep h) = hd (ys @ [hbase h])" "chain (hptr h) ys (hbase h)"
    using r by (auto simp: ring_def bs chain_append chain_Cons)
  have d: "freep h \<notin> set xs" "freep h \<notin> set ys" using r sorted_wrt_gap [of h bs] by (auto simp: ring_def bs sorted_wrt_append)
  have h: "hd (xs @ [freep h]) = hbase h" using r by (auto simp: ring_def bs hd_append split: if_splits)
  have "chain (hptr h) (freep h # ys @ xs) (freep h)"
    using c h by (cases xs) (auto simp: chain_append chain_Cons hd_append split: if_splits)
  moreover have "hptr h (freep h) = hd (ys @ xs @ [freep h])" using c(2) h by (cases ys) auto
  ultimately show ?thesis using d bs by (intro that [of "ys @ xs @ [freep h]"]) (auto simp: butlast_append)
qed

lemma ring_next:
  assumes r: "ring h bs" and p: "pr \<in> set bs" and n: "hptr h pr \<noteq> hbase h"
  obtains us vs where "bs = us @ pr # hptr h pr # vs"
proof -
  obtain us ws where bs: "bs = us @ pr # ws" using split_list [OF p] by blast
  then have "hptr h pr = hd (ws @ [hbase h])" using r by (auto simp: ring_def chain_append chain_Cons)
  then obtain vs where "ws = hptr h pr # vs" using n by (cases ws) auto
  then show ?thesis using bs that by blast
qed

lemma malloc_fits:
  assumes r: "ring h bs" and f: "freep h \<in> set bs" and n: "0 < n" and t: "t \<in> set bs" "n \<le> hsize h t"
  shows "\<exists>a g cs. malloc_loop n (freep h) (hptr h (freep h)) h = Some (a + 8, g) \<and> ring g cs \<and> freep g \<in> set cs \<and>
    same_heap h g \<and> hsize g a = n \<and> outside g cs a \<and> free_bytes g cs \<union> block_of g a = free_bytes h bs \<and>
    (\<forall>x. x \<notin> free_bytes h bs \<longrightarrow> hsize g x = hsize h x)"
proof -
  obtain ts where ts: "ts \<noteq> []" "chain (hptr h) (freep h # butlast ts) (last ts)" "last ts = freep h"
    "freep h \<notin> set (butlast ts)" "set ts = set bs" "hptr h (freep h) = hd ts"
    by (rule ring_round [OF r f])
  obtain pr where pr: "malloc_loop n (freep h) (hd ts) h = Some (malloc_take n pr (hptr h pr) h)" "n \<le> hsize h (hptr h pr)"
    "pr \<in> set (freep h # ts)"
    using malloc_hit [OF ts(1-4), of t n] t ts(5) by auto
  have "hptr h pr \<noteq> hbase h" "pr \<in> set bs" using pr n r f ts(5) by (auto simp: ring_def)
  then obtain us vs where bs: "bs = us @ pr # hptr h pr # vs" using ring_next [OF r] by metis
  show ?thesis using malloc_take_spec [OF r [unfolded bs] n pr(2)] pr(1) ts(6) unfolding bs [symmetric] by auto
qed

section \<open>Growing the heap\<close>

lemma ring_grow:
  assumes r: "ring h bs" and b: "hbase h + 8 \<le> brk h" and nu: "0 < nu"
    and g: "g = set_size (brk h) nu (h\<lparr>brk := brk h + 8 * nu\<rparr>)"
  shows "ring g bs" "outside g bs (brk h)" "free_bytes g bs = free_bytes h bs" "block_of g (brk h) = {brk h ..< brk g}"
    "\<And>x. x \<noteq> brk h \<Longrightarrow> hsize g x = hsize h x"
proof -
  have le: "b + 8 * hsize h b \<le> brk h \<and> b \<noteq> brk h" if "b \<in> set bs" for b
    using r that b by (cases "b = hbase h") (auto simp: ring_def)
  then have sz: "hsize g b = hsize h b" if "b \<in> set bs" for b using that by (simp add: g)
  show "\<And>x. x \<noteq> brk h \<Longrightarrow> hsize g x = hsize h x" by (simp add: g)
  have so: "sorted_wrt (\<lambda>b c. b + 8 * hsize g b < c) bs" using sorted_gap_cong [OF sz] r by (simp add: ring_def)
  have bd: "0 < hsize g b \<and> hbase g + 8 \<le> b \<and> b + 8 * hsize g b \<le> brk g" if "b \<in> set bs" "b \<noteq> hbase g" for b
    using r that sz [of b] by (auto simp: ring_def g)
  have "hsize g (hbase g) = 0" using r sz [of "hbase h"] b by (simp add: ring_def g)
  then show "ring g bs" using r so bd by (simp add: ring_def g)
  show fb: "free_bytes g bs = free_bytes h bs" by (rule free_bytes_cong) (rule sz)
  show bl: "block_of g (brk h) = {brk h ..< brk g}" by (simp add: block_of_def g)
  have "block_of g (brk h) \<inter> block_of g b = {}" if "b \<in> set bs" for b
    using le [OF that] sz [OF that] by (auto simp: bl block_of_def)
  then show "outside g bs (brk h)" using nu b by (auto simp: outside_def free_bytes_def g)
qed

lemma sint_small: "n < 2 ^ 31 \<Longrightarrow> sint (of_nat n :: u32) = int n"
  by (simp add: signed_of_nat signed_take_bit_int_eq_self)

text \<open>What a search for \<open>n\<close> units leaves: nothing is changed, or a block has left the ring.\<close>

definition served :: "nat \<Rightarrow> uheap \<Rightarrow> nat list \<Rightarrow> nat \<Rightarrow> uheap \<Rightarrow> bool" where
  "served n h bs p g \<longleftrightarrow>
    (if p = 0 then g = h \<and> brk_max h < brk h + 8 * max n 4096
     else \<exists>a cs. p = a + 8 \<and> ring g cs \<and> freep g \<in> set cs \<and> hsize g a = n \<and> outside g cs a \<and>
       free_bytes g cs \<union> block_of g a = free_bytes h bs \<union> {brk h ..< brk g} \<and>
       (\<forall>x. x \<notin> free_bytes h bs \<union> {brk h ..< brk g} \<longrightarrow> hsize g x = hsize h x))"

lemma malloc_loop_spec:
  assumes r: "ring h bs" and f: "freep h \<in> set bs" and b: "hbase h + 8 \<le> brk h" "0 < hbase h" and n: "0 < n" "n * 8 < 2 ^ 31"
  shows "\<exists>p g. malloc_loop n (freep h) (hptr h (freep h)) h = Some (p, g) \<and> hbase g = hbase h \<and> brk h \<le> brk g \<and> brk_max g = brk_max h \<and>
    served n h bs p g"
proof (cases "\<exists>t \<in> set bs. n \<le> hsize h t")
  case True
  then obtain t where "t \<in> set bs" "n \<le> hsize h t" by blast
  from malloc_fits [OF r f n(1) this] show ?thesis by (force simp: same_heap_def served_def)
next
  case False
  then have small: "\<forall>t \<in> set bs. hsize h t < n" by (simp add: not_le)
  define nu where "nu = max n 4096"
  have nu: "0 < nu" "nu * 8 < 2 ^ 31" "n \<le> nu" "(if n < 4096 then 4096 else n) = nu" using n by (auto simp: nu_def)
  obtain ts where ts: "ts \<noteq> []" "chain (hptr h) (freep h # butlast ts) (last ts)" "last ts = freep h"
    "freep h \<notin> set (butlast ts)" "set ts = set bs" "hptr h (freep h) = hd ts"
    by (rule ring_round [OF r f])
  note miss = malloc_miss [OF ts(1-4), of n, folded ts(6), unfolded ts(5), OF small]
  show ?thesis
  proof (cases "int (brk h) + int (nu * 8) > int (brk_max h)")
    case True
    then have "morecore n h = Some (0, h)" using nu by (simp add: morecore_def Let_def sint_small [OF nu(2), simplified] sbrk_def)
    then show ?thesis using miss True by (intro exI [of _ 0] exI [of _ h]) (simp add: nu_def served_def)
  next
    case False
    define g where "g = set_size (brk h) nu (h\<lparr>brk := brk h + 8 * nu\<rparr>)"
    note gr = ring_grow [OF r b(1) nu(1) g_def]
    have gf: "freep g \<in> set bs" "brk g = brk h + 8 * nu" "hbase g = hbase h" "brk_max g = brk_max h" using f by (simp_all add: g_def)
    obtain k cs where k: "free (brk h + 8) g = Some k" "ring k cs" "freep k \<in> set cs" "same_heap g k"
      "free_bytes k cs = free_bytes g bs \<union> block_of g (brk h)" "\<exists>b \<in> set cs. hsize g (brk h) \<le> hsize k b"
      "\<forall>a. a \<notin> free_bytes k cs \<longrightarrow> hsize k a = hsize g a"
      using free_spec [OF gr(1,2) gf(1)] by blast
    have e: "nat (int (brk h) + int nu * 8) = brk h + nu * 8" by (simp add: nat_add_distrib nat_mult_distrib)
    have mc: "morecore n h = Some (freep k, k)"
      using False nu k(1) e by (simp add: morecore_def Let_def sint_small [OF nu(2), simplified] sbrk_def g_def algebra_simps)
    have "hbase k = hbase h" using k(4) gf by (simp add: same_heap_def)
    then have "freep k \<noteq> 0" using k(2,3) b(2) by (cases "freep k = hbase k") (auto simp: ring_def)
    then have step: "malloc_loop n (freep h) (hptr h (freep h)) h = malloc_loop n (freep k) (hptr k (freep k)) k"
      using miss mc by simp
    obtain t where t: "t \<in> set cs" "n \<le> hsize k t" using k(6) nu(3) by (auto simp: g_def)
    have fk: "free_bytes k cs = free_bytes h bs \<union> {brk h ..< brk k}"
      using k(4,5) gr(3,4) by (simp add: same_heap_def)
    have sk: "hsize k x = hsize h x" if "x \<notin> free_bytes k cs" for x
    proof -
      have "x \<noteq> brk h" using that fk k(4) gf nu by (auto simp: same_heap_def)
      then show ?thesis using k(7) that gr(5) by simp
    qed
    obtain a l ds where a: "malloc_loop n (freep k) (hptr k (freep k)) k = Some (a + 8, l)" "ring l ds" "freep l \<in> set ds"
      "same_heap k l" "hsize l a = n" "outside l ds a" "free_bytes l ds \<union> block_of l a = free_bytes k cs"
      "\<forall>x. x \<notin> free_bytes k cs \<longrightarrow> hsize l x = hsize k x"
      using malloc_fits [OF k(2,3) n(1) t] by blast
    have same: "hbase l = hbase h" "brk l = brk k" "brk h \<le> brk k" "brk_max l = brk_max h"
      using a(4) k(4) gf by (simp_all add: same_heap_def)
    show ?thesis
      using a same step fk sk by (intro exI [of _ "a + 8"] exI [of _ l]) (auto simp: served_def)
  qed
qed

section \<open>A program that uses the allocator\<close>

text \<open>
  The blocks the program holds: the address of each block's header, and the number of bytes the
  program asked for.
\<close>

definition holds :: "uheap \<Rightarrow> (nat \<rightharpoonup> nat) \<Rightarrow> nat list \<Rightarrow> bool" where
  "holds h L bs \<longleftrightarrow> ring h bs \<and> freep h \<in> set bs \<and>
     (\<forall>a n. L a = Some n \<longrightarrow> outside h bs a \<and> n + 8 \<le> 8 * hsize h a) \<and>
     (\<forall>a b. a \<in> dom L \<longrightarrow> b \<in> dom L \<longrightarrow> a \<noteq> b \<longrightarrow> block_of h a \<inter> block_of h b = {})"

definition heap_inv :: "uheap \<Rightarrow> (nat \<rightharpoonup> nat) \<Rightarrow> bool" where
  "heap_inv h L \<longleftrightarrow> 0 < hbase h \<and> hbase h + 8 \<le> brk h \<and> (if freep h = 0 then L = Map.empty else \<exists>bs. holds h L bs)"

text \<open>The bytes of a block the program may use: all but its header.\<close>

definition payload :: "uheap \<Rightarrow> nat \<Rightarrow> nat set" where
  "payload h a = {a + 8 ..< a + 8 * hsize h a}"

text \<open>
  A history of a program that frees only what it holds and stores only into what it holds. A store
  to a byte of a block can change what would be read as a header anywhere inside the block, behind
  the block's own header.
\<close>

inductive uses :: "uheap \<Rightarrow> (nat \<rightharpoonup> nat) \<Rightarrow> bool" where
  start: "0 < hbase h \<Longrightarrow> hbase h + 8 \<le> brk h \<Longrightarrow> freep h = 0 \<Longrightarrow> uses h Map.empty"
| got: "uses h L \<Longrightarrow> n \<le> 2 ^ 31 - 16 \<Longrightarrow> malloc n h = Some (p, g) \<Longrightarrow> p \<noteq> 0 \<Longrightarrow> uses g (L(p - 8 \<mapsto> n))"
| refused: "uses h L \<Longrightarrow> n \<le> 2 ^ 31 - 16 \<Longrightarrow> malloc n h = Some (0, g) \<Longrightarrow> uses g L"
| freed: "uses h L \<Longrightarrow> a \<in> dom L \<Longrightarrow> free (a + 8) h = Some g \<Longrightarrow> uses g (L(a := None))"
| stored: "uses h L \<Longrightarrow> a \<in> dom L \<Longrightarrow> \<forall>y. y \<notin> {a <..< a + 8 * hsize h a} \<longrightarrow> f y = hptr h y \<and> k y = hsize h y \<Longrightarrow>
    uses (h\<lparr>hptr := f, hsize := k\<rparr>) L"

lemma units_bounds: "n \<le> 2 ^ 31 - 16 \<Longrightarrow> 0 < units n \<and> units n * 8 < 2 ^ 31 \<and> n + 8 \<le> 8 * units n"
  unfolding units_def by simp arith

lemma outside_notin: "outside h bs a \<Longrightarrow> x \<in> block_of h a \<Longrightarrow> x \<notin> free_bytes h bs"
  by (auto simp: outside_def)

text \<open>What an operation leaves alone stays held.\<close>

lemma holds_frame:
  assumes "holds h L bs" "ring g cs" "freep g \<in> set cs" "hbase g = hbase h" "brk h \<le> brk g"
    and fb: "free_bytes g cs \<inter> (\<Union>a \<in> dom L. block_of h a) = {}"
    and sz: "\<And>x. x \<in> (\<Union>a \<in> dom L. block_of h a) \<Longrightarrow> hsize g x = hsize h x"
  shows "holds g L cs" "\<And>a. a \<in> dom L \<Longrightarrow> block_of g a = block_of h a"
proof -
  have s: "hsize g a = hsize h a" if "L a = Some n" for a n
  proof (rule sz)
    show "a \<in> (\<Union>a \<in> dom L. block_of h a)" using that assms(1) by (force simp: holds_def outside_def block_of_def)
  qed
  then show bl: "\<And>a. a \<in> dom L \<Longrightarrow> block_of g a = block_of h a" by (auto simp: block_of_def)
  have "outside g cs a" if "L a = Some n" for a n
    using assms(1,4,5) s [OF that] fb that bl [of a] by (fastforce simp: holds_def outside_def)
  then show "holds g L cs" using assms s bl by (auto simp: holds_def)
qed

lemma heap_inv_init:
  assumes "heap_inv h L"
  defines "k \<equiv> (if freep h = 0 then set_size (hbase h) 0 (set_ptr (hbase h) (hbase h) (h\<lparr>freep := hbase h\<rparr>)) else h)"
  shows "\<exists>bs. holds k L bs" "hbase k = hbase h" "brk k = brk h" "brk_max k = brk_max h"
proof -
  show "hbase k = hbase h" "brk k = brk h" "brk_max k = brk_max h" by (simp_all add: k_def)
  have "holds k L [hbase h]" if "freep h = 0" using that assms by (auto simp: k_def heap_inv_def holds_def ring_def)
  then show "\<exists>bs. holds k L bs" using assms by (cases "freep h = 0") (auto simp: heap_inv_def)
qed

lemma holds_freep: "holds h L bs \<Longrightarrow> 0 < hbase h \<Longrightarrow> freep h \<noteq> 0"
  by (cases "freep h = hbase h") (auto simp: holds_def ring_def)

lemma heap_invI: "holds h L bs \<Longrightarrow> 0 < hbase h \<Longrightarrow> hbase h + 8 \<le> brk h \<Longrightarrow> heap_inv h L"
  unfolding heap_inv_def using holds_freep [of h L bs] by auto

lemma malloc_spec:
  assumes i: "heap_inv h L" and n: "n \<le> 2 ^ 31 - 16"
  shows "\<exists>p g. malloc n h = Some (p, g) \<and>
    (if p = 0 then heap_inv g L \<and> brk_max h < brk h + 8 * max (units n) 4096
     else heap_inv g (L(p - 8 \<mapsto> n)) \<and> p - 8 \<notin> dom L)"
proof -
  define k where "k = (if freep h = 0 then set_size (hbase h) 0 (set_ptr (hbase h) (hbase h) (h\<lparr>freep := hbase h\<rparr>)) else h)"
  obtain bs where bs: "holds k L bs" using heap_inv_init(1) [OF i] by (auto simp: k_def)
  note k = heap_inv_init(2-4) [OF i, folded k_def]
  have b: "hbase k + 8 \<le> brk k" "0 < hbase k" using i k by (simp_all add: heap_inv_def)
  have r: "ring k bs" "freep k \<in> set bs" using bs by (simp_all add: holds_def)
  have ub: "0 < units n" "units n * 8 < 2 ^ 31" using units_bounds [OF n] by simp_all
  obtain p g where g: "malloc_loop (units n) (freep k) (hptr k (freep k)) k = Some (p, g)" "hbase g = hbase k" "brk k \<le> brk g"
    and post: "served (units n) k bs p g"
    using malloc_loop_spec [OF r b ub] by blast
  have m: "malloc n h = Some (p, g)" using g(1) by (simp add: malloc_def k_def Let_def)
  have gb: "0 < hbase g" "hbase g + 8 \<le> brk g" using g b by simp_all
  show ?thesis
  proof (cases "p = 0")
    case True
    then have "holds g L bs" using post bs by (simp add: served_def)
    then have "heap_inv g L" using gb by (rule heap_invI)
    then show ?thesis using m post True k by (auto simp: served_def)
  next
    case False
    obtain a cs where a: "p = a + 8" "ring g cs" "freep g \<in> set cs" "hsize g a = units n" "outside g cs a"
      "free_bytes g cs \<union> block_of g a = free_bytes k bs \<union> {brk k ..< brk g}"
      "\<forall>x. x \<notin> free_bytes k bs \<union> {brk k ..< brk g} \<longrightarrow> hsize g x = hsize k x"
      using post False by (auto simp: served_def)
    let ?U = "\<Union>a \<in> dom L. block_of k a"
    have U: "?U \<inter> (free_bytes k bs \<union> {brk k ..< brk g}) = {}"
      using bs by (fastforce simp: holds_def outside_def block_of_def)
    have hl: "holds g L cs" and bl: "\<And>b. b \<in> dom L \<Longrightarrow> block_of g b = block_of k b"
      by (rule holds_frame [OF bs a(2,3) g(2,3)]; use U a(6,7) in blast)+
    have dis: "block_of g a \<inter> block_of g b = {}" if "b \<in> dom L" for b using U a(6) bl [OF that] that by blast
    have "a \<in> block_of g a" using a(4) units_bounds [OF n] by (simp add: block_of_def)
    moreover have "b \<in> block_of g b" if "b \<in> dom L" for b
      using hl that by (auto simp: holds_def outside_def block_of_def)
    ultimately have "a \<notin> dom L" using dis by blast
    moreover have "holds g (L(a \<mapsto> n)) cs"
      using hl a(4,5) units_bounds [OF n] dis by (auto simp: holds_def Int_commute)
    ultimately show ?thesis using m a(1) heap_invI [OF _ gb] by (auto simp del: fun_upd_apply)
  qed
qed

lemma free_keeps:
  assumes i: "heap_inv h L" and a: "a \<in> dom L"
  shows "\<exists>g. free (a + 8) h = Some g \<and> heap_inv g (L(a := None))"
proof -
  obtain bs where bs: "holds h L bs" using i a by (auto simp: heap_inv_def split: if_splits)
  have r: "ring h bs" "freep h \<in> set bs" "outside h bs a" using bs a by (auto simp: holds_def)
  obtain g cs where g: "free (a + 8) h = Some g" "ring g cs" "freep g \<in> set cs" "same_heap h g"
    "free_bytes g cs = free_bytes h bs \<union> block_of h a" "\<forall>x. x \<notin> free_bytes g cs \<longrightarrow> hsize g x = hsize h x"
    using free_spec [OF r(1,3,2)] by blast
  have h1: "holds h (L(a := None)) bs" using bs by (auto simp: holds_def)
  have U: "free_bytes g cs \<inter> (\<Union>b \<in> dom (L(a := None)). block_of h b) = {}"
  proof -
    have "block_of h b \<inter> free_bytes g cs = {}" if "b \<in> dom (L(a := None))" for b
    proof -
      have "b \<in> dom L" "b \<noteq> a" using that by (auto split: if_splits)
      then have "outside h bs b" "block_of h a \<inter> block_of h b = {}" using bs a by (auto simp: holds_def)
      then show ?thesis unfolding g(5) outside_def by blast
    qed
    then show ?thesis by blast
  qed
  have hg: "holds g (L(a := None)) cs"
    by (rule holds_frame(1) [OF h1 g(2,3)]) (use g(4,6) U in \<open>auto simp: same_heap_def\<close>)
  have "0 < hbase g" "hbase g + 8 \<le> brk g" using g(4) i by (simp_all add: same_heap_def heap_inv_def)
  then show ?thesis using g(1) heap_invI [OF hg] by blast
qed

lemma store_keeps:
  assumes i: "heap_inv h L" and a: "a \<in> dom L"
    and s: "\<forall>y. y \<notin> {a <..< a + 8 * hsize h a} \<longrightarrow> f y = hptr h y \<and> k y = hsize h y"
  shows "heap_inv (h\<lparr>hptr := f, hsize := k\<rparr>) L"
proof -
  let ?g = "h\<lparr>hptr := f, hsize := k\<rparr>"
  obtain bs where bs: "holds h L bs" "freep h \<noteq> 0" using i a by (auto simp: heap_inv_def split: if_splits)
  have in_a: "y \<in> block_of h a" if "y \<in> {a <..< a + 8 * hsize h a}" for y using that by (simp add: block_of_def)
  have r: "ring h bs" "outside h bs a" using bs a by (auto simp: holds_def)
  have fr: "f b = hptr h b \<and> k b = hsize h b" if "b \<in> set bs" for b
  proof (cases "b = hbase h")
    case True
    then show ?thesis using s r by (auto simp: outside_def)
  next
    case False
    then have "b \<in> free_bytes h bs" using r that by (auto simp: ring_def free_bytes_def block_of_def)
    then have "b \<notin> block_of h a" using r by (auto simp: outside_def)
    then show ?thesis using s in_a by blast
  qed
  have lv: "k b = hsize h b" if "b \<in> dom L" for b
  proof (cases "b = a")
    case False
    then have "block_of h a \<inter> block_of h b = {}" "b \<in> block_of h b"
      using bs that a by (auto simp: holds_def outside_def block_of_def)
    then show ?thesis using s in_a by blast
  qed (use s in auto)
  have ch: "chain f bs e = chain (hptr h) bs e" for e by (rule chain_cong) (use fr in blast)
  have so: "sorted_wrt (\<lambda>b c. b + 8 * hsize ?g b < c) bs" using sorted_gap_cong [of bs ?g h] fr r by (simp add: ring_def)
  have "hbase h \<in> set bs" using r hd_in_set [of bs] by (auto simp: ring_def)
  then have "ring ?g bs" using r ch so fr by (auto simp: ring_def)
  moreover have "free_bytes ?g bs = free_bytes h bs" by (rule free_bytes_cong) (simp add: fr)
  moreover have "block_of ?g b = block_of h b" if "b \<in> dom L" for b using lv [OF that] by (simp add: block_of_def)
  ultimately have "holds ?g L bs" using bs lv by (auto simp: holds_def outside_def dom_def)
  then show ?thesis using i bs(2) by (auto simp: heap_inv_def)
qed

lemma uses_inv: "uses h L \<Longrightarrow> heap_inv h L"
proof (induction rule: uses.induct)
  case (got h L n p g)
  then show ?case using malloc_spec [of h L n] by (auto simp del: fun_upd_apply)
next
  case (refused h L n g)
  then show ?case using malloc_spec [of h L n] by (auto simp del: fun_upd_apply)
next
  case (freed h L a g)
  then show ?case using free_keeps [of h L a] by (auto simp del: fun_upd_apply)
next
  case (stored h L a f k)
  then show ?case using store_keeps by blast
qed (simp add: heap_inv_def)


definition small_heap :: uheap where
  "small_heap = \<lparr>hptr = (\<lambda>_. 0), hsize = (\<lambda>_. 0), hbase = 4096, freep = 0, brk = 8192, brk_max = 65536\<rparr>"


text \<open>
  A request in the last seven bytes below the 32-bit limit wraps around and is served with a
  header alone.
\<close>

lemma malloc_request_wraps: "2 ^ 32 - 7 \<le> n \<Longrightarrow> n < 2 ^ 32 \<Longrightarrow> units n = 1"
proof -
  assume n: "2 ^ 32 - 7 \<le> n" "n < 2 ^ 32"
  define k where "k = n - (2 ^ 32 - 7)"
  have "n + 8 - 1 = k + 2 ^ 32" "k < 8" using n by (auto simp: k_def)
  then show ?thesis by (simp add: units_def)
qed

end
