(* ===== verification/Ulib.thy ===== *)
theory Ulib imports Cstring Digits begin

text \<open>
  What user programs are made of: a program is a tree of system calls, each continued by what the
  kernel answers; the string functions of \<open>src/ulib.c\<close> on a byte memory; \<open>gets\<close> and \<open>stat\<close> of
  \<open>src/ulib.c\<close>; and \<open>printf\<close> of \<open>src/printf.c\<close>. The calls are those of \<open>src/user.h\<close>.
\<close>

section \<open>Programs\<close>

text \<open>The system calls with their arguments. A buffer that is written out is its contents.\<close>

datatype sysreq =
    SFork | SWait | SWaitx | SPipe | SGetpid | SUptime
  | SWrite int string | SRead int nat | SClose int | SDup int | SFstat int
  | SOpen string int | SExec string "string list" | SMknod string int int
  | SUnlink string | SLink string string | SMkdir string | SChdir string
  | SKill int | SSbrk int | SSleep int

record ustat =
  u_type :: int
  u_dev :: int
  u_ino :: int
  u_nlink :: int
  u_size :: int

text \<open>
  What the kernel answers: a number; the bytes a read delivered, their count being the returned
  value; a successful \<open>fstat\<close>; the two descriptors of a pipe; a child with its times.
\<close>

datatype answer = AInt int | ABytes string | AStat ustat | APipe int int | ATimes int int int

fun ret_of :: "answer \<Rightarrow> int" where
  "ret_of (AInt n) = n"
| "ret_of (ABytes d) = int (length d)"
| "ret_of (AStat st) = 0"
| "ret_of (APipe a b) = 0"
| "ret_of (ATimes pid w r) = pid"

fun data_of :: "answer \<Rightarrow> string" where
  "data_of (ABytes d) = d"
| "data_of _ = []"

text \<open>
  A program returns a value, exits, calls the kernel, does something C leaves undefined, or has
  run out of the fuel that bounds its loops.
\<close>

datatype 'a prog = Ret 'a | Exit | Sys sysreq "answer \<Rightarrow> 'a prog" | Crash | Hang

primrec pbind :: "'a prog \<Rightarrow> ('a \<Rightarrow> 'b prog) \<Rightarrow> 'b prog" where
  "pbind (Ret a) f = f a"
| "pbind Exit f = Exit"
| "pbind (Sys q k) f = Sys q (\<lambda>a. pbind (k a) f)"
| "pbind Crash f = Crash"
| "pbind Hang f = Hang"

definition pthen :: "'a prog \<Rightarrow> 'b prog \<Rightarrow> 'b prog" where
  "pthen m n = pbind m (\<lambda>_. n)"

definition call :: "sysreq \<Rightarrow> int prog" where
  "call q = Sys q (\<lambda>a. Ret (ret_of a))"

definition pwhen :: "bool \<Rightarrow> unit prog \<Rightarrow> unit prog" where
  "pwhen b m = (if b then m else Ret ())"

primrec pfor :: "'b list \<Rightarrow> ('b \<Rightarrow> unit prog) \<Rightarrow> unit prog" where
  "pfor [] f = Ret ()"
| "pfor (x # xs) f = pthen (f x) (pfor xs f)"

text \<open>Running a program against a kernel, given by the answer and the next state for each call.\<close>

datatype 'a uend = Returned 'a | Exited | Crashed | Hung

type_synonym 'w os = "sysreq \<Rightarrow> 'w \<Rightarrow> answer \<times> 'w"

primrec run :: "'a prog \<Rightarrow> 'w os \<Rightarrow> 'w \<Rightarrow> 'a uend \<times> 'w" where
  "run (Ret a) os w = (Returned a, w)"
| "run Exit os w = (Exited, w)"
| "run (Sys q k) os w = (let (a, w') = os q w in run (k a) os w')"
| "run Crash os w = (Crashed, w)"
| "run Hang os w = (Hung, w)"

section \<open>Strings\<close>

partial_function (option) strcpy_loop :: "bytemem \<Rightarrow> u32 \<Rightarrow> u32 \<Rightarrow> bytemem option" where
  "strcpy_loop m s t = (let m' = m(s := m t) in if m t \<noteq> 0 then strcpy_loop m' (s + 1) (t + 1) else Some m')"

definition strcpy :: "bytemem \<Rightarrow> u32 \<Rightarrow> u32 \<Rightarrow> bytemem option" where
  "strcpy m s t = strcpy_loop m s t"

partial_function (option) strcmp :: "bytemem \<Rightarrow> u32 \<Rightarrow> u32 \<Rightarrow> int option" where
  "strcmp m p q =
     (if m p \<noteq> 0 \<and> m p = m q then strcmp m (p + 1) (q + 1) else Some (uint (m p) - uint (m q)))"

definition strlen_u :: "bytemem \<Rightarrow> u32 \<Rightarrow> nat option" where
  "strlen_u m s = strlen_from m s 0"

definition memset_u :: "bytemem \<Rightarrow> u32 \<Rightarrow> u32 \<Rightarrow> u32 \<Rightarrow> bytemem" where
  "memset_u m dst c n = stosb m dst c (unat n)"

partial_function (option) strchr :: "bytemem \<Rightarrow> u32 \<Rightarrow> u8 \<Rightarrow> u32 option" where
  "strchr m s c = (if m s = 0 then Some 0 else if m s = c then Some s else strchr m (s + 1) c)"

partial_function (option) atoi_loop :: "bytemem \<Rightarrow> u32 \<Rightarrow> u32 \<Rightarrow> u32 option" where
  "atoi_loop m s n =
     (if 48 \<le> m s \<and> m s \<le> 57 then atoi_loop m (s + 1) (n * 10 + ucast (m s) - 48) else Some n)"

definition atoi :: "bytemem \<Rightarrow> u32 \<Rightarrow> u32 option" where
  "atoi m s = atoi_loop m s 0"

definition memmove_u :: "bytemem \<Rightarrow> u32 \<Rightarrow> u32 \<Rightarrow> int \<Rightarrow> bytemem" where
  "memmove_u m dst src n = copy_up m dst src (nat n)"

text \<open>The programs below keep their strings as lists; a character looked up in one.\<close>

definition has_chr :: "string \<Rightarrow> char \<Rightarrow> bool" where
  "has_chr s c \<longleftrightarrow> c \<in> set (takeWhile (\<lambda>x. x \<noteq> CHR 0x00) s)"

fun atoi_str :: "string \<Rightarrow> u32 \<Rightarrow> u32" where
  "atoi_str [] n = n"
| "atoi_str (c # s) n =
     (if of_char c \<ge> (48 :: nat) \<and> of_char c \<le> (57 :: nat) then atoi_str s (n * 10 + of_nat (of_char c) - 48) else n)"

section \<open>Input\<close>

primrec gets_loop :: "nat \<Rightarrow> string prog" where
  "gets_loop 0 = Ret []"
| "gets_loop (Suc k) =
     Sys (SRead 0 1) (\<lambda>a.
       case data_of a of
         [] \<Rightarrow> Ret []
       | c # _ \<Rightarrow>
           if c = CHR 0x0A \<or> c = CHR 0x0D then Ret [c]
           else pbind (gets_loop k) (\<lambda>s. Ret (c # s)))"

text \<open>The line read; the buffer holds it with a terminating zero.\<close>

definition gets_line :: "nat \<Rightarrow> string prog" where
  "gets_line n = gets_loop (n - 1)"

text \<open>\<open>None\<close> is the answer \<open>-1\<close>.\<close>

definition stat_path :: "string \<Rightarrow> ustat option prog" where
  "stat_path n =
     pbind (call (SOpen n 0)) (\<lambda>fd.
     if fd < 0 then Ret None
     else
       Sys (SFstat fd) (\<lambda>a.
       pthen (call (SClose fd)) (
       Ret (case a of AStat st \<Rightarrow> Some st | _ \<Rightarrow> None))))"

section \<open>Formatted output\<close>

definition putc :: "int \<Rightarrow> char \<Rightarrow> unit prog" where
  "putc fd c = pthen (call (SWrite fd [c])) (Ret ())"

definition hex_digit :: "nat \<Rightarrow> char" where
  "hex_digit d = ''0123456789ABCDEF'' ! d"

definition printint_str :: "u32 \<Rightarrow> nat \<Rightarrow> bool \<Rightarrow> string" where
  "printint_str xx base sign =
     (let neg = (sign \<and> sint xx < 0);
          x = (if neg then - xx else xx);
          buf = map hex_digit (print_digits base (unat x)) @ (if neg then ''-'' else []) in
      rev buf)"

definition printint_fd :: "int \<Rightarrow> u32 \<Rightarrow> nat \<Rightarrow> bool \<Rightarrow> unit prog" where
  "printint_fd fd xx base sign = pfor (printint_str xx base sign) (putc fd)"

text \<open>The arguments after the format: words, and pointers to strings with \<open>None\<close> as the null pointer.\<close>

datatype uarg = UW u32 | US "string option"

text \<open>The loop over the format; the flag is set after a percent sign.\<close>

fun printf_loop :: "int \<Rightarrow> bool \<Rightarrow> string \<Rightarrow> uarg list \<Rightarrow> unit prog" where
  "printf_loop fd pct [] args = Ret ()"
| "printf_loop fd pct (c # fmt) args =
     (if \<not> pct then
        if c = CHR ''%'' then printf_loop fd True fmt args
        else pthen (putc fd c) (printf_loop fd False fmt args)
      else if c = CHR ''d'' then
        (case args of UW x # rest \<Rightarrow> pthen (printint_fd fd x 10 True) (printf_loop fd False fmt rest) | _ \<Rightarrow> Crash)
      else if c = CHR ''x'' \<or> c = CHR ''p'' then
        (case args of UW x # rest \<Rightarrow> pthen (printint_fd fd x 16 False) (printf_loop fd False fmt rest) | _ \<Rightarrow> Crash)
      else if c = CHR ''s'' then
        (case args of
           US s # rest \<Rightarrow>
             pthen (pfor (case s of None \<Rightarrow> ''(null)'' | Some t \<Rightarrow> t) (putc fd)) (printf_loop fd False fmt rest)
         | _ \<Rightarrow> Crash)
      else if c = CHR ''c'' then
        (case args of
           UW x # rest \<Rightarrow> pthen (putc fd (char_of (unat x))) (printf_loop fd False fmt rest)
         | _ \<Rightarrow> Crash)
      else if c = CHR ''%'' then pthen (putc fd c) (printf_loop fd False fmt args)
      else pthen (putc fd CHR ''%'') (pthen (putc fd c) (printf_loop fd False fmt args)))"

definition printf :: "int \<Rightarrow> string \<Rightarrow> uarg list \<Rightarrow> unit prog" where
  "printf fd fmt args = printf_loop fd False fmt args"

section \<open>The string functions return\<close>

text \<open>A string stored in memory, with its terminating zero.\<close>

fun stored :: "bytemem \<Rightarrow> u32 \<Rightarrow> u8 list \<Rightarrow> bool" where
  "stored m s [] = (m s = 0)"
| "stored m s (a # t) = (a \<noteq> 0 \<and> m s = a \<and> stored m (s + 1) t)"

lemma strchr_stored:
  "stored m s t \<Longrightarrow> strchr m s c = Some (if c \<in> set t then s + of_nat (length (takeWhile (\<lambda>x. x \<noteq> c) t)) else 0)"
  by (induction t arbitrary: s) (auto simp: strchr.simps algebra_simps)

lemma strcmp_stored:
  "stored m p t \<Longrightarrow> stored m q u \<Longrightarrow> strcmp m p q = Some (cstrncmp t u (Suc (length t)))"
proof (induction t arbitrary: p q u)
  case Nil
  then show ?case by (cases u) (auto simp: strcmp.simps)
next
  case (Cons a t)
  then show ?case by (cases u) (auto simp: strcmp.simps [of m p q])
qed

lemma atoi_stored:
  "stored m s t \<Longrightarrow> atoi_loop m s n = Some (atoi_str (map (\<lambda>b. char_of (unat b)) t) n)"
proof (induction t arbitrary: s n)
  case (Cons a t)
  have "of_char (char_of (unat a) :: char) = (unat a :: nat)" using unsigned_less [of a, where ?'a = nat] by simp
  then show ?case using Cons by (auto simp: atoi_loop.simps [of m s] word_le_nat_alt)
qed (simp add: atoi_loop.simps)

lemma strcpy_stored:
  "stored m t u \<Longrightarrow> length u < 2 ^ 32 \<Longrightarrow> \<not> (0 < unat (s - t) \<and> unat (s - t) \<le> length u) \<Longrightarrow>
    strcpy_loop m s t = Some (copy_up m s t (Suc (length u)))"
proof (induction u arbitrary: m s t)
  case Nil
  then show ?case by (simp add: strcpy_loop.simps fun_upd_def)
next
  case (Cons a u)
  have keep: "stored (m(s := a)) (t + 1 + of_nat i) v" if "stored m (t + 1 + of_nat i) v" "i + length v \<le> length u" for i v
    using that
  proof (induction v arbitrary: i)
    have ne: "t + 1 + of_nat i \<noteq> s" if "i \<le> length u" for i
    proof
      assume "t + 1 + of_nat i = s"
      then have "s - t = of_nat (Suc i)" by (auto simp: algebra_simps)
      then have "unat (s - t) = Suc i" using Cons.prems(2) that by (simp add: unsigned_of_nat take_bit_nat_eq_self del: of_nat_Suc)
      then show False using Cons.prems(3) that by simp
    qed
    {
      case Nil
      then show ?case using ne [of i] by simp
    next
      case (Cons b v)
      then show ?case using ne [of i] Cons.IH [of "Suc i"] by (simp add: algebra_simps)
    }
  qed
  have "stored (m(s := a)) (t + 1) u" using keep [of 0 u] Cons.prems(1) by simp
  moreover have "\<not> (0 < unat (s + 1 - (t + 1)) \<and> unat (s + 1 - (t + 1)) \<le> length u)" using Cons.prems(3) by auto
  moreover have "length u < 2 ^ 32" using Cons.prems(2) by simp
  ultimately have "strcpy_loop (m(s := a)) (s + 1) (t + 1) = Some (copy_up (m(s := a)) (s + 1) (t + 1) (Suc (length u)))"
    using Cons.IH by blast
  moreover have "strcpy_loop m s t = strcpy_loop (m(s := a)) (s + 1) (t + 1)"
    using Cons.prems(1) by (simp add: strcpy_loop.simps [of m s t])
  moreover have "copy_up m s t (Suc (length (a # u))) = copy_up (m(s := a)) (s + 1) (t + 1) (Suc (length u))"
    using Cons.prems(1) by simp
  ultimately show ?case by (simp only:)
qed

section \<open>Running programs\<close>

lemma run_pbind:
  "run (pbind m f) os w = (case run m os w of (Returned a, w') \<Rightarrow> run (f a) os w' | (Exited, w') \<Rightarrow> (Exited, w')
     | (Crashed, w') \<Rightarrow> (Crashed, w') | (Hung, w') \<Rightarrow> (Hung, w'))"
  by (induction m arbitrary: w) (auto simp: Let_def split: prod.splits)

lemma run_pthen:
  "run (pthen m n) os w = (case run m os w of (Returned a, w') \<Rightarrow> run n os w' | (Exited, w') \<Rightarrow> (Exited, w')
     | (Crashed, w') \<Rightarrow> (Crashed, w') | (Hung, w') \<Rightarrow> (Hung, w'))"
  by (simp add: pthen_def run_pbind)

lemma run_call: "run (call q) os w = (case os q w of (a, w') \<Rightarrow> (Returned (ret_of a), w'))"
  by (simp add: call_def split: prod.splits)

lemmas run_simps_u = run_pbind run_pthen run_call

text \<open>
  The environment of a filter: what is to be read comes in chunks, as files, pipes and the console
  deliver it, and every write is taken in full. An \<open>open\<close> succeeds, everything else returns 0.
\<close>

record fenv =
  fin :: "string list"
  fout :: "(int \<times> string) list"

definition feed :: "fenv os" where
  "feed q w =
     (case q of
        SRead fd n \<Rightarrow>
          (case fin w of
             [] \<Rightarrow> (ABytes [], w)
           | c # cs \<Rightarrow> (ABytes (take n c), w\<lparr>fin := (if length c \<le> n then cs else drop n c # cs)\<rparr>))
      | SWrite fd d \<Rightarrow> (AInt (int (length d)), w\<lparr>fout := fout w @ [(fd, d)]\<rparr>)
      | SOpen p m \<Rightarrow> (AInt 3, w)
      | _ \<Rightarrow> (AInt 0, w))"

definition out_on :: "int \<Rightarrow> fenv \<Rightarrow> string" where
  "out_on fd w = concat (map snd (filter (\<lambda>x. fst x = fd) (fout w)))"

definition emit :: "int \<Rightarrow> string \<Rightarrow> fenv \<Rightarrow> fenv" where
  "emit fd s w = w\<lparr>fout := fout w @ map (\<lambda>c. (fd, [c])) s\<rparr>"

lemma emit_emit [simp]: "emit fd t (emit fd s w) = emit fd (s @ t) w" "emit fd [] w = w" "fin (emit fd s w) = fin w"
  by (simp_all add: emit_def)

lemma out_emit [simp]: "out_on fd (emit fd s w) = out_on fd w @ s"
  by (induction s arbitrary: w) (simp_all add: out_on_def emit_def filter_map comp_def)

lemma run_putc: "run (putc fd c) feed w = (Returned (), emit fd [c] w)"
  by (simp add: putc_def run_simps_u feed_def emit_def)

lemma run_pfor_putc: "run (pfor s (putc fd)) feed w = (Returned (), emit fd s w)"
  by (induction s arbitrary: w) (simp_all add: run_pthen run_putc)

text \<open>The text a format stands for.\<close>

fun printf_text :: "bool \<Rightarrow> string \<Rightarrow> uarg list \<Rightarrow> string option" where
  "printf_text pct [] args = Some []"
| "printf_text pct (c # fmt) args =
     (if \<not> pct then
        if c = CHR ''%'' then printf_text True fmt args else map_option (Cons c) (printf_text False fmt args)
      else if c = CHR ''d'' \<or> c = CHR ''x'' \<or> c = CHR ''p'' \<or> c = CHR ''c'' then
        (case args of
           UW x # rest \<Rightarrow>
             map_option (append (if c = CHR ''d'' then printint_str x 10 True else if c = CHR ''c'' then [char_of (unat x)]
               else printint_str x 16 False)) (printf_text False fmt rest)
         | _ \<Rightarrow> None)
      else if c = CHR ''s'' then
        (case args of
           US s # rest \<Rightarrow> map_option (append (case s of None \<Rightarrow> ''(null)'' | Some t \<Rightarrow> t)) (printf_text False fmt rest)
         | _ \<Rightarrow> None)
      else map_option (append (if c = CHR ''%'' then [c] else [CHR ''%'', c])) (printf_text False fmt args))"

lemma run_printf_loop:
  "printf_text pct fmt args = Some t \<Longrightarrow> run (printf_loop fd pct fmt args) feed w = (Returned (), emit fd t w)"
proof (induction fmt arbitrary: pct args t w)
  case (Cons c fmt)
  show ?case
  proof (cases pct)
    case False
    then show ?thesis using Cons.IH Cons.prems by (auto simp: run_simps_u run_putc split: if_splits)
  next
    case True
    consider (w) "c = CHR ''d'' \<or> c = CHR ''x'' \<or> c = CHR ''p'' \<or> c = CHR ''c''" | (s) "c = CHR ''s''"
      | (e) "c = CHR ''%''" | (u) "c \<notin> set ''dxpcs%''" by auto
    then show ?thesis
    proof cases
      case w
      then obtain x rest t' where x: "args = UW x # rest" "printf_text False fmt rest = Some t'"
        using Cons.prems True by (auto split: list.splits uarg.splits)
      then have t: "t = (if c = CHR ''d'' then printint_str x 10 True else if c = CHR ''c'' then [char_of (unat x)]
          else printint_str x 16 False) @ t'" using Cons.prems True w by auto
      show ?thesis using w x True Cons.IH unfolding t
        by (elim disjE) (simp_all add: run_simps_u run_putc run_pfor_putc printint_fd_def)
    next
      case s
      then obtain x rest t' where x: "args = US x # rest" "printf_text False fmt rest = Some t'"
        using Cons.prems True by (auto split: list.splits uarg.splits)
      then have t: "t = (case x of None \<Rightarrow> ''(null)'' | Some t \<Rightarrow> t) @ t'" using Cons.prems True s by auto
      show ?thesis using s x True Cons.IH unfolding t by (simp add: run_simps_u run_pfor_putc)
    next
      case e
      then show ?thesis using Cons.prems True Cons.IH by (auto simp: run_simps_u run_putc)
    next
      case u
      then show ?thesis using Cons.prems True Cons.IH by (auto simp: run_simps_u run_putc)
    qed
  qed
qed simp

lemma run_printf: "printf_text False fmt args = Some t \<Longrightarrow> run (printf fd fmt args) feed w = (Returned (), emit fd t w)"
  by (simp add: printf_def run_printf_loop)

end
