(* ===== verification/Uprogs.thy ===== *)
theory Uprogs imports Ulib begin

text \<open>
  The small user programs: \<open>src/cat.c\<close>, \<open>src/wc.c\<close>, \<open>src/echo.c\<close>, \<open>src/kill.c\<close>, \<open>src/ln.c\<close>, \<open>src/mkdir.c\<close>,
  \<open>src/rm.c\<close>, \<open>src/ls.c\<close>, \<open>src/init.c\<close>, \<open>src/time.c\<close>, \<open>src/zombie.c\<close>, \<open>src/stressfs.c\<close>, \<open>src/forktest.c\<close> and
  \<open>src/fun.c\<close>. Each \<open>main\<close> takes the argument vector without its terminating null pointer, the program
  name first. A \<open>fork\<close> is a call like any other here: both processes go on with the program that
  follows it, with different answers.
\<close>

section \<open>The programs\<close>

definition nl :: string where "nl = [CHR 0x0A]"

text \<open>Opening each file named in the arguments in turn.\<close>

definition each_file :: "string \<Rightarrow> string list \<Rightarrow> (int \<Rightarrow> string \<Rightarrow> unit prog) \<Rightarrow> unit prog" where
  "each_file err files f =
     pfor files (\<lambda>name.
       pbind (call (SOpen name 0)) (\<lambda>fd.
       if fd < 0 then pthen (printf 1 err [US (Some name)]) Exit
       else pthen (f fd name) (pthen (call (SClose fd)) (Ret ()))))"

subsection \<open>cat\<close>

primrec cat_loop :: "nat \<Rightarrow> int \<Rightarrow> int prog" where
  "cat_loop 0 fd = Hang"
| "cat_loop (Suc k) fd =
     Sys (SRead fd 512) (\<lambda>a.
       if ret_of a > 0 then pthen (call (SWrite 1 (data_of a))) (cat_loop k fd) else Ret (ret_of a))"

definition cat :: "nat \<Rightarrow> int \<Rightarrow> unit prog" where
  "cat fuel fd =
     pbind (cat_loop fuel fd) (\<lambda>n.
     pwhen (n < 0) (pthen (printf 1 (''cat: read error'' @ nl) []) Exit))"

definition cat_main :: "nat \<Rightarrow> string list \<Rightarrow> unit prog" where
  "cat_main fuel argv =
     pthen (if length argv \<le> 1 then cat fuel 0
            else each_file (''cat: cannot open %s'' @ nl) (tl argv) (\<lambda>fd _. cat fuel fd)) Exit"

subsection \<open>wc\<close>

text \<open>Lines, words and characters so far, and whether the last character was inside a word.\<close>

definition wc_char :: "char \<Rightarrow> u32 \<times> u32 \<times> u32 \<times> bool \<Rightarrow> u32 \<times> u32 \<times> u32 \<times> bool" where
  "wc_char ch = (\<lambda>(l, w, c, inword).
     let c = c + 1;
         l = (if ch = CHR 0x0A then l + 1 else l) in
     if has_chr [CHR '' '', CHR 0x0D, CHR 0x09, CHR 0x0A, CHR 0x0B] ch then (l, w, c, False)
     else if \<not> inword then (l, w + 1, c, True)
     else (l, w, c, inword))"

primrec wc_loop :: "nat \<Rightarrow> int \<Rightarrow> u32 \<times> u32 \<times> u32 \<times> bool \<Rightarrow> (int \<times> u32 \<times> u32 \<times> u32 \<times> bool) prog" where
  "wc_loop 0 fd st = Hang"
| "wc_loop (Suc k) fd st =
     Sys (SRead fd 512) (\<lambda>a.
       if ret_of a > 0 then wc_loop k fd (fold wc_char (data_of a) st) else Ret (ret_of a, st))"

definition wc :: "nat \<Rightarrow> int \<Rightarrow> string \<Rightarrow> unit prog" where
  "wc fuel fd name =
     pbind (wc_loop fuel fd (0, 0, 0, False)) (\<lambda>(n, l, w, c, _).
     if n < 0 then pthen (printf 1 (''wc: read error'' @ nl) []) Exit
     else printf 1 (''%d %d %d %s'' @ nl) [UW l, UW w, UW c, US (Some name)])"

definition wc_main :: "nat \<Rightarrow> string list \<Rightarrow> unit prog" where
  "wc_main fuel argv =
     pthen (if length argv \<le> 1 then wc fuel 0 []
            else each_file (''wc: cannot open %s'' @ nl) (tl argv) (\<lambda>fd name. wc fuel fd name)) Exit"

subsection \<open>echo, kill, ln, mkdir and rm\<close>

primrec echo_args :: "string list \<Rightarrow> unit prog" where
  "echo_args [] = Ret ()"
| "echo_args (a # as) =
     pthen (printf 1 ''%s%s'' [US (Some a), US (Some (if as \<noteq> [] then '' '' else nl))]) (echo_args as)"

definition echo_main :: "string list \<Rightarrow> unit prog" where
  "echo_main argv = pthen (echo_args (tl argv)) Exit"

definition kill_main :: "string list \<Rightarrow> unit prog" where
  "kill_main argv =
     (if length argv < 2 then pthen (printf 2 (''usage: kill pid...'' @ nl) []) Exit
      else pthen (pfor (tl argv) (\<lambda>a. pthen (call (SKill (sint (atoi_str a 0)))) (Ret ()))) Exit)"

definition ln_main :: "string list \<Rightarrow> unit prog" where
  "ln_main argv =
     (if length argv \<noteq> 3 then pthen (printf 2 (''Usage: ln old new'' @ nl) []) Exit
      else
        pbind (call (SLink (argv ! 1) (argv ! 2))) (\<lambda>r.
        pthen (pwhen (r < 0) (printf 2 (''link %s %s: failed'' @ nl) [US (Some (argv ! 1)), US (Some (argv ! 2))])) Exit))"

text \<open>A loop over the arguments that stops at the first failure.\<close>

primrec until_fail :: "(string \<Rightarrow> sysreq) \<Rightarrow> string \<Rightarrow> string list \<Rightarrow> unit prog" where
  "until_fail q err [] = Ret ()"
| "until_fail q err (a # as) =
     pbind (call (q a)) (\<lambda>r. if r < 0 then printf 2 err [US (Some a)] else until_fail q err as)"

definition mkdir_main :: "string list \<Rightarrow> unit prog" where
  "mkdir_main argv =
     (if length argv < 2 then pthen (printf 2 (''Usage: mkdir files...'' @ nl) []) Exit
      else pthen (until_fail SMkdir (''mkdir: %s failed to create'' @ nl) (tl argv)) Exit)"

definition rm_main :: "string list \<Rightarrow> unit prog" where
  "rm_main argv =
     (if length argv < 2 then pthen (printf 2 (''Usage: rm files...'' @ nl) []) Exit
      else pthen (until_fail SUnlink (''rm: %s failed to delete'' @ nl) (tl argv)) Exit)"

subsection \<open>ls\<close>

definition DIRSIZ_u :: nat where "DIRSIZ_u = 14"

text \<open>The part of a path behind its last slash, padded with blanks.\<close>

definition fmtname :: "string \<Rightarrow> string" where
  "fmtname path =
     (let p = rev (takeWhile (\<lambda>c. c \<noteq> CHR ''/'') (rev path)) in
      if length p \<ge> DIRSIZ_u then p else p @ replicate (DIRSIZ_u - length p) CHR '' '')"

definition ls_line :: "string \<Rightarrow> ustat \<Rightarrow> unit prog" where
  "ls_line name st =
     printf 1 (''%s %d %d %d'' @ nl)
       [US (Some (fmtname name)), UW (of_int (u_type st)), UW (of_int (u_ino st)), UW (of_int (u_size st))]"

text \<open>A directory entry as the 16 bytes read: the inode number, then the name.\<close>

definition de_parts :: "string \<Rightarrow> nat \<times> string" where
  "de_parts d = (of_char (d ! 0) + 256 * of_char (d ! 1), takeWhile (\<lambda>c. c \<noteq> CHR 0x00) (drop 2 d))"

primrec ls_dir :: "nat \<Rightarrow> int \<Rightarrow> string \<Rightarrow> unit prog" where
  "ls_dir 0 fd path = Hang"
| "ls_dir (Suc k) fd path =
     Sys (SRead fd 16) (\<lambda>a.
       if length (data_of a) \<noteq> 16 then Ret ()
       else
         let (inum, name) = de_parts (data_of a) in
         if inum = 0 then ls_dir k fd path
         else
           let buf = path @ ''/'' @ name in
           pbind (stat_path buf) (\<lambda>r.
           pthen (case r of
                    None \<Rightarrow> printf 1 (''ls: cannot stat %s'' @ nl) [US (Some buf)]
                  | Some st \<Rightarrow> ls_line buf st) (
           ls_dir k fd path)))"

definition ls :: "nat \<Rightarrow> string \<Rightarrow> unit prog" where
  "ls fuel path =
     pbind (call (SOpen path 0)) (\<lambda>fd.
     if fd < 0 then printf 2 (''ls: cannot open %s'' @ nl) [US (Some path)]
     else
       Sys (SFstat fd) (\<lambda>a.
       case a of
         AStat st \<Rightarrow>
           pthen (if u_type st = 2 then ls_line path st
                  else if u_type st = 1 then
                    if length path + 1 + DIRSIZ_u + 1 > 512 then printf 1 (''ls: path too long'' @ nl) []
                    else ls_dir fuel fd path
                  else Ret ()) (
           pthen (call (SClose fd)) (Ret ()))
       | _ \<Rightarrow>
           pthen (printf 2 (''ls: cannot stat %s'' @ nl) [US (Some path)]) (
           pthen (call (SClose fd)) (Ret ()))))"

definition ls_main :: "nat \<Rightarrow> string list \<Rightarrow> unit prog" where
  "ls_main fuel argv =
     pthen (if length argv < 2 then ls fuel ''.'' else pfor (tl argv) (ls fuel)) Exit"

subsection \<open>init\<close>

primrec init_wait :: "nat \<Rightarrow> int \<Rightarrow> unit prog" where
  "init_wait 0 pid = Hang"
| "init_wait (Suc k) pid =
     pbind (call SWait) (\<lambda>wpid.
     if wpid \<ge> 0 \<and> wpid \<noteq> pid then pthen (printf 1 (''zombie!'' @ nl) []) (init_wait k pid) else Ret ())"

primrec init_loop :: "nat \<Rightarrow> unit prog" where
  "init_loop 0 = Hang"
| "init_loop (Suc k) =
     pthen (printf 1 (''init: starting sh'' @ nl) []) (
     pbind (call SFork) (\<lambda>pid.
     if pid < 0 then pthen (printf 1 (''init: fork failed'' @ nl) []) Exit
     else if pid = 0 then
       pthen (call (SExec ''sh'' [''sh''])) (pthen (printf 1 (''init: exec sh failed'' @ nl) []) Exit)
     else pthen (init_wait k pid) (init_loop k)))"

definition init_main :: "nat \<Rightarrow> unit prog" where
  "init_main fuel =
     pbind (call (SOpen ''console'' 2)) (\<lambda>fd.
     pthen (pwhen (fd < 0) (
       pthen (call (SMknod ''console'' 1 1)) (pthen (call (SOpen ''console'' 2)) (Ret ())))) (
     pthen (call (SDup 0)) (
     pthen (call (SDup 0)) (
     init_loop fuel))))"

subsection \<open>time, zombie and fun\<close>

text \<open>The value of \<open>status\<close> in a child whose \<open>exec\<close> fails is whatever the stack holds.\<close>

definition time_main :: "u32 \<Rightarrow> string list \<Rightarrow> unit prog" where
  "time_main junk argv =
     pbind (call SFork) (\<lambda>pid.
     pbind (if pid = 0 then
              if length argv < 2 then Crash
              else
                pthen (call (SExec (argv ! 1) argv)) (
                pthen (printf 1 (''exec %s failed'' @ nl) [US (Some (argv ! 1))]) (
                Ret (3, 4, junk)))
            else
              Sys SWaitx (\<lambda>a. Ret (case a of ATimes p w r \<Rightarrow> (of_int w, of_int r, of_int p) | _ \<Rightarrow> (3, 4, of_int (ret_of a)))))
       (\<lambda>(a, b, status).
     pthen (printf 1 (''Wait Time = %d'' @ nl @ '' Run Time = %d with Status %d '' @ nl) [UW a, UW b, UW status]) Exit))"

definition zombie_main :: "unit prog" where
  "zombie_main = pbind (call SFork) (\<lambda>pid. pthen (pwhen (pid > 0) (pthen (call (SSleep 5)) (Ret ()))) Exit)"

text \<open>\<open>main\<close> returns instead of exiting, to the return address the stack was started with.\<close>

definition fun_main :: "unit prog" where
  "fun_main = pthen (printf 2 ''~~HELLO~~'' []) Crash"

subsection \<open>stressfs\<close>

text \<open>How many of the four forks a process has come out of as the child.\<close>

primrec stress_forks :: "nat \<Rightarrow> nat \<Rightarrow> nat prog" where
  "stress_forks 0 i = Ret i"
| "stress_forks (Suc k) i = pbind (call SFork) (\<lambda>pid. if pid > 0 then Ret i else stress_forks k (i + 1))"

definition stressfs_main :: "unit prog" where
  "stressfs_main =
     pthen (printf 1 (''stressfs starting'' @ nl) []) (
     pbind (stress_forks 4 0) (\<lambda>i.
     pthen (printf 1 (''write %d'' @ nl) [UW (of_nat i)]) (
     let path = ''stressfs'' @ [char_of (48 + i)] in
     pbind (call (SOpen path 0x202)) (\<lambda>fd.
     pthen (pfor [0..<20] (\<lambda>_. pthen (call (SWrite fd (replicate 512 CHR ''a''))) (Ret ()))) (
     pthen (call (SClose fd)) (
     pthen (printf 1 (''read'' @ nl) []) (
     pbind (call (SOpen path 0)) (\<lambda>fd.
     pthen (pfor [0..<20] (\<lambda>_. pthen (call (SRead fd 512)) (Ret ()))) (
     pthen (call (SClose fd)) (
     pthen (call SWait) Exit))))))))))"

subsection \<open>forktest\<close>

text \<open>Its own \<open>printf\<close> writes the format as it is.\<close>

definition ft_printf :: "int \<Rightarrow> string \<Rightarrow> unit prog" where
  "ft_printf fd s = pthen (call (SWrite fd s)) (Ret ())"

definition N_fork :: nat where "N_fork = 1000"

primrec ft_forks :: "nat \<Rightarrow> nat \<Rightarrow> nat prog" where
  "ft_forks 0 n = Ret n"
| "ft_forks (Suc k) n =
     pbind (call SFork) (\<lambda>pid. if pid < 0 then Ret n else if pid = 0 then Exit else ft_forks k (n + 1))"

primrec ft_waits :: "nat \<Rightarrow> unit prog" where
  "ft_waits 0 = Ret ()"
| "ft_waits (Suc n) =
     pbind (call SWait) (\<lambda>r. if r < 0 then pthen (ft_printf 1 (''wait stopped early'' @ nl)) Exit else ft_waits n)"

definition forktest :: "unit prog" where
  "forktest =
     pthen (ft_printf 1 (''fork test'' @ nl)) (
     pbind (ft_forks N_fork 0) (\<lambda>n.
     if n = N_fork then pthen (ft_printf 1 (''fork claimed to work N times!'' @ nl)) Exit
     else
       pthen (ft_waits n) (
       pbind (call SWait) (\<lambda>r.
       if r \<noteq> - 1 then pthen (ft_printf 1 (''wait got too many'' @ nl)) Exit
       else ft_printf 1 (''fork test OK'' @ nl)))))"

definition forktest_main :: "unit prog" where
  "forktest_main = pthen forktest Exit"

section \<open>cat copies\<close>

text \<open>The reads it takes to empty the input, 512 bytes at a time.\<close>

definition pieces :: "string list \<Rightarrow> nat" where
  "pieces cs = sum_list (map length cs)"

lemma feed_read:
  "fin w = c # cs \<Longrightarrow> feed (SRead fd n) w = (ABytes (take n c), w\<lparr>fin := (if length c \<le> n then cs else drop n c # cs)\<rparr>)"
  by (simp add: feed_def)

definition eats :: "string \<Rightarrow> string list \<Rightarrow> string list" where
  "eats c cs = (if length c \<le> 512 then cs else drop 512 c # cs)"

lemma out_on_fin [simp]: "out_on fd (w\<lparr>fin := x\<rparr>) = out_on fd w"
  by (simp add: out_on_def)

lemma eats_facts:
  "c \<noteq> [] \<Longrightarrow> pieces (eats c cs) < pieces (c # cs)" "take 512 c @ concat (eats c cs) = concat (c # cs)"
  "[] \<notin> set (c # cs) \<Longrightarrow> [] \<notin> set (eats c cs)"
  by (auto simp: eats_def pieces_def)

lemma run_cat_loop:
  "[] \<notin> set (fin w) \<Longrightarrow> pieces (fin w) < fuel \<Longrightarrow>
    \<exists>u. run (cat_loop fuel fd) feed w = (Returned 0, u) \<and> fin u = [] \<and> out_on 1 u = out_on 1 w @ concat (fin w)"
proof (induction fuel arbitrary: w)
  case (Suc k)
  show ?case
  proof (cases "fin w")
    case Nil
    then show ?thesis by (simp add: feed_def)
  next
    case (Cons c cs)
    let ?w = "w\<lparr>fin := eats c cs, fout := fout w @ [(1, take 512 c)]\<rparr>"
    have c: "c \<noteq> []" using Cons Suc.prems by auto
    have r: "run (cat_loop (Suc k) fd) feed w = run (cat_loop k fd) feed ?w"
      using Cons c by (simp add: feed_read run_simps_u feed_def eats_def)
    have "[] \<notin> set (fin ?w)" "pieces (fin ?w) < k" using Suc.prems Cons eats_facts [of c cs] c by auto
    from Suc.IH [OF this] obtain u where u: "run (cat_loop k fd) feed ?w = (Returned 0, u)" "fin u = []"
      "out_on 1 u = out_on 1 ?w @ concat (fin ?w)" by blast
    have "out_on 1 ?w @ concat (fin ?w) = out_on 1 w @ concat (fin w)"
      using eats_facts(2) [of c cs] Cons by (simp add: out_on_def)
    then show ?thesis using u r by (intro exI [of _ u]) simp
  qed
qed simp

text \<open>
  C23 (functional): \<open>cat\<close> without arguments writes to its standard output exactly the bytes of its standard
  input, in order, however the input is cut into reads, and exits when the input ends.
\<close>

theorem cat_copies:
  assumes "[] \<notin> set (fin w)" "pieces (fin w) < fuel"
  shows "\<exists>u. run (cat_main fuel [''cat'']) feed w = (Exited, u) \<and> fin u = [] \<and> out_on 1 u = out_on 1 w @ concat (fin w)"
proof -
  obtain u where "run (cat_loop fuel 0) feed w = (Returned 0, u)" "fin u = []" "out_on 1 u = out_on 1 w @ concat (fin w)"
    using run_cat_loop [OF assms] by blast
  then show ?thesis by (simp add: cat_main_def cat_def run_simps_u pwhen_def)
qed

theorem cat_copies_witness:
  "\<exists>u. run (cat_main 9 [''cat'']) feed \<lparr>fin = [''ab'', ''c''], fout = []\<rparr> = (Exited, u) \<and> out_on 1 u = ''abc''"
  using cat_copies [of "\<lparr>fin = [''ab'', ''c''], fout = []\<rparr>" 9] by (auto simp: pieces_def out_on_def)

section \<open>wc counts\<close>

definition is_ws :: "char \<Rightarrow> bool" where
  "is_ws c \<longleftrightarrow> c \<in> {CHR '' '', CHR 0x0D, CHR 0x09, CHR 0x0A, CHR 0x0B}"

text \<open>A word starts at a character that is no white space and has none, or white space, before it.\<close>

definition word_starts :: "string \<Rightarrow> nat set" where
  "word_starts s = {i. i < length s \<and> \<not> is_ws (s ! i) \<and> (i = 0 \<or> is_ws (s ! (i - 1)))}"

lemma word_starts_snoc:
  "word_starts (s @ [c]) = word_starts s \<union> (if \<not> is_ws c \<and> (s = [] \<or> is_ws (last s)) then {length s} else {})"
  by (cases "s = []") (auto simp: word_starts_def nth_append last_conv_nth less_Suc_eq split: if_splits)

lemma finite_word_starts [simp]: "finite (word_starts s)" "length s \<notin> word_starts s"
  by (simp_all add: word_starts_def)

lemma wc_fold:
  "fold wc_char s (0, 0, 0, False) =
     (of_nat (count_list s CHR 0x0A), of_nat (card (word_starts s)), of_nat (length s), s \<noteq> [] \<and> \<not> is_ws (last s))"
proof (induction s rule: rev_induct)
  case Nil
  then show ?case by (simp add: word_starts_def)
next
  case (snoc c s)
  have ws: "has_chr [CHR '' '', CHR 0x0D, CHR 0x09, CHR 0x0A, CHR 0x0B] c = is_ws c" by (auto simp: has_chr_def is_ws_def)
  have e: "fold wc_char (s @ [c]) (0, 0, 0, False) = wc_char c (fold wc_char s (0, 0, 0, False))" by simp
  show ?case unfolding e snoc.IH by (simp add: wc_char_def ws word_starts_snoc Let_def)
qed

lemma run_wc_loop:
  "[] \<notin> set (fin w) \<Longrightarrow> pieces (fin w) < fuel \<Longrightarrow>
    run (wc_loop fuel fd st) feed w = (Returned (0, fold wc_char (concat (fin w)) st), w\<lparr>fin := []\<rparr>)"
proof (induction fuel arbitrary: w st)
  case (Suc k)
  show ?case
  proof (cases "fin w")
    case (Cons c cs)
    let ?w = "w\<lparr>fin := eats c cs\<rparr>"
    have c: "c \<noteq> []" using Cons Suc.prems by auto
    have r: "run (wc_loop (Suc k) fd st) feed w = run (wc_loop k fd (fold wc_char (take 512 c) st)) feed ?w"
      using Cons c by (simp add: feed_read eats_def)
    have "[] \<notin> set (fin ?w)" "pieces (fin ?w) < k" using Suc.prems Cons eats_facts [of c cs] c by auto
    from Suc.IH [OF this] have "run (wc_loop (Suc k) fd st) feed w =
        (Returned (0, fold wc_char (take 512 c @ concat (eats c cs)) st), ?w\<lparr>fin := []\<rparr>)" unfolding r by simp
    then show ?thesis unfolding eats_facts(2) Cons by simp
  qed (simp add: feed_def)
qed simp

definition wc_line :: "string \<Rightarrow> string \<Rightarrow> string" where
  "wc_line s name =
     printint_str (of_nat (count_list s CHR 0x0A)) 10 True @ '' '' @ printint_str (of_nat (card (word_starts s))) 10 True @ '' '' @
     printint_str (of_nat (length s)) 10 True @ '' '' @ name @ nl"

text \<open>
  C22 (functional): \<open>wc\<close> prints the number of newlines, of words and of characters of its input, a word
  starting wherever a character other than white space follows white space or nothing; the result
  does not depend on how the input is cut into reads.
\<close>

theorem wc_counts:
  assumes "[] \<notin> set (fin w)" "pieces (fin w) < fuel"
  shows "\<exists>u. run (wc fuel fd name) feed w = (Returned (), u) \<and> fin u = [] \<and>
    out_on 1 u = out_on 1 w @ wc_line (concat (fin w)) name"
proof -
  let ?s = "concat (fin w)"
  let ?args = "[UW (of_nat (count_list ?s CHR 0x0A)), UW (of_nat (card (word_starts ?s))), UW (of_nat (length ?s)), US (Some name)]"
  have "printf_text False (''%d %d %d %s'' @ nl) ?args = Some (wc_line ?s name)"
    by (simp add: wc_line_def nl_def)
  from run_printf [OF this, of 1 "w\<lparr>fin := []\<rparr>"]
  have "run (wc fuel fd name) feed w = (Returned (), emit 1 (wc_line ?s name) (w\<lparr>fin := []\<rparr>))"
    using run_wc_loop [OF assms, of fd "(0, 0, 0, False)"] by (simp add: wc_def run_pbind wc_fold)
  then show ?thesis by simp
qed

theorem wc_counts_witness:
  "\<exists>u. run (wc 9 0 []) feed \<lparr>fin = [''a b'', ''c'' @ nl], fout = []\<rparr> = (Returned (), u) \<and> out_on 1 u = ''1 2 5 '' @ nl"
proof -
  have "{i. i < 5 \<and> \<not> is_ws ((''a bc'' @ nl) ! i) \<and> (i = 0 \<or> is_ws ((''a bc'' @ nl) ! (i - 1)))} =
      set (filter (\<lambda>i. \<not> is_ws ((''a bc'' @ nl) ! i) \<and> (i = 0 \<or> is_ws ((''a bc'' @ nl) ! (i - 1)))) [0..<5])" by auto
  also have "\<dots> = {0, 2}" by (simp add: is_ws_def nl_def upt_rec numeral_2_eq_2)
  finally have "word_starts (''a bc'' @ nl) = {0, 2}" unfolding word_starts_def by (simp add: nl_def eval_nat_numeral)
  then have "wc_line (''a bc'' @ nl) [] = ''1 2 5 '' @ nl"
    by (simp add: wc_line_def nl_def printint_str_def print_digits.simps hex_digit_def sint_u32)
  then show ?thesis
    using wc_counts [of "\<lparr>fin = [''a b'', ''c'' @ nl], fout = []\<rparr>" 9 0 "[]"] by (auto simp: pieces_def out_on_def nl_def)
qed

end
