(* ===== verification/Grep.thy ===== *)
theory Grep imports Uprogs begin

text \<open>
  The pattern matcher and the filter of \<open>src/grep.c\<close>. The matcher is shown to decide the language of
  the pattern; the filter to print the matching lines, for input that comes in pieces of at most
  512 bytes with a line end in each, which is what it relies on.
\<close>

section \<open>The program\<close>

text \<open>\<open>matchhere\<close> and \<open>matchstar\<close>; a text is what precedes its terminating zero.\<close>

function matchhere :: "string \<Rightarrow> string \<Rightarrow> bool"
  and matchstar :: "char \<Rightarrow> string \<Rightarrow> string \<Rightarrow> bool" where
  "matchhere [] text = True"
| "matchhere (c # re) text =
     (if re \<noteq> [] \<and> hd re = CHR ''*'' then matchstar c (tl re) text
      else if c = CHR ''$'' \<and> re = [] then text = []
      else if text \<noteq> [] \<and> (c = CHR ''.'' \<or> c = hd text) then matchhere re (tl text)
      else False)"
| "matchstar c re text =
     (if matchhere re text then True
      else if text \<noteq> [] \<and> (hd text = c \<or> c = CHR ''.'') then matchstar c re (tl text)
      else False)"
  by pat_completeness auto
termination
  by (relation "measures [case_sum (\<lambda>(re, t). length re) (\<lambda>(c, re, t). length re),
      case_sum (\<lambda>(re, t). length t) (\<lambda>(c, re, t). length t), case_sum (\<lambda>_. 0) (\<lambda>_. 1)]")
    (auto simp: neq_Nil_conv)

declare matchhere.simps [simp del] matchstar.simps [simp del]

text \<open>The search of \<open>match\<close> through the text, its empty rest included.\<close>

fun match_any :: "string \<Rightarrow> string \<Rightarrow> bool" where
  "match_any re [] = matchhere re []"
| "match_any re (t # text) = (matchhere re (t # text) \<or> match_any re text)"

definition match :: "string \<Rightarrow> string \<Rightarrow> bool" where
  "match re text =
     (if re \<noteq> [] \<and> hd re = CHR ''^'' then matchhere (tl re) text else match_any re text)"

text \<open>
  The loop over the complete lines in the buffer, up to its first zero byte: the matching ones are
  written out, and what is left behind the last line end is returned, with whether there was one.
\<close>

function grep_lines :: "string \<Rightarrow> string \<Rightarrow> bool \<Rightarrow> (string \<times> bool) prog" where
  "grep_lines pattern p found =
     (if has_chr p CHR 0x0A then
        let line = takeWhile (\<lambda>c. c \<noteq> CHR 0x0A) p;
            rest = tl (dropWhile (\<lambda>c. c \<noteq> CHR 0x0A) p) in
        pthen (if match pattern line then pthen (call (SWrite 1 (line @ nl))) (Ret ()) else Ret ()) (
        grep_lines pattern rest True)
      else Ret (p, found))"
  by pat_completeness auto
termination
proof (relation "measure (\<lambda>(_, p, _). length p)", goal_cases)
  case (2 pattern p found line rest)
  then have "dropWhile (\<lambda>c. c \<noteq> CHR 0x0A) p \<noteq> []"
    by (auto simp: has_chr_def dropWhile_eq_Nil_conv dest: set_takeWhileD)
  then show ?case using 2 length_dropWhile_le [of "\<lambda>c. c \<noteq> CHR 0x0A" p] by (cases "dropWhile (\<lambda>c. c \<noteq> CHR 0x0A) p") auto
qed simp

declare grep_lines.simps [simp del]

primrec grep_loop :: "nat \<Rightarrow> string \<Rightarrow> int \<Rightarrow> string \<Rightarrow> unit prog" where
  "grep_loop 0 pattern fd buf = Hang"
| "grep_loop (Suc k) pattern fd buf =
     Sys (SRead fd (1024 - length buf - 1)) (\<lambda>a.
       if ret_of a > 0 then
         pbind (grep_lines pattern (buf @ data_of a) False) (\<lambda>(rest, found).
         grep_loop k pattern fd (if found then rest else []))
       else Ret ())"

definition grep :: "nat \<Rightarrow> string \<Rightarrow> int \<Rightarrow> unit prog" where
  "grep fuel pattern fd = grep_loop fuel pattern fd []"

definition grep_main :: "nat \<Rightarrow> string list \<Rightarrow> unit prog" where
  "grep_main fuel argv =
     (if length argv \<le> 1 then pthen (printf 2 (''usage: grep pattern [file ...]'' @ nl) []) Exit
      else
        pthen (if length argv \<le> 2 then grep fuel (argv ! 1) 0
               else each_file (''grep: cannot open %s'' @ nl) (drop 2 argv) (\<lambda>fd _. grep fuel (argv ! 1) fd)) Exit)"

section \<open>What a pattern means\<close>

text \<open>A character, any character, or either of them repeated; and whether the text must end there.\<close>

datatype item = One char | Many char

fun items :: "string \<Rightarrow> item list \<times> bool" where
  "items [] = ([], False)"
| "items [c] = (if c = CHR ''$'' then ([], True) else ([One c], False))"
| "items (c # d # re) =
     (if d = CHR ''*'' then (let (its, e) = items re in (Many c # its, e))
      else (let (its, e) = items (d # re) in (One c # its, e)))"

definition fits :: "char \<Rightarrow> char \<Rightarrow> bool" where
  "fits c t \<longleftrightarrow> c = CHR ''.'' \<or> c = t"

fun lang :: "item list \<Rightarrow> string set" where
  "lang [] = {[]}"
| "lang (One c # its) = {t # u | t u. fits c t \<and> u \<in> lang its}"
| "lang (Many c # its) = {s @ u | s u. (\<forall>t \<in> set s. fits c t) \<and> u \<in> lang its}"

text \<open>A text starts with a word of the pattern; the whole text is one if the pattern is anchored.\<close>

definition starts :: "item list \<times> bool \<Rightarrow> string \<Rightarrow> bool" where
  "starts r text \<longleftrightarrow> (\<exists>u v. text = u @ v \<and> u \<in> lang (fst r) \<and> (snd r \<longrightarrow> v = []))"

lemma starts_Nil: "starts ([], e) tx \<longleftrightarrow> (e \<longrightarrow> tx = [])"
  by (auto simp: starts_def)

lemma starts_One: "starts (One c # its, e) tx \<longleftrightarrow> tx \<noteq> [] \<and> fits c (hd tx) \<and> starts (its, e) (tl tx)"
proof -
  have "starts (One c # its, e) tx \<longleftrightarrow> (\<exists>t u v. tx = (t # u) @ v \<and> fits c t \<and> u \<in> lang its \<and> (e \<longrightarrow> v = []))"
    unfolding starts_def fst_conv snd_conv lang.simps by blast
  then show ?thesis by (cases tx) (auto simp: starts_def)
qed

lemma starts_Many:
  "starts (Many c # its, e) tx \<longleftrightarrow>
     starts (its, e) tx \<or> tx \<noteq> [] \<and> fits c (hd tx) \<and> starts (Many c # its, e) (tl tx)"
proof -
  have m: "starts (Many c # its, e) tx \<longleftrightarrow> (\<exists>s u v. tx = s @ u @ v \<and> (\<forall>t \<in> set s. fits c t) \<and> u \<in> lang its \<and> (e \<longrightarrow> v = []))" for tx
    unfolding starts_def fst_conv snd_conv lang.simps append_assoc [symmetric] by blast
  show ?thesis
  proof
    assume "starts (Many c # its, e) tx"
    then obtain s u v where s: "tx = s @ u @ v" "\<forall>t \<in> set s. fits c t" "u \<in> lang its" "e \<longrightarrow> v = []" unfolding m by blast
    show "starts (its, e) tx \<or> tx \<noteq> [] \<and> fits c (hd tx) \<and> starts (Many c # its, e) (tl tx)"
    proof (cases s)
      case Nil
      then show ?thesis using s unfolding starts_def by auto
    next
      case (Cons t s')
      then have "starts (Many c # its, e) (tl tx)" unfolding m using s by (intro exI [of _ s'] exI [of _ u] exI [of _ v]) auto
      then show ?thesis using s Cons by simp
    qed
  next
    assume "starts (its, e) tx \<or> tx \<noteq> [] \<and> fits c (hd tx) \<and> starts (Many c # its, e) (tl tx)"
    then show "starts (Many c # its, e) tx"
    proof
      assume "starts (its, e) tx"
      then obtain u v where "tx = u @ v" "u \<in> lang its" "e \<longrightarrow> v = []" by (auto simp: starts_def)
      then show ?thesis unfolding m by (intro exI [of _ "[]"] exI [of _ u] exI [of _ v]) auto
    next
      assume a: "tx \<noteq> [] \<and> fits c (hd tx) \<and> starts (Many c # its, e) (tl tx)"
      then obtain s u v where s: "tl tx = s @ u @ v" "\<forall>t \<in> set s. fits c t" "u \<in> lang its" "e \<longrightarrow> v = []" unfolding m by blast
      then show ?thesis unfolding m using a by (intro exI [of _ "hd tx # s"] exI [of _ u] exI [of _ v]) (cases tx, auto)
    qed
  qed
qed

lemma matchhere_starts:
  "matchhere re tx = starts (items re) tx"
  "matchstar c re tx = starts (Many c # fst (items re), snd (items re)) tx"
proof (induction re tx and c re tx rule: matchhere_matchstar.induct)
  case (1 tx)
  then show ?case by (simp add: matchhere.simps starts_Nil)
next
  case (2 c re tx)
  show ?case
  proof (cases re)
    case Nil
    then show ?thesis using 2 by (auto simp: matchhere.simps starts_Nil starts_One fits_def)
  next
    case (Cons d re')
    then show ?thesis using 2 by (auto simp: matchhere.simps(2) starts_One fits_def Let_def split: prod.splits)
  qed
next
  case (3 c re tx)
  then show ?case by (subst starts_Many) (auto simp: matchstar.simps [of c re tx] fits_def)
qed

lemma match_any_starts: "match_any re tx \<longleftrightarrow> (\<exists>u v. tx = u @ v \<and> starts (items re) v)"
proof (induction tx)
  case (Cons t tx)
  then show ?case by (auto simp: matchhere_starts append_eq_Cons_conv Cons_eq_append_conv)
qed (simp add: matchhere_starts)

text \<open>
  C24 (equivalence): the matcher of \<open>grep\<close> decides the language of its pattern: a text matches when a word
  of the pattern occurs in it, at its start if the pattern begins with a caret, at its end if it
  ends with a dollar sign.
\<close>

theorem match_decides:
  "match re tx \<longleftrightarrow>
     (if re \<noteq> [] \<and> hd re = CHR ''^'' then starts (items (tl re)) tx
      else \<exists>u v. tx = u @ v \<and> starts (items re) v)"
  by (simp add: match_def matchhere_starts match_any_starts)

section \<open>What the filter prints\<close>

text \<open>The complete lines of a text, without their line ends, and what follows the last line end.\<close>

fun split_lines :: "string \<Rightarrow> string list \<times> string" where
  "split_lines [] = ([], [])"
| "split_lines (c # s) =
     (let (ls, r) = split_lines s in
      if c = CHR 0x0A then ([] # ls, r)
      else case ls of [] \<Rightarrow> ([], c # r) | l # ls' \<Rightarrow> ((c # l) # ls', r))"

definition selected :: "string \<Rightarrow> string \<Rightarrow> string" where
  "selected pattern s = concat (map (\<lambda>l. l @ nl) (filter (match pattern) (fst (split_lines s))))"

lemma split_lines_none: "CHR 0x0A \<notin> set s \<Longrightarrow> split_lines s = ([], s)"
  by (induction s) (auto simp: Let_def)

lemma split_lines_line: "CHR 0x0A \<notin> set l \<Longrightarrow> split_lines (l @ CHR 0x0A # s) = (l # fst (split_lines s), snd (split_lines s))"
  by (induction l) (auto simp: Let_def split: prod.splits)

lemma first_line:
  assumes "CHR 0x0A \<in> set s"
  obtains l r where "s = l @ CHR 0x0A # r" "CHR 0x0A \<notin> set l" "takeWhile (\<lambda>c. c \<noteq> CHR 0x0A) s = l"
    "tl (dropWhile (\<lambda>c. c \<noteq> CHR 0x0A) s) = r"
proof -
  obtain l r where s: "s = l @ CHR 0x0A # r" "CHR 0x0A \<notin> set l" using split_list_first [OF assms] by blast
  have "takeWhile (\<lambda>c. c \<noteq> CHR 0x0A) s = l" "dropWhile (\<lambda>c. c \<noteq> CHR 0x0A) s = CHR 0x0A # r"
    using s by (auto simp: takeWhile_append dropWhile_append)
  then show ?thesis using that s by simp
qed

lemma split_lines_append:
  "split_lines (s @ t) = (fst (split_lines s) @ fst (split_lines (snd (split_lines s) @ t)), snd (split_lines (snd (split_lines s) @ t)))"
proof (induction "length s" arbitrary: s rule: less_induct)
  case less
  show ?case
  proof (cases "CHR 0x0A \<in> set s")
    case True
    then obtain l r where s: "s = l @ CHR 0x0A # r" "CHR 0x0A \<notin> set l" by (rule first_line)
    then show ?thesis using less [of r] by (simp add: split_lines_line)
  qed (simp add: split_lines_none)
qed

lemma selected_append: "selected pat (s @ t) = selected pat s @ selected pat (snd (split_lines s) @ t)"
  by (simp add: selected_def split_lines_append [of s])

lemma split_lines_rest:
  "CHR 0x0A \<in> set c \<Longrightarrow> length (snd (split_lines (b @ c))) < length c \<and> set (snd (split_lines (b @ c))) \<subseteq> set c \<and>
    CHR 0x0A \<notin> set (snd (split_lines (b @ c)))"
proof (induction "length b + length c" arbitrary: b c rule: less_induct)
  case less
  then have "CHR 0x0A \<in> set (b @ c)" by simp
  then obtain l r where s: "b @ c = l @ CHR 0x0A # r" "CHR 0x0A \<notin> set l" by (rule first_line)
  have sp: "snd (split_lines (b @ c)) = snd (split_lines r)" using s by (simp add: split_lines_line)
  show ?case
  proof (cases "length b \<le> length l")
    case True
    then have c: "c = drop (length b) l @ CHR 0x0A # r" using arg_cong [OF s(1), of "drop (length b)"] by simp
    show ?thesis
    proof (cases "CHR 0x0A \<in> set r")
      case True
      then show ?thesis using less.hyps [of "[]" r] c unfolding sp by auto
    next
      case False
      then show ?thesis unfolding sp using c by (auto simp: split_lines_none)
    qed
  next
    case False
    then obtain b' where "r = b' @ c" "length b' < length b"
    proof -
      obtain us where us: "b = l @ us" "us @ c = CHR 0x0A # r"
        using s(1) False by (auto simp: append_eq_append_conv2)
      then show ?thesis using that [of "tl us"] False by (cases us) auto
    qed
    then show ?thesis using less.hyps [of b' c] less.prems unfolding sp by simp
  qed
qed

lemma out_on_fout [simp]: "out_on fd (w\<lparr>fout := fout w @ [(fd, d)]\<rparr>) = out_on fd w @ d"
  by (simp add: out_on_def)

lemma has_chr_nul_free: "CHR 0x00 \<notin> set s \<Longrightarrow> has_chr s c \<longleftrightarrow> c \<in> set s"
proof -
  assume "CHR 0x00 \<notin> set s"
  then have "takeWhile (\<lambda>x. x \<noteq> CHR 0x00) s = s" by (auto simp: takeWhile_eq_all_conv)
  then show ?thesis unfolding has_chr_def by (simp only:)
qed

lemma run_grep_lines:
  "CHR 0x00 \<notin> set p \<Longrightarrow> \<exists>u. run (grep_lines pat p found) feed w = (Returned (snd (split_lines p), found \<or> CHR 0x0A \<in> set p), u) \<and>
     fin u = fin w \<and> out_on 1 u = out_on 1 w @ selected pat p"
proof (induction "length p" arbitrary: p found w rule: less_induct)
  case less
  show ?case
  proof (cases "CHR 0x0A \<in> set p")
    case False
    then show ?thesis using less.prems
      by (subst grep_lines.simps) (simp add: has_chr_nul_free split_lines_none selected_def)
  next
    case True
    then obtain l r where s: "p = l @ CHR 0x0A # r" "CHR 0x0A \<notin> set l" and tw: "takeWhile (\<lambda>c. c \<noteq> CHR 0x0A) p = l"
      "tl (dropWhile (\<lambda>c. c \<noteq> CHR 0x0A) p) = r" by (rule first_line)
    let ?w = "if match pat l then w\<lparr>fout := fout w @ [(1, l @ nl)]\<rparr> else w"
    have step: "run (grep_lines pat p found) feed w = run (grep_lines pat r True) feed ?w"
      using True less.prems tw by (subst grep_lines.simps) (simp add: has_chr_nul_free run_simps_u feed_def)
    have "length r < length p" "CHR 0x00 \<notin> set r" using s less.prems by auto
    from less.hyps [OF this, of True ?w] obtain u where
      u: "run (grep_lines pat r True) feed ?w = (Returned (snd (split_lines r), True), u)" "fin u = fin ?w"
        "out_on 1 u = out_on 1 ?w @ selected pat r" by auto
    have "out_on 1 ?w @ selected pat r = out_on 1 w @ selected pat p" using s by (simp add: selected_def split_lines_line)
    then show ?thesis using u step s True by (intro exI [of _ u]) (simp add: split_lines_line)
  qed
qed

definition line_piece :: "string \<Rightarrow> bool" where
  "line_piece c \<longleftrightarrow> length c \<le> 512 \<and> CHR 0x0A \<in> set c \<and> CHR 0x00 \<notin> set c"

lemma run_grep_loop:
  "\<forall>c \<in> set (fin w). line_piece c \<Longrightarrow> length (fin w) < fuel \<Longrightarrow> length buf < 512 \<Longrightarrow> CHR 0x00 \<notin> set buf \<Longrightarrow>
    CHR 0x0A \<notin> set buf \<Longrightarrow>
    \<exists>u. run (grep_loop fuel pat fd buf) feed w = (Returned (), u) \<and> fin u = [] \<and>
      out_on 1 u = out_on 1 w @ selected pat (buf @ concat (fin w))"
proof (induction fuel arbitrary: w buf)
  case (Suc k)
  show ?case
  proof (cases "fin w")
    case Nil
    then show ?thesis using Suc.prems(5) by (simp add: feed_def selected_def split_lines_none)
  next
    case (Cons c cs)
    have c: "length c \<le> 512" "CHR 0x0A \<in> set c" "CHR 0x00 \<notin> set (buf @ c)" "c \<noteq> []"
      using Suc.prems Cons by (auto simp: line_piece_def)
    let ?r = "snd (split_lines (buf @ c))" and ?w = "w\<lparr>fin := cs\<rparr>"
    obtain u where u: "run (grep_lines pat (buf @ c) False) feed ?w = (Returned (?r, True), u)" "fin u = cs"
      "out_on 1 u = out_on 1 w @ selected pat (buf @ c)"
      using run_grep_lines [OF c(3), of pat False ?w] c(2) by auto
    have step: "run (grep_loop (Suc k) pat fd buf) feed w = run (grep_loop k pat fd ?r) feed u"
    proof -
      have "length c \<le> 1024 - length buf - 1" using c(1) Suc.prems(3) by simp
      then show ?thesis using Cons c(4) u(1) by (simp add: feed_read run_pbind)
    qed
    have r: "length ?r < 512" "CHR 0x00 \<notin> set ?r" "CHR 0x0A \<notin> set ?r" using split_lines_rest [OF c(2), of buf] c by auto
    obtain v where v: "run (grep_loop k pat fd ?r) feed u = (Returned (), v)" "fin v = []"
      "out_on 1 v = out_on 1 u @ selected pat (?r @ concat cs)"
      using Suc.IH [of u ?r] Suc.prems Cons u(2) r by auto
    show ?thesis
      using v step u(3) Cons selected_append [of pat "buf @ c" "concat cs"] by (intro exI [of _ v]) auto
  qed
qed simp

text \<open>
  C25 (functional): for input that comes in pieces of at most 512 bytes with a line end in each and no
  zero bytes, \<open>grep\<close> prints exactly the complete lines that match its pattern, in order; lines that
  straddle pieces included.
\<close>

theorem grep_selects:
  assumes "\<forall>c \<in> set (fin w). line_piece c" "length (fin w) < fuel"
  shows "\<exists>u. run (grep_main fuel [''grep'', pat]) feed w = (Exited, u) \<and> fin u = [] \<and>
    out_on 1 u = out_on 1 w @ selected pat (concat (fin w))"
proof -
  obtain u where "run (grep_loop fuel pat 0 []) feed w = (Returned (), u)" "fin u = []"
    "out_on 1 u = out_on 1 w @ selected pat (concat (fin w))"
    using run_grep_loop [OF assms, of "[]" pat 0] by auto
  then show ?thesis by (simp add: grep_main_def grep_def run_pthen)
qed

theorem grep_selects_witness:
  "\<exists>u. run (grep_main 9 [''grep'', ''^a'']) feed \<lparr>fin = [''b'' @ nl @ ''a'', ''c'' @ nl], fout = []\<rparr> = (Exited, u) \<and>
     out_on 1 u = ''ac'' @ nl"
proof -
  have "selected ''^a'' (''b'' @ nl @ ''ac'' @ nl) = ''ac'' @ nl"
    by (simp add: selected_def nl_def match_def matchhere.simps)
  then show ?thesis
    using grep_selects [of "\<lparr>fin = [''b'' @ nl @ ''a'', ''c'' @ nl], fout = []\<rparr>" 9 "''^a''"]
    by (auto simp: line_piece_def nl_def out_on_def)
qed


end
