(* ===== verification/Shell.thy ===== *)
theory Shell imports Uprogs begin

text \<open>
  The shell, \<open>src/sh.c\<close>: its scanner, the recursive-descent parser over the command line, the
  termination of the words in the line with zero bytes, and the execution of the parsed command as a
  tree of system calls. A pointer into the line is an index; the line is what precedes its
  terminating zero, and reading at its end gives that zero. The tree nodes are allocated with
  \<open>malloc\<close>, which is taken to succeed; the \<open>sbrk\<close> calls it may make are left out of the calls shown.
\<close>

section \<open>Commands\<close>

text \<open>A word is its start and its end in the line; an \<open>EXEC\<close> node has the two arrays.\<close>

datatype cmd =
    EXEC "nat list" "nat list"
  | REDIR cmd nat nat int int
  | PIPE cmd cmd
  | LIST cmd cmd
  | BACK cmd

definition MAXARGS :: nat where "MAXARGS = 10"

definition execcmd :: cmd where "execcmd = EXEC [] []"

section \<open>Scanning\<close>

definition whitespace :: string where
  "whitespace = [CHR '' '', CHR 0x09, CHR 0x0D, CHR 0x0A, CHR 0x0B]"

definition symbols :: string where "symbols = ''<|>&;()''"

definition at :: "string \<Rightarrow> nat \<Rightarrow> char" where
  "at buf i = (if i < length buf then buf ! i else CHR 0x00)"

function skip_ws :: "string \<Rightarrow> nat \<Rightarrow> nat" where
  "skip_ws buf s = (if s < length buf \<and> has_chr whitespace (at buf s) then skip_ws buf (s + 1) else s)"
  by pat_completeness auto
termination by (relation "measure (\<lambda>(buf, s). length buf - s)") auto

function skip_word :: "string \<Rightarrow> nat \<Rightarrow> nat" where
  "skip_word buf s =
     (if s < length buf \<and> \<not> has_chr whitespace (at buf s) \<and> \<not> has_chr symbols (at buf s) then skip_word buf (s + 1) else s)"
  by pat_completeness auto
termination by (relation "measure (\<lambda>(buf, s). length buf - s)") auto

declare skip_ws.simps [simp del] skip_word.simps [simp del]

text \<open>The token, its start and end, and where the scan stands afterwards.\<close>

definition scan_token :: "string \<Rightarrow> nat \<Rightarrow> char \<times> nat" where
  "scan_token buf q =
     (let c = at buf q in
      if c = CHR 0x00 then (c, q)
      else if c \<in> set ''|();&<'' then (c, q + 1)
      else if c = CHR ''>'' then if at buf (q + 1) = CHR ''>'' then (CHR ''+'', q + 2) else (c, q + 1)
      else (CHR ''a'', skip_word buf q))"

definition gettoken :: "string \<Rightarrow> nat \<Rightarrow> char \<times> nat \<times> nat \<times> nat" where
  "gettoken buf ps =
     (let q = skip_ws buf ps;
          (r, eq) = scan_token buf q
      in (r, q, eq, skip_ws buf eq))"

definition peek :: "string \<Rightarrow> nat \<Rightarrow> string \<Rightarrow> bool \<times> nat" where
  "peek buf ps toks =
     (let s = skip_ws buf ps in (at buf s \<noteq> CHR 0x00 \<and> has_chr toks (at buf s), s))"

text \<open>Scanning a token whose text is not needed: only the new position.\<close>

definition skip_token :: "string \<Rightarrow> nat \<Rightarrow> nat" where
  "skip_token buf s = snd (snd (snd (gettoken buf s)))"

subsection \<open>The scan moves forward\<close>

lemma skip_ws_bounds: "s \<le> skip_ws buf s \<and> (s \<le> length buf \<longrightarrow> skip_ws buf s \<le> length buf)"
proof (induction buf s rule: skip_ws.induct)
  case (1 buf s)
  then show ?case by (cases "s < length buf \<and> has_chr whitespace (at buf s)") (auto simp: skip_ws.simps [of buf s])
qed

lemma skip_word_bounds: "s \<le> skip_word buf s \<and> (s \<le> length buf \<longrightarrow> skip_word buf s \<le> length buf)"
proof (induction buf s rule: skip_word.induct)
  case (1 buf s)
  then show ?case
    by (cases "s < length buf \<and> \<not> has_chr whitespace (at buf s) \<and> \<not> has_chr symbols (at buf s)")
      (auto simp: skip_word.simps [of buf s])
qed

lemma skip_word_chars:
  "s \<le> i \<Longrightarrow> i < skip_word buf s \<Longrightarrow> \<not> has_chr whitespace (at buf i) \<and> \<not> has_chr symbols (at buf i) \<and> i < length buf"
proof (induction buf s rule: skip_word.induct)
  case (1 buf s)
  show ?case
  proof (cases "s < length buf \<and> \<not> has_chr whitespace (at buf s) \<and> \<not> has_chr symbols (at buf s)")
    case True
    then have "i < skip_word buf (s + 1)" using "1.prems" by (simp add: skip_word.simps [of buf s])
    then show ?thesis using 1 True by (cases "i = s") auto
  next
    case False
    then have "skip_word buf s = s" by (subst skip_word.simps) (simp only: if_False)
    then show ?thesis using "1.prems" by simp
  qed
qed

lemma skip_word_stop:
  "skip_word buf s < length buf \<Longrightarrow> has_chr whitespace (at buf (skip_word buf s)) \<or> has_chr symbols (at buf (skip_word buf s))"
proof (induction buf s rule: skip_word.induct)
  case (1 buf s)
  then show ?case
    by (cases "s < length buf \<and> \<not> has_chr whitespace (at buf s) \<and> \<not> has_chr symbols (at buf s)")
      (auto simp: skip_word.simps [of buf s])
qed

lemma skip_ws_stop: "skip_ws buf s < length buf \<Longrightarrow> \<not> has_chr whitespace (at buf (skip_ws buf s))"
proof (induction buf s rule: skip_ws.induct)
  case (1 buf s)
  then show ?case by (cases "s < length buf \<and> has_chr whitespace (at buf s)") (auto simp: skip_ws.simps [of buf s])
qed

lemma at_nul: "at buf s \<noteq> CHR 0x00 \<Longrightarrow> s < length buf"
  by (auto simp: at_def split: if_splits)

lemma skip_word_moves:
  "q < length buf \<Longrightarrow> \<not> has_chr whitespace (at buf q) \<Longrightarrow> \<not> has_chr symbols (at buf q) \<Longrightarrow> q < skip_word buf q"
  using skip_word_bounds [of "q + 1" buf] by (simp add: skip_word.simps [of buf q])

lemma has_symbol: "has_chr symbols c \<longleftrightarrow> c \<in> set ''|();&<'' \<or> c = CHR ''>''"
  by (auto simp: has_chr_def symbols_def)

lemma scan_token_cases:
  assumes "scan_token buf q = (r, eq)"
  shows "(r = CHR 0x00 \<and> eq = q) \<or> (q < length buf \<and> (eq = q + 1 \<or> eq = q + 2 \<and> q + 1 < length buf) \<and> r \<noteq> CHR ''a'') \<or>
      (r = CHR ''a'' \<and> q < length buf \<and> eq = skip_word buf q \<and> \<not> has_chr symbols (at buf q))"
proof (cases "at buf q = CHR 0x00")
  case True
  then show ?thesis using assms by (simp add: scan_token_def)
next
  case False
  then have q: "q < length buf" by (rule at_nul)
  consider "at buf q \<in> set ''|();&<''" | "at buf q = CHR ''>''" | "\<not> has_chr symbols (at buf q)" using has_symbol by blast
  then show ?thesis
  proof cases
    case 1
    then have "r = at buf q" "eq = q + 1" using assms False by (simp_all only: scan_token_def Let_def if_True if_False prod.inject)
    then show ?thesis using q 1 by auto
  next
    case 2
    then show ?thesis using assms q at_nul [of buf "q + 1"] by (auto simp: scan_token_def Let_def split: if_splits)
  next
    case 3
    then show ?thesis using assms q False unfolding has_symbol by (auto simp: scan_token_def Let_def)
  qed
qed

text \<open>What a scan finds: the token lies between the two positions, and is not empty unless the line ends.\<close>

lemma gettoken_spec:
  assumes g: "gettoken buf s = (r, q, eq, s')" and s: "s \<le> length buf"
  shows "s \<le> q" "q \<le> eq" "eq \<le> s'" "s' \<le> length buf" "r \<noteq> CHR 0x00 \<Longrightarrow> q < eq"
    "r = CHR ''a'' \<Longrightarrow> eq = skip_word buf q \<and> q < length buf"
proof -
  have q: "q = skip_ws buf s" and s': "s' = skip_ws buf eq" and sc: "scan_token buf q = (r, eq)"
    using g by (auto simp: gettoken_def Let_def split: prod.splits)
  show "s \<le> q" using skip_ws_bounds [of s buf] q by simp
  have ql: "q \<le> length buf" using skip_ws_bounds [of s buf] q s by simp
  show "eq \<le> s'" using skip_ws_bounds [of eq buf] s' by simp
  have nws: "q < length buf \<Longrightarrow> \<not> has_chr whitespace (at buf q)" using skip_ws_stop [of buf s] q by simp
  note cases = scan_token_cases [OF sc]
  then show "q \<le> eq" "r \<noteq> CHR 0x00 \<Longrightarrow> q < eq" "r = CHR ''a'' \<Longrightarrow> eq = skip_word buf q \<and> q < length buf"
    using skip_word_bounds [of q buf] skip_word_moves [of q buf] nws by auto
  have "eq \<le> length buf" using cases ql skip_word_bounds [of q buf] by auto
  then show "s' \<le> length buf" using skip_ws_bounds [of eq buf] s' by simp
qed

lemma gettoken_end: "length buf \<le> s \<Longrightarrow> gettoken buf s = (CHR 0x00, s, s, s)"
  by (simp add: gettoken_def scan_token_def skip_ws.simps [of buf s] at_def)

lemma peek_spec:
  assumes "peek buf s toks = (b, s')"
  shows "s \<le> s'" "s \<le> length buf \<Longrightarrow> s' \<le> length buf" "b \<Longrightarrow> s' < length buf \<and> at buf s' \<noteq> CHR 0x00 \<and> has_chr toks (at buf s')"
  using assms skip_ws_bounds [of s buf] at_nul [of buf s'] by (auto simp: peek_def Let_def)

lemma skip_token_moves:
  "s < length buf \<Longrightarrow> at buf s \<noteq> CHR 0x00 \<Longrightarrow> \<not> has_chr whitespace (at buf s) \<Longrightarrow> s < skip_token buf s \<and> skip_token buf s \<le> length buf"
proof -
  assume s: "s < length buf" "at buf s \<noteq> CHR 0x00" "\<not> has_chr whitespace (at buf s)"
  obtain r q eq s' where g: "gettoken buf s = (r, q, eq, s')" by (cases "gettoken buf s")
  have "skip_ws buf s = s" using s by (simp add: skip_ws.simps [of buf s])
  then have "scan_token buf s = (r, eq)" "q = s" using g by (auto simp: gettoken_def Let_def split: prod.splits)
  moreover have "r \<noteq> CHR 0x00" using s calculation(1) by (auto simp: scan_token_def Let_def split: if_splits)
  ultimately show ?thesis using gettoken_spec [OF g less_imp_le [OF s(1)]] g by (simp add: skip_token_def)
qed

lemma peek_token:
  assumes "peek buf s toks = (True, s')"
  shows "s \<le> s'" "s' < skip_token buf s'" "skip_token buf s' \<le> length buf"
proof -
  note p = peek_spec [OF assms]
  have "s' = skip_ws buf s" using assms by (simp add: peek_def Let_def)
  then have "\<not> has_chr whitespace (at buf s')" using skip_ws_stop [of buf s] p by simp
  then show "s \<le> s'" "s' < skip_token buf s'" "skip_token buf s' \<le> length buf" using p skip_token_moves [of s' buf] by auto
qed

section \<open>Parsing\<close>

text \<open>A parser returns, calls \<open>panic\<close> with a message, or has run out of fuel.\<close>

datatype 'a pres = Ok 'a | Bad string | NoFuel

primrec rbind :: "'a pres \<Rightarrow> ('a \<Rightarrow> 'b pres) \<Rightarrow> 'b pres" where
  "rbind (Ok a) f = f a"
| "rbind (Bad e) f = Bad e"
| "rbind NoFuel f = NoFuel"

text \<open>The loop of \<open>parseredirs\<close>: the flags are \<open>O_RDONLY\<close> and \<open>O_WRONLY | O_CREATE\<close>.\<close>

function parseredirs :: "string \<Rightarrow> cmd \<Rightarrow> nat \<Rightarrow> (cmd \<times> nat) pres" where
  "parseredirs buf c s =
     (let (more, s1) = peek buf s ''<>'';
          (tok, _, _, s2) = gettoken buf s1;
          (tok2, q, eq, s3) = gettoken buf s2 in
      if \<not> more then Ok (c, s1)
      else if tok2 \<noteq> CHR ''a'' then Bad ''missing file for redirection''
      else parseredirs buf (if tok = CHR ''<'' then REDIR c q eq 0 0 else REDIR c q eq 0x201 1) s3)"
  by pat_completeness auto
termination
proof (relation "measure (\<lambda>(buf, c, s). length buf - s)", goal_cases)
  case (2 buf c s p more s1 g1 tok x1 q1 x2 e1 s2 g2 tok2 y1 q y2 eq s3)
  then have pk: "peek buf s ''<>'' = (True, s1)" and g1: "gettoken buf s1 = (tok, q1, e1, s2)"
    and g2: "gettoken buf s2 = (CHR ''a'', q, eq, s3)" by simp_all
  have s1: "s \<le> s1" "s1 < length buf" using peek_spec [OF pk] by auto
  note t1 = gettoken_spec [OF g1 less_imp_le [OF s1(2)]]
  note t2 = gettoken_spec [OF g2 t1(4)]
  show ?case using s1 t1 t2 by simp
qed simp

declare parseredirs.simps [simp del]

text \<open>Storing an argument through the pointer to the \<open>EXEC\<close> node, around which redirections may lie.\<close>

fun add_arg :: "nat \<Rightarrow> nat \<Rightarrow> cmd \<Rightarrow> cmd" where
  "add_arg q eq (EXEC a e) = EXEC (a @ [q]) (e @ [eq])"
| "add_arg q eq (REDIR c f ef m fd) = REDIR (add_arg q eq c) f ef m fd"
| "add_arg q eq c = c"

text \<open>The estimate the termination of the argument loop needs: redirections do not move backwards.\<close>

lemma parseredirs_moves:
  "s \<le> length buf \<Longrightarrow> parseredirs buf c s \<noteq> NoFuel \<and> (\<forall>c' s'. parseredirs buf c s = Ok (c', s') \<longrightarrow> s \<le> s' \<and> s' \<le> length buf)"
proof (induction buf c s rule: parseredirs.induct)
  case (1 buf c s)
  obtain more s1 where pk: "peek buf s ''<>'' = (more, s1)" by (cases "peek buf s ''<>''")
  obtain tok q1 e1 s2 where g1: "gettoken buf s1 = (tok, q1, e1, s2)" by (cases "gettoken buf s1")
  obtain tok2 q eq s3 where g2: "gettoken buf s2 = (tok2, q, eq, s3)" by (cases "gettoken buf s2")
  note p = peek_spec [OF pk]
  have s1: "s \<le> s1" "s1 \<le> length buf" using p "1.prems" by auto
  note t1 = gettoken_spec [OF g1 s1(2)]
  note t2 = gettoken_spec [OF g2 t1(4)]
  show ?case
  proof (cases "more \<and> tok2 = CHR ''a''")
    case True
    let ?c = "if tok = CHR ''<'' then REDIR c q eq 0 0 else REDIR c q eq 0x201 1"
    have e: "parseredirs buf c s = parseredirs buf ?c s3" using True by (subst parseredirs.simps) (simp add: pk g1 g2)
    have "parseredirs buf ?c s3 \<noteq> NoFuel \<and> (\<forall>c' s'. parseredirs buf ?c s3 = Ok (c', s') \<longrightarrow> s3 \<le> s' \<and> s' \<le> length buf)"
      using "1.IH" [OF pk [symmetric] refl g1 [symmetric] refl refl refl g2 [symmetric] refl refl refl] True t2(4) by simp
    then show ?thesis unfolding e using s1 t1 t2 by auto
  next
    case False
    then show ?thesis using s1 by (subst (1 2) parseredirs.simps) (auto simp: pk g1 g2)
  qed
qed

text \<open>The loop of \<open>parseexec\<close> over the arguments.\<close>

function parse_args :: "string \<Rightarrow> cmd \<Rightarrow> nat \<Rightarrow> nat \<Rightarrow> (cmd \<times> nat) pres" where
  "parse_args buf c argc s =
     (let (stop, s1) = peek buf s ''|)&;'';
          (tok, q, eq, s2) = gettoken buf s1 in
      if stop then Ok (c, s1)
      else if tok = CHR 0x00 then Ok (c, s2)
      else if tok \<noteq> CHR ''a'' then Bad ''syntax''
      else if argc + 1 \<ge> MAXARGS then Bad ''too many args''
      else
        case parseredirs buf (add_arg q eq c) s2 of
          Bad e \<Rightarrow> Bad e
        | NoFuel \<Rightarrow> NoFuel
        | Ok r \<Rightarrow> parse_args buf (fst r) (argc + 1) (snd r))"
  by pat_completeness auto
termination
proof (relation "measure (\<lambda>(buf, c, argc, s). length buf - s)", goal_cases)
  case (2 buf c argc s p stop s1 g tok y q z eq s2 r)
  then have pk: "peek buf s ''|)&;'' = (False, s1)" and g: "gettoken buf s1 = (CHR ''a'', q, eq, s2)"
    and r: "parseredirs buf (add_arg q eq c) s2 = Ok r" by simp_all
  have l: "s1 \<le> length buf" using g gettoken_end [of buf s1] by (cases "length buf \<le> s1") auto
  note t = gettoken_spec [OF g l]
  have "s2 \<le> snd r" using parseredirs_moves [OF t(4), of "add_arg q eq c"] r by (cases r) auto
  then show ?case using peek_spec [OF pk] t by simp
qed simp

declare parse_args.simps [simp del]

text \<open>The loop of \<open>parseline\<close> over the ampersands.\<close>

function parse_backs :: "string \<Rightarrow> cmd \<Rightarrow> nat \<Rightarrow> cmd \<times> nat" where
  "parse_backs buf c s =
     (let (more, s1) = peek buf s ''&'' in
      if more then parse_backs buf (BACK c) (skip_token buf s1) else (c, s1))"
  by pat_completeness auto
termination
proof (relation "measure (\<lambda>(buf, c, s). length buf - s)", goal_cases)
  case (2 buf c s p more s1)
  then have pk: "peek buf s ''&'' = (True, s1)" by simp
  then show ?case using peek_token [OF pk] by simp
qed simp

declare parse_backs.simps [simp del]

fun parseline :: "nat \<Rightarrow> string \<Rightarrow> nat \<Rightarrow> (cmd \<times> nat) pres"
  and parsepipe :: "nat \<Rightarrow> string \<Rightarrow> nat \<Rightarrow> (cmd \<times> nat) pres"
  and parseexec :: "nat \<Rightarrow> string \<Rightarrow> nat \<Rightarrow> (cmd \<times> nat) pres"
  and parseblock :: "nat \<Rightarrow> string \<Rightarrow> nat \<Rightarrow> (cmd \<times> nat) pres" where
  "parseline 0 buf s = NoFuel"
| "parsepipe 0 buf s = NoFuel"
| "parseexec 0 buf s = NoFuel"
| "parseblock 0 buf s = NoFuel"
| "parseline (Suc f) buf s =
     rbind (parsepipe f buf s) (\<lambda>(c, s).
     let (c, s) = parse_backs buf c s;
         (more, s) = peek buf s '';'' in
     if more then rbind (parseline f buf (skip_token buf s)) (\<lambda>(r, s). Ok (LIST c r, s)) else Ok (c, s))"
| "parsepipe (Suc f) buf s =
     rbind (parseexec f buf s) (\<lambda>(c, s).
     let (more, s) = peek buf s ''|'' in
     if more then rbind (parsepipe f buf (skip_token buf s)) (\<lambda>(r, s). Ok (PIPE c r, s)) else Ok (c, s))"
| "parseexec (Suc f) buf s =
     (let (block, s) = peek buf s ''('' in
      if block then parseblock f buf s
      else rbind (parseredirs buf execcmd s) (\<lambda>(c, s). parse_args buf c 0 s))"
| "parseblock (Suc f) buf s =
     (let (open, s) = peek buf s ''('' in
      if \<not> open then Bad ''parseblock''
      else
        rbind (parseline f buf (skip_token buf s)) (\<lambda>(c, s).
        let (close, s) = peek buf s '')'' in
        if \<not> close then Bad ''syntax - missing )''
        else parseredirs buf c (skip_token buf s)))"

section \<open>Running\<close>

definition sh_panic :: "string \<Rightarrow> 'a prog" where
  "sh_panic s = pthen (printf 2 (''%s'' @ nl) [US (Some s)]) Exit"

definition fork1 :: "int prog" where
  "fork1 = pbind (call SFork) (\<lambda>pid. if pid = - 1 then sh_panic ''fork'' else Ret pid)"

text \<open>Zero bytes at the ends of all words, in the order the tree is walked.\<close>

primrec nulterminate :: "cmd \<Rightarrow> string \<Rightarrow> string" where
  "nulterminate (EXEC argv eargv) b = fold (\<lambda>e b. b[e := CHR 0x00]) eargv b"
| "nulterminate (REDIR c file efile mode fd) b = (nulterminate c b)[efile := CHR 0x00]"
| "nulterminate (PIPE l r) b = nulterminate r (nulterminate l b)"
| "nulterminate (LIST l r) b = nulterminate r (nulterminate l b)"
| "nulterminate (BACK c) b = nulterminate c b"

text \<open>
  The line parsed: the command and the line with its words terminated. The fuel covers four calls
  for every character of the line.
\<close>

definition parsecmd :: "string \<Rightarrow> (cmd \<times> string) prog" where
  "parsecmd buf =
     (case parseline (4 * length buf + 3) buf 0 of
        NoFuel \<Rightarrow> Hang
      | Bad e \<Rightarrow> sh_panic e
      | Ok (c, s) \<Rightarrow>
          let (_, s) = peek buf s [] in
          if s \<noteq> length buf then
            pthen (printf 2 (''leftovers: %s'' @ nl) [US (Some (drop s buf))]) (sh_panic ''syntax'')
          else Ret (c, nulterminate c buf))"

text \<open>The string a pointer into the terminated line points to.\<close>

definition str_at :: "string \<Rightarrow> nat \<Rightarrow> string" where
  "str_at b q = takeWhile (\<lambda>c. c \<noteq> CHR 0x00) (drop q b)"

text \<open>
  Executing a command never returns: where the C code goes on behind a call of \<open>runcmd\<close> in a child,
  it is not reached.
\<close>

primrec runcmd :: "string \<Rightarrow> cmd \<Rightarrow> unit prog" where
  "runcmd b (EXEC argv eargv) =
     (if argv = [] then Exit
      else
        pthen (call (SExec (str_at b (hd argv)) (map (str_at b) argv))) (
        pthen (printf 2 (''exec %s failed'' @ nl) [US (Some (str_at b (hd argv)))]) Exit))"
| "runcmd b (REDIR c file efile mode fd) =
     pthen (call (SClose fd)) (
     pbind (call (SOpen (str_at b file) mode)) (\<lambda>r.
     if r < 0 then pthen (printf 2 (''open %s failed'' @ nl) [US (Some (str_at b file))]) Exit
     else runcmd b c))"
| "runcmd b (LIST l r) =
     pbind fork1 (\<lambda>pid.
     if pid = 0 then runcmd b l else pthen (call SWait) (runcmd b r))"
| "runcmd b (PIPE l r) =
     Sys SPipe (\<lambda>a.
     case a of
       APipe p0 p1 \<Rightarrow>
         pbind fork1 (\<lambda>pid.
         if pid = 0 then
           pthen (call (SClose 1)) (
           pthen (call (SDup p1)) (
           pthen (call (SClose p0)) (
           pthen (call (SClose p1)) (
           runcmd b l))))
         else
           pbind fork1 (\<lambda>pid.
           if pid = 0 then
             pthen (call (SClose 0)) (
             pthen (call (SDup p0)) (
             pthen (call (SClose p0)) (
             pthen (call (SClose p1)) (
             runcmd b r))))
           else
             pthen (call (SClose p0)) (
             pthen (call (SClose p1)) (
             pthen (call SWait) (
             pthen (call SWait) Exit)))))
     | _ \<Rightarrow> sh_panic ''pipe'')"
| "runcmd b (BACK c) =
     pbind fork1 (\<lambda>pid. if pid = 0 then runcmd b c else Exit)"

text \<open>The line typed, \<open>None\<close> at the end of the input. What counts is what precedes the first zero byte.\<close>

definition getcmd :: "nat \<Rightarrow> string option prog" where
  "getcmd nbuf =
     pthen (printf 2 ''$ '' []) (
     pbind (gets_line nbuf) (\<lambda>line.
     let buf = takeWhile (\<lambda>c. c \<noteq> CHR 0x00) line in
     Ret (if buf = [] then None else Some buf)))"

primrec sh_open_console :: "nat \<Rightarrow> unit prog" where
  "sh_open_console 0 = Hang"
| "sh_open_console (Suc k) =
     pbind (call (SOpen ''console'' 2)) (\<lambda>fd.
     if fd < 0 then Ret ()
     else if fd \<ge> 3 then pthen (call (SClose fd)) (Ret ())
     else sh_open_console k)"

primrec sh_loop :: "nat \<Rightarrow> unit prog" where
  "sh_loop 0 = Hang"
| "sh_loop (Suc k) =
     pbind (getcmd 100) (\<lambda>r.
     case r of
       None \<Rightarrow> Exit
     | Some buf \<Rightarrow>
         if take 3 buf = ''cd '' then
           let dir = drop 3 (butlast buf) in
           pbind (call (SChdir dir)) (\<lambda>r.
           pthen (pwhen (r < 0) (printf 2 (''cannot cd %s'' @ nl) [US (Some dir)])) (
           sh_loop k))
         else
           pbind fork1 (\<lambda>pid.
           if pid = 0 then pbind (parsecmd buf) (\<lambda>(c, b). runcmd b c)
           else pthen (call SWait) (sh_loop k)))"

definition sh_main :: "nat \<Rightarrow> unit prog" where
  "sh_main fuel = pthen (sh_open_console fuel) (sh_loop fuel)"

section \<open>Every line is parsed\<close>

lemma parse_args_moves:
  "s \<le> length buf \<Longrightarrow> parse_args buf c n s \<noteq> NoFuel \<and> (\<forall>c' s'. parse_args buf c n s = Ok (c', s') \<longrightarrow> s \<le> s' \<and> s' \<le> length buf)"
proof (induction buf c n s rule: parse_args.induct)
  case (1 buf c n s)
  obtain stop s1 where pk: "peek buf s ''|)&;'' = (stop, s1)" by (cases "peek buf s ''|)&;''")
  obtain tok q eq s2 where g: "gettoken buf s1 = (tok, q, eq, s2)" by (cases "gettoken buf s1")
  have s1: "s \<le> s1" "s1 \<le> length buf" using peek_spec [OF pk] "1.prems" by auto
  note t = gettoken_spec [OF g s1(2)]
  let ?r = "parseredirs buf (add_arg q eq c) s2"
  note rd = parseredirs_moves [OF t(4), of "add_arg q eq c"]
  show ?case
  proof (cases "\<not> stop \<and> tok = CHR ''a'' \<and> n + 1 < MAXARGS \<and> (\<exists>r. ?r = Ok r)")
    case True
    then obtain c1 s3 where r: "?r = Ok (c1, s3)" by auto
    have e: "parse_args buf c n s = parse_args buf c1 (n + 1) s3"
      using True r by (subst parse_args.simps) (simp add: pk g)
    have "parse_args buf c1 (n + 1) s3 \<noteq> NoFuel \<and> (\<forall>c' s'. parse_args buf c1 (n + 1) s3 = Ok (c', s') \<longrightarrow> s3 \<le> s' \<and> s' \<le> length buf)"
      using "1.IH" [OF pk [symmetric] refl g [symmetric] refl refl refl] True r rd by auto
    then show ?thesis unfolding e using s1 t rd r by auto
  next
    case False
    then show ?thesis using s1 t rd by (subst (1 2) parse_args.simps) (auto simp: pk g split: pres.splits)
  qed
qed

lemma parse_backs_moves: "s \<le> length buf \<Longrightarrow> s \<le> snd (parse_backs buf c s) \<and> snd (parse_backs buf c s) \<le> length buf"
proof (induction buf c s rule: parse_backs.induct)
  case (1 buf c s)
  obtain more s1 where pk: "peek buf s ''&'' = (more, s1)" by (cases "peek buf s ''&''")
  show ?case
  proof (cases more)
    case True
    then have "parse_backs buf c s = parse_backs buf (BACK c) (skip_token buf s1)" by (subst parse_backs.simps) (simp add: pk)
    then show ?thesis using "1.IH" [OF pk [symmetric] refl True] peek_token [of buf s "''&''" s1] pk True by auto
  next
    case False
    then show ?thesis using peek_spec [OF pk] "1.prems" by (subst (1 2) parse_backs.simps) (simp add: pk)
  qed
qed

section \<open>The words of a command\<close>

text \<open>
  A word is what \<open>skip_word\<close> finds at its start. In a well-formed command all names are words, and an
  \<open>EXEC\<close> node has as many starts as ends and fewer than \<open>MAXARGS\<close>.
\<close>

definition word_in :: "string \<Rightarrow> nat \<Rightarrow> nat \<Rightarrow> bool" where
  "word_in buf q eq \<longleftrightarrow> q < eq \<and> eq = skip_word buf q \<and> q < length buf"

primrec wf_cmd :: "string \<Rightarrow> cmd \<Rightarrow> bool" where
  "wf_cmd buf (EXEC a e) \<longleftrightarrow> length a < MAXARGS \<and> list_all2 (word_in buf) a e"
| "wf_cmd buf (REDIR c f ef m fd) \<longleftrightarrow> word_in buf f ef \<and> wf_cmd buf c"
| "wf_cmd buf (PIPE l r) \<longleftrightarrow> wf_cmd buf l \<and> wf_cmd buf r"
| "wf_cmd buf (LIST l r) \<longleftrightarrow> wf_cmd buf l \<and> wf_cmd buf r"
| "wf_cmd buf (BACK c) \<longleftrightarrow> wf_cmd buf c"

text \<open>The node the argument loop fills: an \<open>EXEC\<close> with \<open>n\<close> arguments under redirections.\<close>

fun simple_cmd :: "nat \<Rightarrow> cmd \<Rightarrow> bool" where
  "simple_cmd n (EXEC a e) \<longleftrightarrow> length a = n"
| "simple_cmd n (REDIR c f ef m fd) \<longleftrightarrow> simple_cmd n c"
| "simple_cmd n c \<longleftrightarrow> False"

lemma add_arg_wf:
  "simple_cmd n c \<Longrightarrow> wf_cmd buf c \<Longrightarrow> word_in buf q eq \<Longrightarrow> n + 1 < MAXARGS \<Longrightarrow> wf_cmd buf (add_arg q eq c) \<and> simple_cmd (n + 1) (add_arg q eq c)"
  by (induction q eq c rule: add_arg.induct) (auto intro: list_all2_appendI)

lemma gettoken_word: "gettoken buf s = (CHR ''a'', q, eq, s') \<Longrightarrow> s \<le> length buf \<Longrightarrow> word_in buf q eq"
  using gettoken_spec [of buf s "CHR ''a''" q eq s'] by (auto simp: word_in_def)

lemma parseredirs_wf:
  "parseredirs buf c s = Ok (c', s') \<Longrightarrow> s \<le> length buf \<Longrightarrow> wf_cmd buf c \<Longrightarrow> wf_cmd buf c' \<and> (simple_cmd n c \<longrightarrow> simple_cmd n c')"
proof (induction buf c s rule: parseredirs.induct)
  case (1 buf c s)
  obtain more s1 where pk: "peek buf s ''<>'' = (more, s1)" by (cases "peek buf s ''<>''")
  obtain tok q1 e1 s2 where g1: "gettoken buf s1 = (tok, q1, e1, s2)" by (cases "gettoken buf s1")
  obtain tok2 q eq s3 where g2: "gettoken buf s2 = (tok2, q, eq, s3)" by (cases "gettoken buf s2")
  have s1: "s1 \<le> length buf" using peek_spec [OF pk] "1.prems" by auto
  note t1 = gettoken_spec [OF g1 s1]
  note t2 = gettoken_spec [OF g2 t1(4)]
  let ?c = "if tok = CHR ''<'' then REDIR c q eq 0 0 else REDIR c q eq 0x201 1"
  show ?case
  proof (cases "more \<and> tok2 = CHR ''a''")
    case True
    have "parseredirs buf c s = parseredirs buf ?c s3" using True by (subst parseredirs.simps) (simp add: pk g1 g2)
    moreover have "wf_cmd buf ?c" using "1.prems" gettoken_word [of buf s2 q eq s3] g2 t1(4) True by simp
    ultimately have "wf_cmd buf c' \<and> (simple_cmd n ?c \<longrightarrow> simple_cmd n c')"
      using "1.IH" [OF pk [symmetric] refl g1 [symmetric] refl refl refl g2 [symmetric] refl refl refl] True t2(4) "1.prems"(1) by simp
    then show ?thesis by simp
  next
    case False
    have "parseredirs buf c s = (if more then Bad ''missing file for redirection'' else Ok (c, s1))"
      using False by (subst parseredirs.simps) (auto simp: pk g1 g2)
    then show ?thesis using "1.prems" by (auto split: if_splits)
  qed
qed

lemma parse_args_wf:
  "parse_args buf c n s = Ok (c', s') \<Longrightarrow> s \<le> length buf \<Longrightarrow> wf_cmd buf c \<Longrightarrow> simple_cmd n c \<Longrightarrow> wf_cmd buf c'"
proof (induction buf c n s rule: parse_args.induct)
  case (1 buf c n s)
  obtain stop s1 where pk: "peek buf s ''|)&;'' = (stop, s1)" by (cases "peek buf s ''|)&;''")
  obtain tok q eq s2 where g: "gettoken buf s1 = (tok, q, eq, s2)" by (cases "gettoken buf s1")
  have s1: "s1 \<le> length buf" using peek_spec [OF pk] "1.prems" by auto
  note t = gettoken_spec [OF g s1]
  let ?r = "parseredirs buf (add_arg q eq c) s2"
  show ?case
  proof (cases "\<not> stop \<and> tok = CHR ''a'' \<and> n + 1 < MAXARGS \<and> (\<exists>r. ?r = Ok r)")
    case True
    then obtain c1 s3 where r: "?r = Ok (c1, s3)" by auto
    have e: "parse_args buf c n s = parse_args buf c1 (n + 1) s3"
      using True r by (subst parse_args.simps) (simp add: pk g)
    have "wf_cmd buf (add_arg q eq c) \<and> simple_cmd (n + 1) (add_arg q eq c)"
      using add_arg_wf "1.prems" gettoken_word [of buf s1 q eq s2] g s1 True by blast
    then have "wf_cmd buf c1 \<and> simple_cmd (n + 1) c1" using parseredirs_wf [OF r t(4)] by blast
    moreover have "s3 \<le> length buf" using parseredirs_moves [OF t(4)] r by blast
    ultimately show ?thesis
      using "1.IH" [OF pk [symmetric] refl g [symmetric] refl refl refl _ _ _ _ r] True "1.prems"(1) e by simp
  next
    case False
    then show ?thesis using "1.prems" unfolding parse_args.simps [of buf c n s] by (auto simp: pk g split: pres.splits if_splits)
  qed
qed

lemma parse_backs_wf: "wf_cmd buf c \<Longrightarrow> wf_cmd buf (fst (parse_backs buf c s))"
proof (induction buf c s rule: parse_backs.induct)
  case (1 buf c s)
  obtain more s1 where pk: "peek buf s ''&'' = (more, s1)" by (cases "peek buf s ''&''")
  then show ?case using "1.IH" [OF pk [symmetric] refl] "1.prems" by (subst parse_backs.simps) simp
qed

text \<open>The answer of a parser that began at \<open>s\<close>.\<close>

definition parsed :: "string \<Rightarrow> nat \<Rightarrow> (cmd \<times> nat) pres \<Rightarrow> bool" where
  "parsed buf s r \<longleftrightarrow> r \<noteq> NoFuel \<and> (\<forall>c s'. r = Ok (c, s') \<longrightarrow> s \<le> s' \<and> s' \<le> length buf \<and> wf_cmd buf c)"

lemma parsed_rbind:
  "parsed buf s r \<Longrightarrow> (\<And>c s'. r = Ok (c, s') \<Longrightarrow> s \<le> s' \<Longrightarrow> s' \<le> length buf \<Longrightarrow> wf_cmd buf c \<Longrightarrow> parsed buf s (f (c, s'))) \<Longrightarrow> parsed buf s (rbind r f)"
  by (cases r) (auto simp: parsed_def)

lemma parsed_later: "parsed buf t r \<Longrightarrow> s \<le> t \<Longrightarrow> parsed buf s r"
  by (force simp: parsed_def)

lemma parsed_simps [simp]:
  "parsed buf s (Bad e)" "parsed buf s (Ok (c, s')) \<longleftrightarrow> s \<le> s' \<and> s' \<le> length buf \<and> wf_cmd buf c"
  by (auto simp: parsed_def)

lemma parsed_redirs: "t \<le> length buf \<Longrightarrow> wf_cmd buf c \<Longrightarrow> parsed buf t (parseredirs buf c t)"
  using parseredirs_moves [of t buf c] parseredirs_wf [of buf c t] unfolding parsed_def by blast

lemma parsed_args: "t \<le> length buf \<Longrightarrow> wf_cmd buf c \<Longrightarrow> simple_cmd n c \<Longrightarrow> parsed buf t (parse_args buf c n t)"
  using parse_args_moves [of t buf c n] parse_args_wf [of buf c n t] unfolding parsed_def by blast

text \<open>One call of each parser, given the calls it makes.\<close>

lemma parseline_step:
  assumes pipe: "parsed buf s (parsepipe f buf s)"
    and line: "\<And>t. s < t \<Longrightarrow> t \<le> length buf \<Longrightarrow> parsed buf t (parseline f buf t)"
  shows "parsed buf s (parseline (Suc f) buf s)"
  unfolding parseline.simps(2)
proof (rule parsed_rbind [OF pipe])
  fix c t assume t: "s \<le> t" "t \<le> length buf" and c: "wf_cmd buf c"
  obtain c1 t1 where b: "parse_backs buf c t = (c1, t1)" by (cases "parse_backs buf c t")
  obtain more t2 where pk: "peek buf t1 '';'' = (more, t2)" by (cases "peek buf t1 '';''")
  have t1: "t \<le> t1" "t1 \<le> length buf" using parse_backs_moves [OF t(2), of c] b by auto
  have c1: "wf_cmd buf c1" using parse_backs_wf [OF c, of t] b by simp
  have t2: "t1 \<le> t2" "t2 \<le> length buf" using peek_spec [OF pk] t1 by auto
  have "parsed buf s (rbind (parseline f buf (skip_token buf t2)) (\<lambda>(r, s). Ok (LIST c1 r, s)))" if more
  proof -
    have u: "s < skip_token buf t2" "skip_token buf t2 \<le> length buf" using peek_token [of buf t1 "'';''" t2] pk that t t1 by auto
    show ?thesis by (rule parsed_rbind [OF parsed_later [OF line [OF u] less_imp_le [OF u(1)]]]) (simp add: c1)
  qed
  then show "parsed buf s (case (c, t) of (c, s) \<Rightarrow> let (c, s) = parse_backs buf c s; (more, s) = peek buf s '';'' in
      if more then rbind (parseline f buf (skip_token buf s)) (\<lambda>(r, s). Ok (LIST c r, s)) else Ok (c, s))"
    using t t1 t2 c1 by (simp add: b pk)
qed

lemma parsepipe_step:
  assumes exec: "parsed buf s (parseexec f buf s)"
    and pipe: "\<And>t. s < t \<Longrightarrow> t \<le> length buf \<Longrightarrow> parsed buf t (parsepipe f buf t)"
  shows "parsed buf s (parsepipe (Suc f) buf s)"
  unfolding parsepipe.simps(2)
proof (rule parsed_rbind [OF exec])
  fix c t assume t: "s \<le> t" "t \<le> length buf" and c: "wf_cmd buf c"
  obtain more t2 where pk: "peek buf t ''|'' = (more, t2)" by (cases "peek buf t ''|''")
  have t2: "t \<le> t2" "t2 \<le> length buf" using peek_spec [OF pk] t by auto
  have "parsed buf s (rbind (parsepipe f buf (skip_token buf t2)) (\<lambda>(r, s). Ok (PIPE c r, s)))" if more
  proof -
    have u: "s < skip_token buf t2" "skip_token buf t2 \<le> length buf" using peek_token [of buf t "''|''" t2] pk that t by auto
    show ?thesis by (rule parsed_rbind [OF parsed_later [OF pipe [OF u] less_imp_le [OF u(1)]]]) (simp add: c)
  qed
  then show "parsed buf s (case (c, t) of (c, s) \<Rightarrow> let (more, s) = peek buf s ''|'' in
      if more then rbind (parsepipe f buf (skip_token buf s)) (\<lambda>(r, s). Ok (PIPE c r, s)) else Ok (c, s))"
    using t t2 c by (simp add: pk)
qed

lemma parseexec_step:
  assumes s: "s \<le> length buf" and block: "\<And>t. s \<le> t \<Longrightarrow> t < length buf \<Longrightarrow> parsed buf t (parseblock f buf t)"
  shows "parsed buf s (parseexec (Suc f) buf s)"
proof -
  obtain more t where pk: "peek buf s ''('' = (more, t)" by (cases "peek buf s ''(''")
  have t: "s \<le> t" "t \<le> length buf" "more \<Longrightarrow> t < length buf" using peek_spec [OF pk] s by auto
  have e: "wf_cmd buf execcmd" "simple_cmd 0 execcmd" by (simp_all add: execcmd_def MAXARGS_def)
  have "parsed buf s (rbind (parseredirs buf execcmd t) (\<lambda>(c, s). parse_args buf c 0 s))"
  proof (rule parsed_rbind [OF parsed_later [OF parsed_redirs [OF t(2) e(1)] t(1)]])
    fix c u assume r: "parseredirs buf execcmd t = Ok (c, u)" and u: "s \<le> u" "u \<le> length buf" and c: "wf_cmd buf c"
    have "simple_cmd 0 c" using parseredirs_wf [OF r t(2) e(1)] e(2) by blast
    then show "parsed buf s (case (c, u) of (c, s) \<Rightarrow> parse_args buf c 0 s)"
      unfolding prod.case by (rule parsed_later [OF parsed_args [OF u(2) c] u(1)])
  qed
  moreover have "parsed buf s (parseblock f buf t)" if more
    by (rule parsed_later [OF block [OF t(1) t(3)] t(1)]) (rule that)
  ultimately show ?thesis by (simp add: pk)
qed

lemma parseblock_step:
  assumes line: "\<And>t. s < t \<Longrightarrow> t \<le> length buf \<Longrightarrow> parsed buf t (parseline f buf t)"
  shows "parsed buf s (parseblock (Suc f) buf s)"
proof -
  obtain more t where pk: "peek buf s ''('' = (more, t)" by (cases "peek buf s ''(''")
  have "parsed buf s (rbind (parseline f buf (skip_token buf t)) (\<lambda>(c, s). let (close, s) = peek buf s '')'' in
      if \<not> close then Bad ''syntax - missing )'' else parseredirs buf c (skip_token buf s)))" if more
  proof (rule parsed_rbind)
    have t: "s < skip_token buf t" "skip_token buf t \<le> length buf" using peek_token [of buf s "''(''" t] pk that by auto
    show "parsed buf s (parseline f buf (skip_token buf t))" by (rule parsed_later [OF line [OF t] less_imp_le [OF t(1)]])
    fix c u assume u: "s \<le> u" "u \<le> length buf" and c: "wf_cmd buf c"
    obtain close v where pk2: "peek buf u '')'' = (close, v)" by (cases "peek buf u '')''")
    have "parsed buf s (parseredirs buf c (skip_token buf v))" if close
    proof -
      have v: "s \<le> skip_token buf v" "skip_token buf v \<le> length buf" using peek_token [of buf u "'')''" v] pk2 that u by auto
      show ?thesis by (rule parsed_later [OF parsed_redirs [OF v(2) c] v(1)])
    qed
    then show "parsed buf s (case (c, u) of (c, s) \<Rightarrow> let (close, s) = peek buf s '')'' in
      if \<not> close then Bad ''syntax - missing )'' else parseredirs buf c (skip_token buf s))" by (simp add: pk2)
  qed
  then show ?thesis by (simp add: pk)
qed

text \<open>Four calls for every character left are enough.\<close>

lemma parse_fuel:
  "(s \<le> length buf \<longrightarrow> 4 * (length buf - s) + 3 \<le> f \<longrightarrow> parsed buf s (parseline f buf s)) \<and>
   (s \<le> length buf \<longrightarrow> 4 * (length buf - s) + 2 \<le> f \<longrightarrow> parsed buf s (parsepipe f buf s)) \<and>
   (s \<le> length buf \<longrightarrow> 4 * (length buf - s) + 1 \<le> f \<longrightarrow> parsed buf s (parseexec f buf s)) \<and>
   (s < length buf \<longrightarrow> 4 * (length buf - s) \<le> f \<longrightarrow> parsed buf s (parseblock f buf s))"
proof (induction f arbitrary: s)
  case (Suc f)
  have line: "parsed buf t (parseline f buf t)" if "t \<le> length buf" "4 * (length buf - t) + 3 \<le> f" for t using Suc.IH [of t] that by blast
  have pipe: "parsed buf t (parsepipe f buf t)" if "t \<le> length buf" "4 * (length buf - t) + 2 \<le> f" for t using Suc.IH [of t] that by blast
  have exec: "parsed buf t (parseexec f buf t)" if "t \<le> length buf" "4 * (length buf - t) + 1 \<le> f" for t using Suc.IH [of t] that by blast
  have block: "parsed buf t (parseblock f buf t)" if "t < length buf" "4 * (length buf - t) \<le> f" for t using Suc.IH [of t] that by blast
  have "parsed buf s (parseline (Suc f) buf s)" if "s \<le> length buf" "4 * (length buf - s) + 3 \<le> Suc f"
    by (rule parseline_step; rule pipe line) (use that in auto)
  moreover have "parsed buf s (parsepipe (Suc f) buf s)" if "s \<le> length buf" "4 * (length buf - s) + 2 \<le> Suc f"
    by (rule parsepipe_step; rule exec pipe) (use that in auto)
  moreover have "parsed buf s (parseexec (Suc f) buf s)" if "s \<le> length buf" "4 * (length buf - s) + 1 \<le> Suc f"
    by (rule parseexec_step [OF that(1)]; rule block) (use that in auto)
  moreover have "parsed buf s (parseblock (Suc f) buf s)" if "s < length buf" "4 * (length buf - s) \<le> Suc f"
    by (rule parseblock_step; rule line) (use that in auto)
  ultimately show ?case by blast
qed (simp add: parsed_def)

text \<open>More fuel does not change an answer.\<close>

lemma rbind_more: "rbind r k \<noteq> NoFuel \<Longrightarrow> (r \<noteq> NoFuel \<Longrightarrow> r' = r) \<Longrightarrow> (\<And>a. r = Ok a \<Longrightarrow> k a \<noteq> NoFuel \<Longrightarrow> k' a = k a) \<Longrightarrow> rbind r' k' = rbind r k"
  by (cases r) auto

lemma parse_more:
  "(parseline f buf s \<noteq> NoFuel \<longrightarrow> parseline (Suc f) buf s = parseline f buf s) \<and>
   (parsepipe f buf s \<noteq> NoFuel \<longrightarrow> parsepipe (Suc f) buf s = parsepipe f buf s) \<and>
   (parseexec f buf s \<noteq> NoFuel \<longrightarrow> parseexec (Suc f) buf s = parseexec f buf s) \<and>
   (parseblock f buf s \<noteq> NoFuel \<longrightarrow> parseblock (Suc f) buf s = parseblock f buf s)"
proof (induction f arbitrary: s)
  case (Suc f)
  note parseline.simps [simp del] parsepipe.simps [simp del] parseexec.simps [simp del] parseblock.simps [simp del]
  have line: "parseline f buf t \<noteq> NoFuel \<Longrightarrow> parseline (Suc f) buf t = parseline f buf t" for t using Suc.IH [of t] by blast
  have pipe: "parsepipe f buf t \<noteq> NoFuel \<Longrightarrow> parsepipe (Suc f) buf t = parsepipe f buf t" for t using Suc.IH [of t] by blast
  have exec: "parseexec f buf t \<noteq> NoFuel \<Longrightarrow> parseexec (Suc f) buf t = parseexec f buf t" for t using Suc.IH [of t] by blast
  have block: "parseblock f buf t \<noteq> NoFuel \<Longrightarrow> parseblock (Suc f) buf t = parseblock f buf t" for t using Suc.IH [of t] by blast
  have "parseline (Suc (Suc f)) buf s = parseline (Suc f) buf s" if "parseline (Suc f) buf s \<noteq> NoFuel"
    by (subst (1 2) parseline.simps(2), rule rbind_more [OF that [unfolded parseline.simps(2)] pipe]) (auto simp: Let_def intro!: rbind_more line split: prod.splits)
  moreover have "parsepipe (Suc (Suc f)) buf s = parsepipe (Suc f) buf s" if "parsepipe (Suc f) buf s \<noteq> NoFuel"
    by (subst (1 2) parsepipe.simps(2), rule rbind_more [OF that [unfolded parsepipe.simps(2)] exec]) (auto simp: Let_def intro!: rbind_more pipe split: prod.splits)
  moreover have "parseexec (Suc (Suc f)) buf s = parseexec (Suc f) buf s" if "parseexec (Suc f) buf s \<noteq> NoFuel"
    using that [unfolded parseexec.simps(2)]
    by (subst (1 2) parseexec.simps(2)) (auto simp: Let_def block split: prod.splits)
  moreover have "parseblock (Suc (Suc f)) buf s = parseblock (Suc f) buf s" if "parseblock (Suc f) buf s \<noteq> NoFuel"
    using that [unfolded parseblock.simps(2)]
    by (subst (1 2) parseblock.simps(2)) (auto simp: Let_def intro!: rbind_more line split: prod.splits)
  ultimately show ?case by blast
qed simp

lemma parseline_more: "parseline f buf s \<noteq> NoFuel \<Longrightarrow> parseline (f + k) buf s = parseline f buf s"
proof (induction k)
  case (Suc k)
  then have "parseline (f + k) buf s = parseline f buf s" by blast
  moreover have "parseline (f + k) buf s \<noteq> NoFuel \<longrightarrow> parseline (Suc (f + k)) buf s = parseline (f + k) buf s"
    using parse_more [of "f + k" buf s] by blast
  ultimately show ?case using Suc.prems by simp
qed simp

lemma sh_panic_starts: "sh_panic e \<noteq> Hang" "sh_panic e \<noteq> Ret a"
  by (cases e; simp add: sh_panic_def printf_def putc_def call_def pthen_def nl_def)+

lemma leftovers_start: "pthen (printf 2 (''leftovers: %s'' @ nl) [US (Some x)]) p \<noteq> Hang" "pthen (printf 2 (''leftovers: %s'' @ nl) [US (Some x)]) p \<noteq> Ret a"
  by (simp_all add: printf_def putc_def call_def pthen_def)

text \<open>
  C27 (parsing ends): the recursive-descent parser of the shell, whose loops and mutual recursion follow
  the text typed, ends on every line: with four calls for each character it returns a command or a
  syntax error, and what it returns does not depend on the fuel. So \<open>parsecmd\<close> never runs forever.
\<close>

theorem parsecmd_total:
  "parsecmd buf \<noteq> Hang \<and> parseline (4 * length buf + 3) buf 0 \<noteq> NoFuel \<and>
   parseline (4 * length buf + 3 + k) buf 0 = parseline (4 * length buf + 3) buf 0"
proof -
  have p: "parsed buf 0 (parseline (4 * length buf + 3) buf 0)" using parse_fuel [of 0 buf "4 * length buf + 3"] by simp
  then have n: "parseline (4 * length buf + 3) buf 0 \<noteq> NoFuel" unfolding parsed_def by blast
  have "parsecmd buf \<noteq> Hang"
    unfolding parsecmd_def using n by (auto simp: Let_def sh_panic_starts leftovers_start [simplified] split: pres.splits prod.splits)
  then show ?thesis using n parseline_more [OF n] by blast
qed
section \<open>The words a command runs with\<close>

text \<open>The words of a command, as pairs of pointers, in the order \<open>nulterminate\<close> meets them.\<close>

primrec words_of :: "cmd \<Rightarrow> (nat \<times> nat) list" where
  "words_of (EXEC a e) = zip a e"
| "words_of (REDIR c f ef m fd) = words_of c @ [(f, ef)]"
| "words_of (PIPE l r) = words_of l @ words_of r"
| "words_of (LIST l r) = words_of l @ words_of r"
| "words_of (BACK c) = words_of c"

lemma wf_words: "wf_cmd buf c \<Longrightarrow> (q, eq) \<in> set (words_of c) \<Longrightarrow> word_in buf q eq"
  by (induction c) (auto simp: list_all2_iff)

lemma fold_nul: "fold (\<lambda>e b. b[e := CHR 0x00]) es b = map (\<lambda>i. if i \<in> set es then CHR 0x00 else b ! i) [0..<length b]"
proof (induction es arbitrary: b)
  case Nil
  show ?case by (simp add: map_nth)
next
  case (Cons e es)
  show ?case by (auto simp: Cons.IH nth_list_update)
qed

lemma nulterminate_fold: "wf_cmd buf c \<Longrightarrow> nulterminate c b = fold (\<lambda>e b. b[e := CHR 0x00]) (map snd (words_of c)) b"
  by (induction c arbitrary: b) (simp_all add: list_all2_iff)

text \<open>A word is left as it was typed, and is followed by a zero byte or by the end of the line.\<close>

lemma takeWhile_slice:
  assumes "q \<le> e" "e \<le> length b" "\<And>i. q \<le> i \<Longrightarrow> i < e \<Longrightarrow> P (b ! i)" "e = length b \<or> \<not> P (b ! e)"
  shows "takeWhile P (drop q b) = take (e - q) (drop q b)"
proof -
  have d: "drop q b = take (e - q) (drop q b) @ drop e b"
    using assms(1) append_take_drop_id [of "e - q" "drop q b"] by (simp add: add.commute)
  have "\<forall>x \<in> set (take (e - q) (drop q b)). P x" using assms by (auto simp: in_set_conv_nth)
  moreover have "takeWhile P (drop e b) = []" using assms by (cases "e = length b") (auto simp: Cons_nth_drop_Suc [symmetric])
  ultimately show ?thesis by (subst d) (simp add: takeWhile_append2)
qed

lemma word_separators:
  "word_in buf q eq \<Longrightarrow> word_in buf q' eq' \<Longrightarrow> q \<le> i \<Longrightarrow> i < eq \<Longrightarrow> i \<noteq> eq'"
  using skip_word_chars [of q i buf] skip_word_stop [of buf q'] by (auto simp: word_in_def)

lemma str_at_word:
  assumes wf: "wf_cmd buf c" and w: "(q, eq) \<in> set (words_of c)" and nul: "CHR 0x00 \<notin> set buf"
  shows "str_at (nulterminate c buf) q = take (eq - q) (drop q buf)"
proof -
  let ?b = "nulterminate c buf"
  let ?E = "set (map snd (words_of c))"
  have b: "?b = map (\<lambda>i. if i \<in> ?E then CHR 0x00 else buf ! i) [0..<length buf]"
    unfolding nulterminate_fold [OF wf] fold_nul ..
  have word: "word_in buf q eq" by (rule wf_words [OF wf w])
  then have eq: "q < eq" "eq \<le> length buf" using skip_word_bounds [of q buf] by (auto simp: word_in_def)
  have keep: "?b ! i = buf ! i" if "q \<le> i" "i < eq" for i
    using word_separators [OF word wf_words [OF wf]] that eq by (fastforce simp: b)
  have l: "length ?b = length buf" by (simp add: b)
  have nth: "buf ! i \<noteq> CHR 0x00" if "i < length buf" for i using nul that nth_mem by fastforce
  have "eq \<in> ?E" using w by force
  then have "eq = length ?b \<or> \<not> ?b ! eq \<noteq> CHR 0x00" using eq by (cases "eq < length buf") (simp_all add: b)
  then have "str_at ?b q = take (eq - q) (drop q ?b)"
    unfolding str_at_def using eq keep nth l by (intro takeWhile_slice) auto
  also have "\<dots> = take (eq - q) (drop q buf)" using eq keep l by (intro nth_equalityI) auto
  finally show ?thesis .
qed

text \<open>
  C28 (words): a line that parses gives a command in which every \<open>EXEC\<close> node has fewer than
  \<open>MAXARGS\<close> arguments, and in which every argument and file name, read as a C string after
  \<open>nulterminate\<close>, is exactly the non-empty piece of the line between its two pointers, free of white
  space and of the shell's symbols: terminating one word never damages another.
\<close>

theorem parsecmd_words:
  assumes parse: "parsecmd buf = Ret (c, b)" and nul: "CHR 0x00 \<notin> set buf" and w: "(q, eq) \<in> set (words_of c)"
  shows "wf_cmd buf c \<and> q < eq \<and> eq \<le> length buf \<and> str_at b q = take (eq - q) (drop q buf) \<and>
    (\<forall>i \<in> {q..<eq}. \<not> has_chr whitespace (buf ! i) \<and> \<not> has_chr symbols (buf ! i))"
proof -
  obtain s where p: "parseline (4 * length buf + 3) buf 0 = Ok (c, s)" and b: "b = nulterminate c buf"
    using parse by (auto simp: parsecmd_def Let_def sh_panic_starts leftovers_start [simplified] split: pres.splits prod.splits if_splits)
  have "parsed buf 0 (parseline (4 * length buf + 3) buf 0)" using parse_fuel [of 0 buf "4 * length buf + 3"] by simp
  then have wf: "wf_cmd buf c" using p by (simp add: parsed_def)
  then have word: "word_in buf q eq" by (rule wf_words [OF _ w])
  then have "q < eq" "eq \<le> length buf" using skip_word_bounds [of q buf] by (auto simp: word_in_def)
  moreover have "\<forall>i \<in> {q..<eq}. \<not> has_chr whitespace (buf ! i) \<and> \<not> has_chr symbols (buf ! i)"
  proof
    fix i assume "i \<in> {q..<eq}"
    then show "\<not> has_chr whitespace (buf ! i) \<and> \<not> has_chr symbols (buf ! i)"
      using skip_word_chars [of q i buf] word by (auto simp: word_in_def at_def)
  qed
  ultimately show ?thesis using wf str_at_word [OF wf w nul] b by blast
qed

theorem parsecmd_words_witness:
  "wf_cmd ''ls a>f'' (REDIR (EXEC [0, 3] [2, 4]) 5 6 0x201 1) \<and> str_at (''ls'' @ [CHR 0x00] @ ''a'' @ [CHR 0x00] @ ''f'') 3 = ''a''"
proof -
  let ?buf = "''ls a>f''" and ?c = "REDIR (EXEC [0, 3] [2, 4]) 5 6 0x201 1" and ?b = "''ls'' @ [CHR 0x00] @ ''a'' @ [CHR 0x00] @ ''f''"
  have "parseline (4 * length ?buf + 3) ?buf 0 = Ok (?c, 6)" "peek ?buf 6 [] = (False, 6)" "nulterminate ?c ?buf = ?b" by code_simp+
  then have "parsecmd ?buf = Ret (?c, ?b)" by (simp add: parsecmd_def)
  moreover have "CHR 0x00 \<notin> set ?buf" "(3, 4) \<in> set (words_of ?c)" by simp_all
  ultimately have "wf_cmd ?buf ?c \<and> (3::nat) < 4 \<and> 4 \<le> length ?buf \<and> str_at ?b 3 = take (4 - 3) (drop 3 ?buf) \<and>
    (\<forall>i \<in> {3..<4}. \<not> has_chr whitespace (?buf ! i) \<and> \<not> has_chr symbols (?buf ! i))"
    by (rule parsecmd_words)
  moreover have "take (4 - 3) (drop 3 ?buf) = ''a''" by simp
  ultimately show ?thesis by metis
qed

end
