(* ===== verification/Spec2Isabelle.thy ===== *)
theory Spec2Isabelle
  imports Syscall Fsblocks Umalloc Grep Shell
begin

text \<open>
  A verification development for the xv6 kernel with the \<open>waitx\<close> system call.
\<close>

end
